(* ===== verification/Go_Prelude.thy ===== *)
theory Go_Prelude
  imports Main "HOL-Library.Word" "HOL-Library.Char_ord" "HOL-Library.List_Lexorder"
    "HOL-Library.Multiset" "HOL-Library.Signed_Division"
begin

text \<open>
  The part of Go that every component relies on, and the lemmas the components share: the
  results of a Go function (a value, an error, a panic), 64-bit \<open>int\<close> arithmetic,
  slices and \<open>copy\<close>, byte strings and the big-endian codecs of \<open>encoding/binary\<close>,
  the decimal codecs of \<open>strconv\<close> and \<open>fmt\<close>, Go maps as association lists, and
  the contract of \<open>sort.Slice\<close>. Nothing here translates a file of the repository.
\<close>

unbundle bit_operations_syntax

section \<open>Named collections of the development\<close>

named_theorems go_simps \<open>unfolding rules of Go's primitive operations\<close>
named_theorems go_int64 \<open>64-bit operations that do not overflow\<close>
named_theorems picker_intros \<open>preservation of the piece picker's invariant\<close>

section \<open>Results of a Go function\<close>

text \<open>
  A Go function of this program returns a value (\<open>Ret\<close>), returns an error
  (\<open>Err\<close>, with the error's type a parameter) or panics, which ends the process:
  no goroutine of the program recovers.
\<close>

datatype go_panic =
    Slice_bounds | Index_out_of_range | Divide_by_zero | Makeslice_len | Negative_shift
  | Close_of_closed_channel | Makechan_size

datatype ('e, 'a) outcome = Ret 'a | Err 'e | Panic go_panic

fun go_bind :: "('e, 'a) outcome \<Rightarrow> ('a \<Rightarrow> ('e, 'b) outcome) \<Rightarrow> ('e, 'b) outcome" where
  "go_bind (Ret x) f = f x"
| "go_bind (Err e) f = Err e"
| "go_bind (Panic p) f = Panic p"

text \<open>\<open>fmt.Errorf("...: %w", err)\<close>: an error passed on under another name.\<close>

fun map_err :: "('e \<Rightarrow> 'f) \<Rightarrow> ('e, 'a) outcome \<Rightarrow> ('f, 'a) outcome" where
  "map_err f (Ret x) = Ret x"
| "map_err f (Err e) = Err (f e)"
| "map_err f (Panic p) = Panic p"

fun_cases go_bind_RetE [elim!]: "go_bind m f = Ret y"
fun_cases map_err_RetE [elim!]: "map_err f m = Ret y"

lemma go_bind_Ret_iff [simp]: "go_bind m f = Ret y \<longleftrightarrow> (\<exists>x. m = Ret x \<and> f x = Ret y)"
  by (cases m) auto

lemma map_err_Ret_iff [simp]: "map_err f m = Ret y \<longleftrightarrow> m = Ret y"
  by (cases m) auto

lemma go_bind_assoc: "go_bind (go_bind m f) g = go_bind m (\<lambda>x. go_bind (f x) g)"
  by (cases m) auto

text \<open>A loop that computes one element per index and stops at the first failure.\<close>

fun go_mapM :: "('a \<Rightarrow> ('e, 'b) outcome) \<Rightarrow> 'a list \<Rightarrow> ('e, 'b list) outcome" where
  "go_mapM f [] = Ret []"
| "go_mapM f (x # xs) = go_bind (f x) (\<lambda>y. go_bind (go_mapM f xs) (\<lambda>ys. Ret (y # ys)))"

lemma go_mapM_Ret: "(\<And>x. x \<in> set xs \<Longrightarrow> f x = Ret (g x)) \<Longrightarrow> go_mapM f xs = Ret (map g xs)"
  by (induction xs) auto

lemma go_mapM_length: "go_mapM f xs = Ret ys \<Longrightarrow> length ys = length xs"
  by (induction xs arbitrary: ys) auto

lemma go_mapM_nth: "go_mapM f xs = Ret ys \<Longrightarrow> i < length xs \<Longrightarrow> f (xs ! i) = Ret (ys ! i)"
  by (induction xs arbitrary: ys i) (auto simp: nth_Cons split: nat.splits)

section \<open>64-bit integers\<close>

text \<open>
  Go's \<open>int\<close> has 64 bits on the platforms the client is built for: a sum or product that
  leaves the range wraps around, a quotient is truncated towards zero and division by zero
  panics. A value of the type is an \<^typ>\<open>int\<close> of the model that \<open>in_int64\<close> admits.
\<close>

definition in_int64 :: "int \<Rightarrow> bool" where
  "in_int64 x \<longleftrightarrow> - (2 ^ 63) \<le> x \<and> x < 2 ^ 63"

definition wrap64 :: "int \<Rightarrow> int" where
  "wrap64 x = (x + 2 ^ 63) mod 2 ^ 64 - 2 ^ 63"

definition go_div :: "int \<Rightarrow> int \<Rightarrow> ('e, int) outcome" where
  "go_div a b = (if b = 0 then Panic Divide_by_zero else Ret (wrap64 (a sdiv b)))"

lemma wrap64_id [go_int64]: "in_int64 x \<Longrightarrow> wrap64 x = x"
  by (simp add: wrap64_def in_int64_def)

lemma wrap64_in [simp]: "in_int64 (wrap64 x)"
proof -
  have "0 \<le> (x + 2 ^ 63) mod 2 ^ 64 \<and> (x + 2 ^ 63) mod 2 ^ 64 < (2::int) ^ 64"
    by simp
  then show ?thesis by (simp add: in_int64_def wrap64_def)
qed

lemma wrap64_nonneg [go_int64]: "0 \<le> x \<Longrightarrow> x < 2 ^ 63 \<Longrightarrow> wrap64 x = x"
  by (simp add: wrap64_id in_int64_def)

lemma wrap64_overflow: "2 ^ 63 \<le> x \<Longrightarrow> x < 2 ^ 64 \<Longrightarrow> wrap64 x = x - 2 ^ 64"
proof -
  assume a: "2 ^ 63 \<le> x" "x < 2 ^ 64"
  have "(x + 2 ^ 63) mod 2 ^ 64 = (x + 2 ^ 63 - 2 ^ 64) mod (2 ^ 64 :: int)"
    by (metis minus_mod_self2)
  also have "\<dots> = x + 2 ^ 63 - 2 ^ 64" using a by simp
  finally show ?thesis by (simp add: wrap64_def)
qed

lemma sdiv_nonneg: "0 \<le> a \<Longrightarrow> 0 < b \<Longrightarrow> a sdiv b = a div (b::int)"
  by (cases "a = 0") (simp_all add: signed_divide_int_def)

lemma go_div_nonneg [go_int64]:
  "0 \<le> a \<Longrightarrow> a < 2 ^ 63 \<Longrightarrow> 0 < b \<Longrightarrow> go_div a b = Ret (a div b)"
proof -
  assume a: "0 \<le> a" "a < 2 ^ 63" "0 < b"
  then have "a div b \<le> a" using zdiv_mono2 [of a 1 b] by simp
  with a show ?thesis
    by (simp add: go_div_def sdiv_nonneg wrap64_nonneg pos_imp_zdiv_nonneg_iff)
qed

text \<open>\<open>ceil_div\<close> is what \<open>(a + b - 1) / b\<close> means when nothing overflows.\<close>

definition ceil_div :: "nat \<Rightarrow> nat \<Rightarrow> nat" where
  "ceil_div a b = (a + b - 1) div b"

lemma ceil_div_0 [simp]: "0 < b \<Longrightarrow> ceil_div 0 b = 0"
  by (simp add: ceil_div_def)

lemma ceil_div_upper: "0 < b \<Longrightarrow> a \<le> ceil_div a b * b"
proof -
  assume b: "0 < b"
  have "a + b - 1 = (a + b - 1) div b * b + (a + b - 1) mod b" by simp
  moreover have "(a + b - 1) mod b \<le> b - 1" using b by (simp add: less_Suc_eq_le [symmetric])
  ultimately show ?thesis unfolding ceil_div_def using b by linarith
qed

lemma ceil_div_lower: "0 < b \<Longrightarrow> i < ceil_div a b \<Longrightarrow> i * b < a"
proof -
  assume b: "0 < b" and i: "i < ceil_div a b"
  have "Suc i * b \<le> (a + b - 1) div b * b"
    using i unfolding ceil_div_def by (intro mult_le_mono1) simp
  also have "\<dots> \<le> a + b - 1" by simp
  finally show ?thesis using b by simp
qed

lemma ceil_div_pos: "0 < b \<Longrightarrow> 0 < a \<Longrightarrow> 0 < ceil_div a b"
  using ceil_div_upper [of b a] by (cases "ceil_div a b") auto

lemma ceil_div_last:
  assumes "0 < b" and "Suc i = ceil_div a b"
  shows "0 < a - i * b" and "a - i * b \<le> b"
proof -
  show "0 < a - i * b" using ceil_div_lower [of b i a] assms by simp
  show "a - i * b \<le> b" using ceil_div_upper [of b a] assms(1) assms(2) [symmetric] by simp
qed

lemma go_ceil_div [go_int64]:
  assumes "0 < b" and "int a + int b \<le> 2 ^ 63"
  shows "go_div (wrap64 (wrap64 (int a + int b) - 1)) (int b) = Ret (int (ceil_div a b))"
proof -
  have e: "int a + int b - 1 = int (a + b - 1)" using assms(1) by simp
  have w: "wrap64 (wrap64 (int a + int b) - 1) = int (a + b - 1)"
  proof (cases "int a + int b < 2 ^ 63")
    case True
    then have "wrap64 (int a + int b) = int a + int b" by (simp add: wrap64_nonneg)
    moreover have "wrap64 (int a + int b - 1) = int a + int b - 1"
      by (rule wrap64_nonneg) (use True assms(1) in linarith)+
    ultimately show ?thesis by (simp only: e)
  next
    case False
    with assms have s: "int a + int b = 2 ^ 63" by simp
    show ?thesis unfolding e [symmetric] s by (simp add: wrap64_def)
  qed
  have "int (a + b - 1) < 2 ^ 63" using assms e by linarith
  then have "go_div (int (a + b - 1)) (int b) = Ret (int (a + b - 1) div int b)"
    using assms(1) by (intro go_div_nonneg) simp_all
  then show ?thesis by (simp only: w ceil_div_def zdiv_int)
qed

section \<open>Slices\<close>

text \<open>
  \<open>xs[lo:hi]\<close> and \<open>xs[lo:]\<close>: the bounds are checked and a violation panics. (For a byte
  slice Go checks the upper bound against the capacity; every place of the program that
  this development models with \<open>go_slice\<close> is either on a string, where the two
  agree, or has its upper bound already compared with the length.)
\<close>

definition go_slice :: "'a list \<Rightarrow> int \<Rightarrow> int \<Rightarrow> ('e, 'a list) outcome" where
  "go_slice xs lo hi =
     (if 0 \<le> lo \<and> lo \<le> hi \<and> hi \<le> int (length xs)
      then Ret (take (nat (hi - lo)) (drop (nat lo) xs)) else Panic Slice_bounds)"

definition sub :: "'a list \<Rightarrow> nat \<Rightarrow> nat \<Rightarrow> 'a list" where
  "sub xs lo hi = take (hi - lo) (drop lo xs)"

lemma go_slice_nat [simp]:
  "lo \<le> hi \<Longrightarrow> hi \<le> length xs \<Longrightarrow> go_slice xs (int lo) (int hi) = Ret (sub xs lo hi)"
  by (simp add: go_slice_def sub_def nat_diff_distrib)

lemma go_slice_end:
  "n \<le> length xs \<Longrightarrow> go_slice xs (int n) (int (length xs)) = (Ret (drop n xs) :: ('e, 'a list) outcome)"
  by (simp add: go_slice_def)

lemma go_slice_Ret:
  "go_slice xs lo hi = Ret ys \<longleftrightarrow>
     0 \<le> lo \<and> lo \<le> hi \<and> hi \<le> int (length xs) \<and> ys = sub xs (nat lo) (nat hi)"
  by (auto simp: go_slice_def sub_def nat_diff_distrib)

lemma go_slice_not_Err [simp]: "go_slice xs lo hi \<noteq> Err e"
  by (simp add: go_slice_def)

lemma length_sub [simp]: "length (sub xs lo hi) = min (hi - lo) (length xs - lo)"
  by (simp add: sub_def)

lemma sub_append_mid [simp]: "sub (xs @ ys @ zs) (length xs) (length xs + length ys) = ys"
  by (simp add: sub_def)

lemma sub_split: "lo \<le> mid \<Longrightarrow> mid \<le> hi \<Longrightarrow> sub xs lo hi = sub xs lo mid @ sub xs mid hi"
proof -
  assume h: "lo \<le> mid" "mid \<le> hi"
  then have "hi - lo = (mid - lo) + (hi - mid)" and "mid = lo + (mid - lo)" by simp_all
  then show ?thesis unfolding sub_def by (metis add.commute drop_drop take_add)
qed

lemma sub_Cons: "lo < hi \<Longrightarrow> hi \<le> length xs \<Longrightarrow> sub xs lo hi = xs ! lo # sub xs (Suc lo) hi"
  unfolding sub_def by (simp add: Cons_nth_drop_Suc [symmetric] take_Cons')

lemma sub_single: "lo < length xs \<Longrightarrow> sub xs lo (Suc lo) = [xs ! lo]"
  by (simp add: sub_Cons) (simp add: sub_def)

lemma sub_full: "sub xs 0 (length xs) = xs"
  by (simp add: sub_def)

lemma nth_sub: "i < hi - lo \<Longrightarrow> hi \<le> length xs \<Longrightarrow> sub xs lo hi ! i = xs ! (lo + i)"
  by (simp add: sub_def)

lemma split_at_sub:
  "lo \<le> hi \<Longrightarrow> hi \<le> length xs \<Longrightarrow> xs = take lo xs @ sub xs lo hi @ drop hi xs"
proof -
  assume h: "lo \<le> hi" "hi \<le> length xs"
  have "take hi xs = take lo xs @ sub xs lo hi"
    using h(1) sub_split [of 0 lo hi xs] by (simp add: sub_def)
  then show ?thesis by (metis append_assoc append_take_drop_id)
qed

text \<open>Blocks of one size, joined.\<close>

lemma length_concat_fixed: "\<forall>x\<in>set xs. length x = n \<Longrightarrow> length (concat xs) = length xs * n"
  by (induction xs) auto

lemma sub_concat_fixed:
  "\<forall>x\<in>set xs. length x = n \<Longrightarrow> i < length xs \<Longrightarrow> sub (concat xs) (i * n) (Suc i * n) = xs ! i"
proof (induction xs arbitrary: i)
  case (Cons x xs)
  then show ?case by (cases i) (auto simp: sub_def)
qed simp

text \<open>\<open>copy(dst[off:], src)\<close> copies as many elements as fit.\<close>

definition go_copy :: "'a list \<Rightarrow> nat \<Rightarrow> 'a list \<Rightarrow> 'a list" where
  "go_copy dst off src = take off dst @ take (length dst - off) src @ drop (off + length src) dst"

text \<open>The same where the offset is not known to be in range.\<close>

definition go_copy_at :: "'a list \<Rightarrow> int \<Rightarrow> 'a list \<Rightarrow> ('e, 'a list) outcome" where
  "go_copy_at dst off src =
     (if off < 0 \<or> off > int (length dst) then Panic Slice_bounds else Ret (go_copy dst (nat off) src))"

lemma length_go_copy [simp]: "off \<le> length dst \<Longrightarrow> length (go_copy dst off src) = length dst"
  by (simp add: go_copy_def)

lemma nth_go_copy:
  "off + length src \<le> length dst \<Longrightarrow> j < length dst \<Longrightarrow>
     go_copy dst off src ! j = (if off \<le> j \<and> j < off + length src then src ! (j - off) else dst ! j)"
  by (auto simp: go_copy_def nth_append min_def)

section \<open>Sums over lists\<close>

lemma sum_list_update_add:
  fixes f :: "'a \<Rightarrow> 'b :: comm_monoid_add"
  shows "i < length xs \<Longrightarrow> sum_list (map f (xs[i := y])) + f (xs ! i) = sum_list (map f xs) + f y"
proof (induction xs arbitrary: i)
  case (Cons x xs)
  then show ?case by (cases i) (auto simp: ac_simps)
qed simp

lemma sum_list_map_update:
  fixes f :: "'a \<Rightarrow> int"
  shows "i < length xs \<Longrightarrow> sum_list (map f (xs[i := y])) = sum_list (map f xs) - f (xs ! i) + f y"
  by (induction xs arbitrary: i) (auto split: nat.splits)

lemma map_update_same: "b < length xs \<Longrightarrow> g y = g (xs ! b) \<Longrightarrow> map g (xs[b := y]) = map g xs"
  by (metis list_update_id map_update nth_map)

lemma concat_map_concat:
  "concat (map f (concat (map g xs))) = concat (map (\<lambda>x. concat (map f (g x))) xs)"
  by (induction xs) auto

lemma length_concat_sum: "int (length (concat xss)) = (\<Sum>xs\<leftarrow>xss. int (length xs))"
  by (induction xss) auto

lemma length_filter_sum: "int (length (filter P xs)) = (\<Sum>x\<leftarrow>xs. of_bool (P x))"
  by (induction xs) auto

lemma sum_list_mset_cong:
  fixes f :: "'a \<Rightarrow> int"
  shows "mset xs = mset ys \<Longrightarrow> sum_list (map f xs) = sum_list (map f ys)"
  by (metis mset_map sum_mset_sum_list)

lemma mset_eq_map: "mset xs = mset (map f ys) \<Longrightarrow> \<exists>zs. xs = map f zs \<and> mset zs = mset ys"
proof (induction xs arbitrary: ys)
  case (Cons x xs)
  have "x \<in> set (map f ys)" by (metis Cons.prems list.set_intros(1) mset_eq_setD)
  then obtain y where y: "y \<in> set ys" "x = f y" by auto
  have "mset ys = add_mset y (mset (remove1 y ys))" using y(1) by simp
  with Cons.prems y(2) have "mset xs = mset (map f (remove1 y ys))" by (simp del: mset_remove1)
  from Cons.IH [OF this] obtain zs where "xs = map f zs" "mset zs = mset (remove1 y ys)" by blast
  with y show ?case by (intro exI [of _ "y # zs"]) simp
qed simp

section \<open>Searching lists\<close>

lemma find_sorted_wrt:
  "find P xs = Some x \<Longrightarrow> sorted_wrt R xs \<Longrightarrow> R x x \<Longrightarrow> y \<in> set xs \<Longrightarrow> P y \<Longrightarrow> R x y"
  by (induction xs) (auto split: if_splits)

lemma find_map: "find P (map f xs) = map_option f (find (\<lambda>x. P (f x)) xs)"
  by (induction xs) auto

lemma find_index_iff:
  "find P [0..<n] = Some k \<longleftrightarrow> k < n \<and> P k \<and> (\<forall>j<k. \<not> P j)"
  by (auto simp: find_Some_iff)

section \<open>Bytes and strings\<close>

type_synonym byte = "8 word"

definition byte_of_char :: "char \<Rightarrow> byte" where
  "byte_of_char c = of_char c"

definition char_of_byte :: "byte \<Rightarrow> char" where
  "char_of_byte b = char_of (unat b)"

text \<open>The conversions \<open>[]byte(s)\<close> and \<open>string(b)\<close>.\<close>

definition bytes_of :: "string \<Rightarrow> byte list" where
  "bytes_of s = map byte_of_char s"

definition string_of :: "byte list \<Rightarrow> string" where
  "string_of bs = map char_of_byte bs"

lemma unat_byte_of_char [simp]: "unat (byte_of_char c) = of_char c"
proof -
  have "(of_char c :: byte) = of_nat (of_char c)"
    by (simp add: of_char_def)
  moreover have "of_char c < (256 :: nat)" by simp
  ultimately show ?thesis by (simp add: byte_of_char_def unat_of_nat)
qed

lemma char_of_byte_of_char [simp]: "char_of_byte (byte_of_char c) = c"
  by (simp add: char_of_byte_def)

lemma byte_of_char_of_byte [simp]: "byte_of_char (char_of_byte b) = b"
proof -
  have "unat b < 256" using unsigned_less [of b, where ?'a = nat] by simp
  then have "unat (byte_of_char (char_of_byte b)) = unat b"
    by (simp add: char_of_byte_def)
  then show ?thesis by (rule word_unat_eq_iff [THEN iffD2])
qed

lemma string_of_bytes_of [simp]: "string_of (bytes_of s) = s"
  by (simp add: string_of_def bytes_of_def comp_def)

lemma bytes_of_string_of [simp]: "bytes_of (string_of b) = b"
  by (simp add: string_of_def bytes_of_def comp_def)

lemma length_bytes_of [simp]: "length (bytes_of s) = length s"
  by (simp add: bytes_of_def)

lemma length_string_of [simp]: "length (string_of b) = length b"
  by (simp add: string_of_def)

end
