(* ===== verification/Go_Codec.thy ===== *)
theory Go_Codec
  imports Go_Prelude
begin

text \<open>
  The codecs of Go's standard library that the program calls: \<open>binary.BigEndian\<close>
  of \<open>encoding/binary\<close>, decimal numbers as \<open>strconv.Atoi\<close>, \<open>strconv.Itoa\<close>
  and \<open>%d\<close> read and write them, and \<open>encoding/hex\<close>; with their round trips.
\<close>

section \<open>Big-endian words\<close>

definition PutUint16 :: "16 word \<Rightarrow> byte list" where
  "PutUint16 v = [ucast (drop_bit 8 v), ucast v]"

definition Uint16 :: "byte list \<Rightarrow> 16 word" where
  "Uint16 b = ucast (b ! 1) OR push_bit 8 (ucast (b ! 0))"

definition PutUint32 :: "32 word \<Rightarrow> byte list" where
  "PutUint32 v = [ucast (drop_bit 24 v), ucast (drop_bit 16 v), ucast (drop_bit 8 v), ucast v]"

definition Uint32 :: "byte list \<Rightarrow> 32 word" where
  "Uint32 b = ucast (b ! 3) OR push_bit 8 (ucast (b ! 2)) OR push_bit 16 (ucast (b ! 1))
     OR push_bit 24 (ucast (b ! 0))"

definition PutUint64 :: "64 word \<Rightarrow> byte list" where
  "PutUint64 v = PutUint32 (ucast (drop_bit 32 v)) @ PutUint32 (ucast v)"

definition Uint64 :: "byte list \<Rightarrow> 64 word" where
  "Uint64 b = ucast (Uint32 (drop 4 b)) OR push_bit 32 (ucast (Uint32 (take 4 b)))"

lemma length_PutUint [simp]:
  "length (PutUint16 u) = 2" "length (PutUint32 v) = 4" "length (PutUint64 w) = 8"
  by (simp_all add: PutUint16_def PutUint32_def PutUint64_def)

lemma Uint16_PutUint16 [simp]: "Uint16 (PutUint16 v @ bs) = v"
  by (rule bit_word_eqI) (auto simp: Uint16_def PutUint16_def bit_simps)

lemma Uint32_PutUint32 [simp]: "Uint32 (PutUint32 v @ bs) = v"
proof (rule bit_word_eqI)
  fix n assume "n < LENGTH(32)"
  then consider "n < 8" | "8 \<le> n" "n < 16" | "16 \<le> n" "n < 24" | "24 \<le> n" "n < 32"
    by force
  then show "bit (Uint32 (PutUint32 v @ bs)) n = bit v n"
    by cases (auto simp: Uint32_def PutUint32_def bit_simps)
qed

lemma Uint16_PutUint16_Nil [simp]: "Uint16 (PutUint16 v) = v"
  using Uint16_PutUint16 [of v "[]"] by simp

lemma Uint32_PutUint32_Nil [simp]: "Uint32 (PutUint32 v) = v"
  using Uint32_PutUint32 [of v "[]"] by simp

lemma Uint64_PutUint64 [simp]: "Uint64 (PutUint64 v) = v"
  by (rule bit_word_eqI) (auto simp: Uint64_def PutUint64_def bit_simps)

lemma list4: "length bs = 4 \<Longrightarrow> \<exists>a b c d. bs = [a, b, c, d]"
  by (auto simp: eval_nat_numeral length_Suc_conv)

lemma PutUint32_Uint32 [simp]: "length bs = 4 \<Longrightarrow> PutUint32 (Uint32 bs) = bs"
proof -
  assume "length bs = 4"
  then obtain a b c d where bs: "bs = [a, b, c, d]" using list4 by blast
  show ?thesis
    unfolding bs PutUint32_def Uint32_def
    by (simp, intro conjI; rule bit_word_eqI; auto simp: bit_simps dest: bit_imp_le_length)
qed

lemma PutUint32_inject [simp]: "PutUint32 v = PutUint32 w \<longleftrightarrow> v = w"
  by (metis Uint32_PutUint32_Nil)

text \<open>\<open>int(u)\<close> of a 32-bit word and \<open>uint32(i)\<close> of an int.\<close>

definition int_of_u32 :: "32 word \<Rightarrow> int" where
  "int_of_u32 w = uint w"

definition u32 :: "int \<Rightarrow> 32 word" where
  "u32 i = word_of_int i"

lemma int_of_u32_unat: "int_of_u32 w = int (unat w)"
  by (simp add: int_of_u32_def)

lemma int_of_u32_bounds [simp]: "0 \<le> int_of_u32 w" "int_of_u32 w < 2 ^ 32"
  using uint_lt2p [of w] by (simp_all add: int_of_u32_def)

lemma int_of_u32_u32 [simp]: "0 \<le> i \<Longrightarrow> i < 2 ^ 32 \<Longrightarrow> int_of_u32 (u32 i) = i"
  by (simp add: int_of_u32_def u32_def uint_word_of_int)

lemma u32_int_of_u32 [simp]: "u32 (int_of_u32 w) = w"
  by (simp add: int_of_u32_def u32_def)

section \<open>Decimal numbers\<close>

text \<open>\<open>unicode.IsDigit\<close> of a byte: in Latin-1 only the ten ASCII digits qualify.\<close>

definition is_digit :: "char \<Rightarrow> bool" where
  "is_digit c \<longleftrightarrow> 48 \<le> (of_char c :: nat) \<and> (of_char c :: nat) \<le> 57"

definition digit_val :: "char \<Rightarrow> nat" where
  "digit_val c = of_char c - 48"

definition digit_char :: "nat \<Rightarrow> char" where
  "digit_char d = char_of (48 + d)"

text \<open>\<open>strconv.Itoa\<close> and \<open>%d\<close>.\<close>

fun nat_str :: "nat \<Rightarrow> string" where
  "nat_str n = (if n < 10 then [digit_char n] else nat_str (n div 10) @ [digit_char (n mod 10)])"

declare nat_str.simps [simp del]

definition Itoa :: "int \<Rightarrow> string" where
  "Itoa i = (if i < 0 then CHR ''-'' # nat_str (nat (- i)) else nat_str (nat i))"

text \<open>
  \<open>strconv.Atoi\<close>: an optional sign, at least one digit, nothing else, and a value in the
  range of \<open>int\<close>; every other text is a \<open>*NumError\<close> (\<open>None\<close>).
\<close>

definition digits_val :: "string \<Rightarrow> nat" where
  "digits_val s = foldl (\<lambda>n c. 10 * n + digit_val c) 0 s"

definition parse_digits :: "string \<Rightarrow> nat option" where
  "parse_digits s = (if s \<noteq> [] \<and> list_all is_digit s then Some (digits_val s) else None)"

definition range_check :: "int \<Rightarrow> int option" where
  "range_check i = (if in_int64 i then Some i else None)"

definition Atoi :: "string \<Rightarrow> int option" where
  "Atoi s = (case s of
       [] \<Rightarrow> None
     | c # cs \<Rightarrow>
         (if c = CHR ''-'' then Option.bind (parse_digits cs) (\<lambda>n. range_check (- int n))
          else if c = CHR ''+'' then Option.bind (parse_digits cs) (\<lambda>n. range_check (int n))
          else Option.bind (parse_digits s) (\<lambda>n. range_check (int n))))"

lemma of_char_digit_char [simp]: "d < 10 \<Longrightarrow> of_char (digit_char d) = 48 + d"
  by (simp add: digit_char_def)

lemma is_digit_digit_char [simp]: "d < 10 \<Longrightarrow> is_digit (digit_char d)"
  by (simp add: is_digit_def)

lemma digit_val_digit_char [simp]: "d < 10 \<Longrightarrow> digit_val (digit_char d) = d"
  by (simp add: digit_val_def)

lemma digit_char_digit_val [simp]: "is_digit c \<Longrightarrow> digit_char (digit_val c) = c"
  by (simp add: digit_char_def digit_val_def is_digit_def)

lemma digits_val_snoc [simp]: "digits_val (s @ [c]) = 10 * digits_val s + digit_val c"
  by (simp add: digits_val_def)

lemma nat_str_not_Nil [simp]: "nat_str n \<noteq> []"
  by (subst nat_str.simps) simp

lemma nat_str_digits [simp]: "list_all is_digit (nat_str n)"
proof (induction n rule: nat_str.induct)
  case (1 n)
  then show ?case by (subst nat_str.simps) simp
qed

lemma digits_val_nat_str [simp]: "digits_val (nat_str n) = n"
proof (induction n rule: nat_str.induct)
  case (1 n)
  then show ?case
    by (subst nat_str.simps) (auto simp: digits_val_def)
qed

lemma parse_digits_nat_str [simp]: "parse_digits (nat_str n) = Some n"
  by (simp add: parse_digits_def)

lemma nat_str_inject [simp]: "nat_str m = nat_str n \<longleftrightarrow> m = n"
  by (metis digits_val_nat_str)

lemma is_digit_not:
  "is_digit c \<Longrightarrow> c \<noteq> CHR '':''" "is_digit c \<Longrightarrow> c \<noteq> CHR ''e''" "is_digit c \<Longrightarrow> c \<noteq> CHR ''-''"
  "is_digit c \<Longrightarrow> c \<noteq> CHR ''+''" "is_digit c \<Longrightarrow> c \<noteq> CHR ''_''"
  by (auto simp: is_digit_def)

lemma digit_notin_nat_str:
  "\<not> is_digit c \<Longrightarrow> c \<notin> set (nat_str n)"
  using nat_str_digits [of n] by (auto simp: list_all_iff)

lemma hd_nat_str [simp]: "is_digit (hd (nat_str n))"
  using nat_str_digits [of n] nat_str_not_Nil [of n] by (cases "nat_str n") auto

lemma Atoi_nat_str [simp]: "int n < 2 ^ 63 \<Longrightarrow> Atoi (nat_str n) = Some (int n)"
proof -
  assume n: "int n < 2 ^ 63"
  obtain c cs where s: "nat_str n = c # cs" by (cases "nat_str n") auto
  then have "is_digit c" using hd_nat_str [of n] by simp
  then show ?thesis
    using n is_digit_not [of c] s parse_digits_nat_str [of n]
    by (simp add: Atoi_def range_check_def in_int64_def)
qed

lemma Atoi_Itoa [simp]: "in_int64 i \<Longrightarrow> Atoi (Itoa i) = Some i"
proof (cases "i < 0")
  case True
  assume "in_int64 i"
  with True show ?thesis by (simp add: Itoa_def Atoi_def range_check_def)
next
  case False
  assume "in_int64 i"
  with False show ?thesis by (simp add: Itoa_def in_int64_def)
qed

lemma append_sep_inject:
  "x \<notin> set a \<Longrightarrow> x \<notin> set b \<Longrightarrow> a @ x # c = b @ x # d \<longleftrightarrow> a = b \<and> c = d"
  by (auto simp: append_eq_append_conv2 append_eq_Cons_conv Cons_eq_append_conv)

lemma Itoa_chars: "c \<in> set (Itoa i) \<Longrightarrow> c = CHR ''-'' \<or> is_digit c"
  using nat_str_digits by (auto simp: Itoa_def list_all_iff split: if_splits)

lemma Itoa_no_e [simp]: "CHR ''e'' \<notin> set (Itoa i)"
  using Itoa_chars [of "CHR ''e''" i] by (auto simp: is_digit_def)

lemma Itoa_no_underscore [simp]: "CHR ''_'' \<notin> set (Itoa i)"
  using Itoa_chars [of "CHR ''_''" i] by (auto simp: is_digit_def)

lemma Itoa_inject [simp]: "Itoa i = Itoa j \<longleftrightarrow> i = j"
proof
  assume e: "Itoa i = Itoa j"
  have "hd (Itoa i) = CHR ''-'' \<longleftrightarrow> i < 0" for i
    using hd_nat_str [of "nat i"] is_digit_not(3) by (auto simp: Itoa_def)
  with e have s: "i < 0 \<longleftrightarrow> j < 0" by metis
  with e show "i = j" by (auto simp: Itoa_def split: if_splits)
qed simp

lemma Atoi_in_int64: "Atoi s = Some i \<Longrightarrow> in_int64 i"
  by (auto simp: Atoi_def range_check_def split: list.splits if_splits bind_splits)

lemma Atoi_digits:
  "list_all is_digit s \<Longrightarrow> Atoi s = Some i \<Longrightarrow> 0 \<le> i \<and> i < 2 ^ 63 \<and> i = int (digits_val s)"
  by (auto simp: Atoi_def range_check_def in_int64_def parse_digits_def is_digit_not
      split: list.splits if_splits)

section \<open>Hexadecimal\<close>

definition hex_char :: "nat \<Rightarrow> char" where
  "hex_char d = ''0123456789abcdef'' ! d"

definition hex_val :: "char \<Rightarrow> nat option" where
  "hex_val c = (let n = (of_char c :: nat) in
     if 48 \<le> n \<and> n \<le> 57 then Some (n - 48)
     else if 97 \<le> n \<and> n \<le> 102 then Some (n - 87)
     else if 65 \<le> n \<and> n \<le> 70 then Some (n - 55) else None)"

text \<open>\<open>hex.EncodeToString\<close> and \<open>hex.DecodeString\<close> (\<open>None\<close> for its error).\<close>

definition hex_encode :: "byte list \<Rightarrow> string" where
  "hex_encode bs = concat (map (\<lambda>b. [hex_char (unat b div 16), hex_char (unat b mod 16)]) bs)"

fun hex_decode :: "string \<Rightarrow> byte list option" where
  "hex_decode [] = Some []"
| "hex_decode [c] = None"
| "hex_decode (c # d # s) =
     (case (hex_val c, hex_val d, hex_decode s) of
        (Some h, Some l, Some bs) \<Rightarrow> Some (of_nat (16 * h + l) # bs)
      | _ \<Rightarrow> None)"

lemma hex_val_hex_char [simp]: "d < 16 \<Longrightarrow> hex_val (hex_char d) = Some d"
proof -
  assume "d < 16"
  then have "d \<in> set [0, 1, 2, 3, 4, 5, 6, 7, 8, 9, 10, 11, 12, 13, 14, 15]"
    by (simp, presburger)
  then show ?thesis by (auto simp: hex_val_def hex_char_def)
qed

lemma hex_decode_encode [simp]: "hex_decode (hex_encode bs) = Some bs"
proof (induction bs)
  case Nil
  show ?case by (simp add: hex_encode_def)
next
  case (Cons b bs)
  have "unat b < 256" using unsigned_less [of b, where ?'a = nat] by simp
  then have d: "unat b div 16 < 16" "unat b mod 16 < 16" by simp_all
  have "(of_nat (16 * (unat b div 16) + unat b mod 16) :: byte) = b" by simp
  with Cons d show ?case by (simp add: hex_encode_def)
qed

lemma hex_encode_inject [simp]: "hex_encode a = hex_encode b \<longleftrightarrow> a = b"
  by (metis hex_decode_encode option.inject)

lemma length_hex_encode [simp]: "length (hex_encode bs) = 2 * length bs"
  by (induction bs) (simp_all add: hex_encode_def)

lemma hex_decode_length: "hex_decode s = Some bs \<Longrightarrow> length s = 2 * length bs"
  by (induction s arbitrary: bs rule: hex_decode.induct) (auto split: option.splits)

section \<open>Self-delimiting codecs\<close>

text \<open>
  The interface of every wire format of the program: an encoder whose output a decoder
  recognises in front of any further input. Two encodings are then never confused, and a
  stream of encoded values is read back value by value.
\<close>

fun read_all :: "('b list \<Rightarrow> ('m \<times> 'b list) option) \<Rightarrow> nat \<Rightarrow> 'b list \<Rightarrow> ('m list \<times> 'b list) option" where
  "read_all dec 0 bs = Some ([], bs)"
| "read_all dec (Suc n) bs =
     (case dec bs of
        None \<Rightarrow> None
      | Some (m, rest) \<Rightarrow> (case read_all dec n rest of None \<Rightarrow> None | Some (ms, r) \<Rightarrow> Some (m # ms, r)))"

locale self_delimiting =
  fixes ok :: "'m \<Rightarrow> bool"
    and enc :: "'m \<Rightarrow> 'b list"
    and dec :: "'b list \<Rightarrow> ('m \<times> 'b list) option"
  assumes dec_enc: "ok m \<Longrightarrow> dec (enc m @ rest) = Some (m, rest)"
begin

lemma enc_unique: "ok m \<Longrightarrow> ok m' \<Longrightarrow> enc m @ r = enc m' @ r' \<Longrightarrow> m = m' \<and> r = r'"
  by (metis dec_enc option.inject prod.inject)

lemma enc_inject: "ok m \<Longrightarrow> ok m' \<Longrightarrow> enc m = enc m' \<longleftrightarrow> m = m'"
  using enc_unique [of m m' "[]" "[]"] by (metis append_Nil2)

lemma read_all_stream:
  "list_all ok ms \<Longrightarrow> read_all dec (length ms) (concat (map enc ms) @ rest) = Some (ms, rest)"
  by (induction ms) (simp_all add: dec_enc)

end

text \<open>Records of a fixed size, one after the other, as in the compact lists of peers and nodes.\<close>

fun chunks :: "nat \<Rightarrow> 'b list \<Rightarrow> 'b list list" where
  "chunks n bs = (if n = 0 \<or> length bs < n then [] else take n bs # chunks n (drop n bs))"

declare chunks.simps [simp del]

lemma chunks_short: "length bs < n \<Longrightarrow> chunks n bs = []"
  by (subst chunks.simps) simp

lemma chunks_append: "0 < n \<Longrightarrow> length b = n \<Longrightarrow> chunks n (b @ bs) = b # chunks n bs"
  by (subst chunks.simps) simp

lemma chunks_length: "0 < n \<Longrightarrow> c \<in> set (chunks n bs) \<Longrightarrow> length c = n"
proof (induction n bs rule: chunks.induct)
  case (1 n bs)
  then show ?case by (subst (asm) (2) chunks.simps) (auto split: if_splits)
qed

lemma length_chunks: "0 < n \<Longrightarrow> length (chunks n bs) = length bs div n"
proof (induction n bs rule: chunks.induct)
  case (1 n bs)
  then show ?case
    by (subst chunks.simps) (auto simp: le_div_geq not_less)
qed

locale fixed_size =
  fixes n :: nat
    and ok :: "'m \<Rightarrow> bool"
    and enc :: "'m \<Rightarrow> 'b list"
    and dec :: "'b list \<Rightarrow> 'm"
  assumes n_pos: "0 < n"
    and enc_length: "ok m \<Longrightarrow> length (enc m) = n"
    and dec_enc_chunk: "ok m \<Longrightarrow> dec (enc m) = m"
begin

lemma dec_chunks:
  "list_all ok ms \<Longrightarrow> length rest < n \<Longrightarrow> map dec (chunks n (concat (map enc ms) @ rest)) = ms"
  by (induction ms) (auto simp: chunks_short chunks_append n_pos enc_length dec_enc_chunk)

end

sublocale fixed_size \<subseteq> one: self_delimiting ok enc
    "\<lambda>bs. if length bs < n then None else Some (dec (take n bs), drop n bs)"
  by unfold_locales (auto simp: enc_length dec_enc_chunk)

end
