(* ===== verification/Go_Maps.thy ===== *)
theory Go_Maps
  imports Go_Prelude
begin

text \<open>
  Go maps, iteration, sorting and step systems. A Go map is an association list with one
  entry per key; the place of an entry in the list carries no meaning, because Go fixes no
  iteration order: an operation that ranges over a map takes the order as an argument.
  Two interfaces are stated as locales: the contract of \<open>sort.Slice\<close> and the
  reachable states of a component under its operations.
\<close>

section \<open>Maps\<close>

type_synonym ('k, 'v) gomap = "('k \<times> 'v) list"

fun map_put :: "'k \<Rightarrow> 'v \<Rightarrow> ('k, 'v) gomap \<Rightarrow> ('k, 'v) gomap" where
  "map_put k v [] = [(k, v)]"
| "map_put k v ((k', v') # m) = (if k = k' then (k, v) # m else (k', v') # map_put k v m)"

definition map_get :: "('k, 'v) gomap \<Rightarrow> 'k \<Rightarrow> 'v option" where
  "map_get m k = map_of m k"

definition map_del :: "'k \<Rightarrow> ('k, 'v) gomap \<Rightarrow> ('k, 'v) gomap" where
  "map_del k m = filter (\<lambda>e. fst e \<noteq> k) m"

definition map_ok :: "('k, 'v) gomap \<Rightarrow> bool" where
  "map_ok m \<longleftrightarrow> distinct (map fst m)"

lemma map_get_Nil [simp]: "map_get [] k = None"
  by (simp add: map_get_def)

lemma map_get_Cons [simp]: "map_get ((k', v) # m) k = (if k = k' then Some v else map_get m k)"
  by (simp add: map_get_def)

lemma map_get_put [simp]: "map_get (map_put k v m) k' = (if k' = k then Some v else map_get m k')"
  by (induction m) auto

lemma map_get_del [simp]: "map_get (map_del k m) k' = (if k' = k then None else map_get m k')"
  by (induction m) (auto simp: map_del_def)

lemma map_ok_Nil [simp]: "map_ok []"
  by (simp add: map_ok_def)

lemma fst_map_put: "fst ` set (map_put k v m) = insert k (fst ` set m)"
  by (induction k v m rule: map_put.induct) auto

lemma map_ok_put [simp]: "map_ok m \<Longrightarrow> map_ok (map_put k v m)"
proof (induction m)
  case (Cons e m)
  obtain k' v' where e: "e = (k', v')" by force
  show ?case
    using Cons fst_map_put [of k v m] by (auto simp: e map_ok_def)
qed (simp add: map_ok_def)

lemma map_ok_del [simp]: "map_ok m \<Longrightarrow> map_ok (map_del k m)"
  by (simp add: map_ok_def map_del_def distinct_map_filter)

lemma map_get_in: "map_get m k = Some v \<Longrightarrow> (k, v) \<in> set m"
  by (simp add: map_get_def map_of_SomeD)

lemma map_get_None_iff: "map_get m k = None \<longleftrightarrow> k \<notin> fst ` set m"
  by (simp add: map_get_def map_of_eq_None_iff)

lemma map_get_iff: "map_ok m \<Longrightarrow> map_get m k = Some v \<longleftrightarrow> (k, v) \<in> set m"
  by (simp add: map_get_def map_ok_def)

lemma map_put_new: "map_get m k = None \<Longrightarrow> map_put k v m = m @ [(k, v)]"
  by (induction m) (auto split: if_splits)

lemma length_map_put: "length (map_put k v m) = length m + (if map_get m k = None then 1 else 0)"
  by (induction m) (auto split: if_splits)

lemma length_map_del: "length (map_del k m) \<le> length m"
  by (simp add: map_del_def)

lemma set_map_put: "set (map_put k v m) \<subseteq> insert (k, v) (set m)"
  by (induction k v m rule: map_put.induct) auto

lemma map_put_split:
  "map_get m k = Some v \<Longrightarrow>
     \<exists>xs ys. m = xs @ (k, v) # ys \<and> (\<forall>w. map_put k w m = xs @ (k, w) # ys)"
proof (induction m)
  case (Cons e m)
  obtain k' v' where e: "e = (k', v')" by force
  show ?case
  proof (cases "k = k'")
    case True
    with Cons.prems e show ?thesis by (intro exI [of _ "[]"] exI [of _ m]) auto
  next
    case False
    with Cons.prems e have "map_get m k = Some v" by simp
    with Cons.IH obtain xs ys where "m = xs @ (k, v) # ys" "\<forall>w. map_put k w m = xs @ (k, w) # ys"
      by blast
    with False e show ?thesis by (intro exI [of _ "(k', v') # xs"] exI [of _ ys]) auto
  qed
qed simp

lemma mset_map_del:
  "map_ok m \<Longrightarrow> map_get m k = Some v \<Longrightarrow> mset m = add_mset (k, v) (mset (map_del k m))"
proof (induction m)
  case (Cons e m)
  obtain k' v' where e: "e = (k', v')" by force
  have d: "k \<notin> fst ` set m \<Longrightarrow> map_del k m = m"
    by (auto simp: map_del_def filter_id_conv)
  show ?case
  proof (cases "k = k'")
    case True
    with Cons.prems e have "k \<notin> fst ` set m" by (simp add: map_ok_def)
    with d have "map_del k (e # m) = m" by (simp add: e True map_del_def)
    with Cons.prems e True show ?thesis by simp
  next
    case False
    with Cons e show ?thesis by (auto simp: map_ok_def map_del_def)
  qed
qed simp

text \<open>One traversal of a map: any enumeration of its entries.\<close>

definition range_order :: "('k, 'v) gomap \<Rightarrow> ('k \<times> 'v) list \<Rightarrow> bool" where
  "range_order m es \<longleftrightarrow> mset es = mset m"

lemma range_order_refl [simp]: "range_order m m"
  by (simp add: range_order_def)

lemma range_order_set: "range_order m es \<Longrightarrow> set es = set m"
  unfolding range_order_def by (rule mset_eq_setD)

section \<open>Sorting\<close>

text \<open>
  What \<open>sort.Slice(xs, less)\<close> documents: a permutation of the slice in which no element
  is less than one before it. The order of elements that \<open>less\<close> does not separate
  is not specified (the sort is not stable), so callers may use this much and no more.
\<close>

locale sort_slice =
  fixes lt :: "'a \<Rightarrow> 'a \<Rightarrow> bool"
    and srt :: "'a list \<Rightarrow> 'a list"
  assumes srt_mset: "mset (srt xs) = mset xs"
    and srt_ordered: "sorted_wrt (\<lambda>x y. \<not> lt y x) (srt xs)"
begin

lemma srt_set: "set (srt xs) = set xs"
  using srt_mset by (rule mset_eq_setD)

lemma srt_length: "length (srt xs) = length xs"
  using srt_mset by (rule mset_eq_length)

lemma srt_distinct: "distinct (srt xs) \<longleftrightarrow> distinct xs"
  using srt_mset by (rule mset_eq_imp_distinct_iff)

text \<open>No element outside the first \<open>n\<close> is less than one of the first \<open>n\<close>.\<close>

lemma srt_take_least:
  assumes "x \<in> set (take n (srt xs))" and "y \<in> set (drop n (srt xs))"
  shows "\<not> lt y x"
proof -
  have "sorted_wrt (\<lambda>x y. \<not> lt y x) (take n (srt xs) @ drop n (srt xs))"
    using srt_ordered by simp
  then show ?thesis using assms by (auto simp only: sorted_wrt_append)
qed

lemma srt_first_least:
  assumes "srt xs = x # ys" and "y \<in> set xs" and "\<not> lt x x"
  shows "\<not> lt y x"
proof -
  have "y \<in> set (x # ys)" using srt_set [of xs] assms(1,2) by simp
  then show ?thesis using srt_ordered [of xs] assms(1,3) by auto
qed

end

text \<open>
  Insertion sort, which is what \<open>sort.Slice\<close> runs on slices of up to twelve elements,
  meets the contract for every strict weak order.
\<close>

fun insert_by :: "('a \<Rightarrow> 'a \<Rightarrow> bool) \<Rightarrow> 'a \<Rightarrow> 'a list \<Rightarrow> 'a list" where
  "insert_by lt x [] = [x]"
| "insert_by lt x (y # ys) = (if lt y x then y # insert_by lt x ys else x # y # ys)"

definition isort_by :: "('a \<Rightarrow> 'a \<Rightarrow> bool) \<Rightarrow> 'a list \<Rightarrow> 'a list" where
  "isort_by lt xs = foldr (insert_by lt) xs []"

locale weak_order =
  fixes lt :: "'a \<Rightarrow> 'a \<Rightarrow> bool"
  assumes asym: "lt x y \<Longrightarrow> \<not> lt y x"
    and incomp_trans: "\<not> lt y x \<Longrightarrow> \<not> lt z y \<Longrightarrow> \<not> lt z x"
begin

lemma mset_insert_by: "mset (insert_by lt x ys) = add_mset x (mset ys)"
  by (induction ys) auto

lemma set_insert_by: "set (insert_by lt x ys) = insert x (set ys)"
  by (induction ys) auto

lemma sorted_insert_by:
  "sorted_wrt (\<lambda>x y. \<not> lt y x) ys \<Longrightarrow> sorted_wrt (\<lambda>x y. \<not> lt y x) (insert_by lt x ys)"
proof (induction ys)
  case (Cons y ys)
  show ?case
  proof (cases "lt y x")
    case True
    with Cons show ?thesis by (auto simp: set_insert_by dest: asym)
  next
    case False
    have "\<not> lt z x" if "z \<in> set ys" for z
      using Cons.prems that False by (intro incomp_trans [of y x z]) auto
    with Cons.prems False show ?thesis by simp
  qed
qed simp

lemma isort_mset: "mset (isort_by lt xs) = mset xs"
  by (induction xs) (auto simp: isort_by_def mset_insert_by)

lemma isort_ordered: "sorted_wrt (\<lambda>x y. \<not> lt y x) (isort_by lt xs)"
  by (induction xs) (auto simp: isort_by_def sorted_insert_by)

end

sublocale weak_order \<subseteq> isort: sort_slice lt "isort_by lt"
  by unfold_locales (rule isort_mset, rule isort_ordered)

section \<open>Components as step systems\<close>

text \<open>
  A component guarded by one mutex runs its operations one after the other in some order.
  The locale names its start state, one step per operation and an invariant that each
  step keeps; every state reached by a sequence of operations then has the invariant.
\<close>

fun run_allowed :: "('op \<Rightarrow> 's \<Rightarrow> 's) \<Rightarrow> ('op \<Rightarrow> 's \<Rightarrow> bool) \<Rightarrow> 'op list \<Rightarrow> 's \<Rightarrow> bool" where
  "run_allowed step allowed [] s = True"
| "run_allowed step allowed (a # ops) s \<longleftrightarrow> allowed a s \<and> run_allowed step allowed ops (step a s)"

lemma run_allowed_True [simp]: "run_allowed step (\<lambda>_ _. True) ops s"
  by (induction ops arbitrary: s) auto

locale component =
  fixes init :: "'s \<Rightarrow> bool"
    and step :: "'op \<Rightarrow> 's \<Rightarrow> 's"
    and allowed :: "'op \<Rightarrow> 's \<Rightarrow> bool"
    and inv :: "'s \<Rightarrow> bool"
  assumes init_inv: "init s \<Longrightarrow> inv s"
    and step_inv: "inv s \<Longrightarrow> allowed a s \<Longrightarrow> inv (step a s)"
begin

lemma run_inv: "inv s \<Longrightarrow> run_allowed step allowed ops s \<Longrightarrow> inv (fold step ops s)"
  by (induction ops arbitrary: s) (auto intro: step_inv)

lemma reachable_inv: "init s \<Longrightarrow> run_allowed step allowed ops s \<Longrightarrow> inv (fold step ops s)"
  by (rule run_inv [OF init_inv])

end

text \<open>
  Actions that are possible in some states only: a run of a list of actions, and the steps
  that some action makes.
\<close>

fun run_steps :: "('a \<Rightarrow> 's \<Rightarrow> 's option) \<Rightarrow> 'a list \<Rightarrow> 's \<Rightarrow> 's option" where
  "run_steps act [] s = Some s"
| "run_steps act (a # as) s = Option.bind (act a s) (run_steps act as)"

definition some_step :: "('a \<Rightarrow> 's \<Rightarrow> 's option) \<Rightarrow> 's \<Rightarrow> 's \<Rightarrow> bool" where
  "some_step act s s' \<longleftrightarrow> (\<exists>a. act a s = Some s')"

lemma run_steps_some_step: "run_steps act as s = Some s' \<Longrightarrow> (some_step act)\<^sup>*\<^sup>* s s'"
proof (induction "as" arbitrary: s)
  case (Cons a "as")
  then obtain s1 where "act a s = Some s1" "(some_step act)\<^sup>*\<^sup>* s1 s'" by (auto simp: bind_eq_Some_conv)
  then show ?case by (meson converse_rtranclp_into_rtranclp some_step_def)
qed simp

text \<open>
  One step system refines another: every step of the first is, on the part of the state that
  the second has, a run of the second.
\<close>

locale simulation =
  fixes cstep :: "'s \<Rightarrow> 's \<Rightarrow> bool"
    and astep :: "'t \<Rightarrow> 't \<Rightarrow> bool"
    and part :: "'s \<Rightarrow> 't"
  assumes step_sim: "cstep s s' \<Longrightarrow> astep\<^sup>*\<^sup>* (part s) (part s')"
begin

lemma run_sim: "cstep\<^sup>*\<^sup>* s s' \<Longrightarrow> astep\<^sup>*\<^sup>* (part s) (part s')"
  by (induction rule: rtranclp_induct) (auto dest: step_sim)

end

end
