(* ===== verification/Picker.thy ===== *)
theory Picker
  imports Go_Codec Go_Maps
begin

text \<open>
  The piece picker, \<^verbatim>\<open>src/download/picker.go\<close>: which blocks of the torrent are unrequested,
  pending or completed, which pieces each peer has, and the choice of the next block
  (rarest first, with an end-game mode). Every method holds the picker's mutex for its
  whole body, so a concurrent run is a sequence of whole operations, which
  \<open>picker_step\<close> enumerates. The clock (\<open>time.Now()\<close>) and \<open>sort.Slice\<close> are
  arguments. Times are nanoseconds.
\<close>

section \<open>The model\<close>

datatype BlockState = BlockUnrequested | BlockPending | BlockCompleted

record Block =
  blk_index :: int
  blk_begin :: int
  blk_length :: int
  blk_state :: BlockState
  blk_peer :: string
  blk_sent :: int

record pieceState =
  pc_index :: int
  pc_length :: int
  pc_blocks :: "Block list"
  pc_completed :: bool

record PiecePicker =
  pieces :: "pieceState list"
  peerPieces :: "(string, bool list) gomap"
  availability :: "int list"
  totalBlocks :: int
  pendingCount :: int
  completed :: int
  endGame :: bool

text \<open>
  \<open>NewPiecePicker\<close>. The lengths come from the torrent and are not checked: a zero piece
  length divides by zero and a negative count makes \<open>make\<close> panic.
\<close>

definition blockSize :: int where
  "blockSize = 16384"

definition new_block :: "int \<Rightarrow> int \<Rightarrow> nat \<Rightarrow> Block" where
  "new_block i pieceLen b =
     (let begin = wrap64 (int b * blockSize) in
      \<lparr>blk_index = i, blk_begin = begin,
       blk_length = (if wrap64 (begin + blockSize) > pieceLen then wrap64 (pieceLen - begin) else blockSize),
       blk_state = BlockUnrequested, blk_peer = [], blk_sent = 0\<rparr>)"

definition new_piece :: "int \<Rightarrow> int \<Rightarrow> int \<Rightarrow> nat \<Rightarrow> ('e, pieceState) outcome" where
  "new_piece totalLength normalPieceLength totalPieces i =
     (let pieceLen = (if int i = totalPieces - 1
                      then wrap64 (totalLength - wrap64 (int i * normalPieceLength))
                      else normalPieceLength) in
      go_bind (go_div (wrap64 (wrap64 (pieceLen + blockSize) - 1)) blockSize) (\<lambda>numBlocks.
        if numBlocks < 0 then Panic Makeslice_len
        else Ret \<lparr>pc_index = int i, pc_length = pieceLen,
                  pc_blocks = map (new_block (int i) pieceLen) [0..<nat numBlocks],
                  pc_completed = False\<rparr>))"

definition NewPiecePicker :: "int \<Rightarrow> int \<Rightarrow> ('e, PiecePicker) outcome" where
  "NewPiecePicker totalLength normalPieceLength =
     go_bind (go_div (wrap64 (wrap64 (totalLength + normalPieceLength) - 1)) normalPieceLength) (\<lambda>totalPieces.
       if totalPieces < 0 then Panic Makeslice_len
       else go_bind (go_mapM (new_piece totalLength normalPieceLength totalPieces) [0..<nat totalPieces])
         (\<lambda>ps. Ret \<lparr>pieces = ps, peerPieces = [], availability = replicate (nat totalPieces) 0,
                    totalBlocks = int (length (concat (map pc_blocks ps))),
                    pendingCount = 0, completed = 0, endGame = False\<rparr>))"

definition RegisterPeer :: "string \<Rightarrow> PiecePicker \<Rightarrow> PiecePicker" where
  "RegisterPeer peerAddr p =
     p\<lparr>peerPieces := map_put peerAddr (replicate (length (pieces p)) False) (peerPieces p)\<rparr>"

text \<open>
  The loop over all blocks that \<open>UnregisterPeer\<close> and \<open>GetStalledRequests\<close> share: a pending
  block of an incomplete piece that \<open>sel\<close> selects becomes unrequested again.
\<close>

definition unrequest :: "Block \<Rightarrow> Block" where
  "unrequest b = b\<lparr>blk_state := BlockUnrequested, blk_peer := []\<rparr>"

definition reclaimed :: "(Block \<Rightarrow> bool) \<Rightarrow> pieceState \<Rightarrow> Block list" where
  "reclaimed sel pc = (if pc_completed pc then []
     else filter (\<lambda>b. blk_state b = BlockPending \<and> sel b) (pc_blocks pc))"

definition reclaim_piece :: "(Block \<Rightarrow> bool) \<Rightarrow> pieceState \<Rightarrow> pieceState" where
  "reclaim_piece sel pc = (if pc_completed pc then pc
     else pc\<lparr>pc_blocks := map (\<lambda>b. if blk_state b = BlockPending \<and> sel b then unrequest b else b)
                           (pc_blocks pc)\<rparr>)"

definition reclaim :: "(Block \<Rightarrow> bool) \<Rightarrow> PiecePicker \<Rightarrow> PiecePicker" where
  "reclaim sel p =
     p\<lparr>pieces := map (reclaim_piece sel) (pieces p),
       pendingCount := pendingCount p - int (length (concat (map (reclaimed sel) (pieces p))))\<rparr>"

definition UnregisterPeer :: "string \<Rightarrow> PiecePicker \<Rightarrow> PiecePicker" where
  "UnregisterPeer peerAddr p =
     reclaim (\<lambda>b. blk_peer b = peerAddr)
       (case map_get (peerPieces p) peerAddr of
          Some bitmap \<Rightarrow>
            p\<lparr>availability := map2 (\<lambda>a has. if has then a - 1 else a) (availability p) bitmap,
              peerPieces := map_del peerAddr (peerPieces p)\<rparr>
        | None \<Rightarrow> p)"

text \<open>\<open>(bitfield[byteIndex] & (1 << bitIndex)) != 0\<close>, false beyond the end of the bitfield.\<close>

definition bitfield_has :: "byte list \<Rightarrow> nat \<Rightarrow> bool" where
  "bitfield_has bitfield i =
     (let byteIndex = i div 8; bitIndex = 7 - i mod 8 in
      byteIndex < length bitfield \<and> bitfield ! byteIndex AND push_bit bitIndex 1 \<noteq> 0)"

definition UpdatePeerBitfield :: "string \<Rightarrow> byte list \<Rightarrow> PiecePicker \<Rightarrow> PiecePicker" where
  "UpdatePeerBitfield peerAddr bitfield p =
     (case map_get (peerPieces p) peerAddr of
        None \<Rightarrow> p
      | Some bitmap \<Rightarrow>
          (let fresh = map (\<lambda>i. bitfield_has bitfield i \<and> \<not> bitmap ! i) [0..<length bitmap] in
           p\<lparr>peerPieces := map_put peerAddr (map2 (\<or>) bitmap fresh) (peerPieces p),
             availability := map2 (\<lambda>a f. if f then a + 1 else a) (availability p) fresh\<rparr>))"

definition UpdatePeerHave :: "string \<Rightarrow> int \<Rightarrow> PiecePicker \<Rightarrow> PiecePicker" where
  "UpdatePeerHave peerAddr pieceIndex p =
     (case map_get (peerPieces p) peerAddr of
        None \<Rightarrow> p
      | Some bitmap \<Rightarrow>
          if 0 \<le> pieceIndex \<and> pieceIndex < int (length bitmap) then
            (let i = nat pieceIndex in
             if \<not> bitmap ! i then
               p\<lparr>peerPieces := map_put peerAddr (bitmap[i := True]) (peerPieces p),
                 availability := (availability p)[i := availability p ! i + 1]\<rparr>
             else p)
          else p)"

text \<open>\<open>NextBlock\<close>. A candidate is a piece index with its availability.\<close>

type_synonym candidatePiece = "nat \<times> int"

definition rarer :: "candidatePiece \<Rightarrow> candidatePiece \<Rightarrow> bool" where
  "rarer c d \<longleftrightarrow> snd c < snd d"

definition candidates :: "bool list \<Rightarrow> PiecePicker \<Rightarrow> candidatePiece list" where
  "candidates bitmap p =
     [(i, availability p ! i). i \<leftarrow> [0..<length (pieces p)],
        \<not> pc_completed (pieces p ! i) \<and> bitmap ! i]"

definition has_state :: "BlockState \<Rightarrow> PiecePicker \<Rightarrow> nat \<times> nat \<Rightarrow> bool" where
  "has_state st p cb \<longleftrightarrow> blk_state (pc_blocks (pieces p ! fst cb) ! snd cb) = st"

definition slots :: "PiecePicker \<Rightarrow> candidatePiece list \<Rightarrow> (nat \<times> nat) list" where
  "slots p cands = [(c, b). (c, a) \<leftarrow> cands, b \<leftarrow> [0..<length (pc_blocks (pieces p ! c))]]"

definition update_block :: "nat \<times> nat \<Rightarrow> (Block \<Rightarrow> Block) \<Rightarrow> PiecePicker \<Rightarrow> PiecePicker" where
  "update_block cb f p =
     (let pc = pieces p ! fst cb in
      p\<lparr>pieces := (pieces p)[fst cb :=
          pc\<lparr>pc_blocks := (pc_blocks pc)[snd cb := f (pc_blocks pc ! snd cb)]\<rparr>]\<rparr>)"

definition block_at :: "nat \<times> nat \<Rightarrow> PiecePicker \<Rightarrow> Block" where
  "block_at cb p = pc_blocks (pieces p ! fst cb) ! snd cb"

definition NextBlock ::
    "(candidatePiece list \<Rightarrow> candidatePiece list) \<Rightarrow> int \<Rightarrow> string \<Rightarrow> PiecePicker
       \<Rightarrow> Block option \<times> PiecePicker" where
  "NextBlock sort_Slice now peerAddr p =
     (case map_get (peerPieces p) peerAddr of
        None \<Rightarrow> (None, p)
      | Some bitmap \<Rightarrow>
          (let cands = candidates bitmap p;
               hasUnrequested = list_ex (has_state BlockUnrequested p) (slots p cands) in
           if cands = [] then (None, p)
           else
             (let sorted = sort_Slice cands;
                  p = (if \<not> hasUnrequested \<and> completed p < totalBlocks p
                       then p\<lparr>endGame := True\<rparr> else p) in
              if \<not> endGame p then
                (case find (has_state BlockUnrequested p) (slots p sorted) of
                   None \<Rightarrow> (None, p)
                 | Some cb \<Rightarrow>
                     (let p = (update_block cb (\<lambda>b. b\<lparr>blk_state := BlockPending, blk_peer := peerAddr,
                                 blk_sent := now\<rparr>) p)\<lparr>pendingCount := pendingCount p + 1\<rparr> in
                      (Some (block_at cb p), p)))
              else
                (case find (has_state BlockPending p) (slots p sorted) of
                   None \<Rightarrow> (None, p)
                 | Some cb \<Rightarrow>
                     (let p = update_block cb (\<lambda>b. b\<lparr>blk_sent := now\<rparr>) p in
                      (Some (block_at cb p), p))))))"

definition find_begin :: "int \<Rightarrow> pieceState \<Rightarrow> nat option" where
  "find_begin begin pc =
     find (\<lambda>b. blk_begin (pc_blocks pc ! b) = begin) [0..<length (pc_blocks pc)]"

definition MarkCompleted ::
    "int \<Rightarrow> int \<Rightarrow> string \<Rightarrow> PiecePicker \<Rightarrow> (int \<times> bool \<times> bool) \<times> PiecePicker" where
  "MarkCompleted pieceIndex begin peerAddr p =
     (if pieceIndex < 0 \<or> pieceIndex \<ge> int (length (pieces p)) then ((- 1, False, False), p)
      else
        (let c = nat pieceIndex; piece = pieces p ! c in
         if pc_completed piece then ((- 1, False, False), p)
         else (case find_begin begin piece of
             None \<Rightarrow> ((- 1, False, False), p)
           | Some b \<Rightarrow>
               (let found = pc_blocks piece ! b in
                if blk_state found = BlockCompleted then ((- 1, False, False), p)
                else
                  (let p = (if blk_state found = BlockPending
                            then p\<lparr>pendingCount := pendingCount p - 1\<rparr> else p);
                       p = (update_block (c, b) (\<lambda>b. b\<lparr>blk_state := BlockCompleted,
                              blk_peer := peerAddr\<rparr>) p)\<lparr>completed := completed p + 1\<rparr>;
                       piece = pieces p ! c;
                       pieceDone = list_all (\<lambda>b. blk_state b = BlockCompleted) (pc_blocks piece) in
                   if pieceDone
                   then ((pieceIndex, True, completed p = totalBlocks p),
                         p\<lparr>pieces := (pieces p)[c := piece\<lparr>pc_completed := True\<rparr>]\<rparr>)
                   else ((pieceIndex, False, completed p = totalBlocks p), p))))))"

definition MarkFailed :: "int \<Rightarrow> int \<Rightarrow> PiecePicker \<Rightarrow> PiecePicker" where
  "MarkFailed pieceIndex begin p =
     (if pieceIndex < 0 \<or> pieceIndex \<ge> int (length (pieces p)) then p
      else
        (let c = nat pieceIndex; piece = pieces p ! c in
         case find_begin begin piece of
           None \<Rightarrow> p
         | Some b \<Rightarrow>
             (if blk_state (pc_blocks piece ! b) = BlockPending
              then (update_block (c, b) unrequest p)\<lparr>pendingCount := pendingCount p - 1\<rparr>
              else p)))"

definition GetStalledRequests :: "int \<Rightarrow> int \<Rightarrow> PiecePicker \<Rightarrow> Block list \<times> PiecePicker" where
  "GetStalledRequests now timeout p =
     (let stale = (\<lambda>b. now - blk_sent b > timeout) in
      (concat (map (reclaimed stale) (pieces p)), reclaim stale p))"

definition IsCompleted :: "PiecePicker \<Rightarrow> bool" where
  "IsCompleted p \<longleftrightarrow> completed p = totalBlocks p"

text \<open>The operations as steps; what they return is dropped.\<close>

datatype picker_op =
    Op_RegisterPeer string | Op_UnregisterPeer string
  | Op_UpdatePeerBitfield string "byte list" | Op_UpdatePeerHave string int
  | Op_NextBlock int string
  | Op_MarkCompleted int int string | Op_MarkFailed int int
  | Op_GetStalledRequests int int

fun picker_step ::
    "(candidatePiece list \<Rightarrow> candidatePiece list) \<Rightarrow> picker_op \<Rightarrow> PiecePicker \<Rightarrow> PiecePicker" where
  "picker_step srt (Op_RegisterPeer a) p = RegisterPeer a p"
| "picker_step srt (Op_UnregisterPeer a) p = UnregisterPeer a p"
| "picker_step srt (Op_UpdatePeerBitfield a bf) p = UpdatePeerBitfield a bf p"
| "picker_step srt (Op_UpdatePeerHave a i) p = UpdatePeerHave a i p"
| "picker_step srt (Op_NextBlock now a) p = snd (NextBlock srt now a p)"
| "picker_step srt (Op_MarkCompleted i b a) p = snd (MarkCompleted i b a p)"
| "picker_step srt (Op_MarkFailed i b) p = MarkFailed i b p"
| "picker_step srt (Op_GetStalledRequests now t) p = snd (GetStalledRequests now t p)"

end
