(* ===== verification/Picker_Inv.thy ===== *)
theory Picker_Inv
  imports Picker
begin

text \<open>
  The invariant of the piece picker and its preservation by every operation: the counters
  agree with the states of the blocks, a piece is marked completed exactly when all its
  blocks are, and the availability of a piece is the number of registered peers that have it.
\<close>

section \<open>The invariant\<close>

definition blk_cnt :: "BlockState \<Rightarrow> pieceState \<Rightarrow> int" where
  "blk_cnt st pc = (\<Sum>b\<leftarrow>pc_blocks pc. of_bool (blk_state b = st))"

definition cnt :: "BlockState \<Rightarrow> PiecePicker \<Rightarrow> int" where
  "cnt st p = (\<Sum>pc\<leftarrow>pieces p. blk_cnt st pc)"

definition piece_ok :: "nat \<Rightarrow> pieceState \<Rightarrow> bool" where
  "piece_ok i pc \<longleftrightarrow> pc_index pc = int i \<and> pc_blocks pc \<noteq> [] \<and>
     list_all (\<lambda>b. blk_index b = int i) (pc_blocks pc) \<and> distinct (map blk_begin (pc_blocks pc)) \<and>
     (pc_completed pc \<longleftrightarrow> list_all (\<lambda>b. blk_state b = BlockCompleted) (pc_blocks pc))"

definition blocks_inv :: "PiecePicker \<Rightarrow> bool" where
  "blocks_inv p \<longleftrightarrow> (\<forall>i<length (pieces p). piece_ok i (pieces p ! i)) \<and>
     totalBlocks p = (\<Sum>pc\<leftarrow>pieces p. int (length (pc_blocks pc))) \<and>
     completed p = cnt BlockCompleted p \<and> pendingCount p = cnt BlockPending p"

text \<open>
  A peer that is registered a second time starts with an empty bitmap, but the pieces it
  had are still counted: the availability is then too high. \<open>avail_inv True\<close> is the exact
  count, \<open>avail_inv False\<close> what is left of it after such a registration.
\<close>

definition peers_with :: "nat \<Rightarrow> (string, bool list) gomap \<Rightarrow> int" where
  "peers_with i m = (\<Sum>e\<leftarrow>m. of_bool (snd e ! i))"

definition avail_inv :: "bool \<Rightarrow> PiecePicker \<Rightarrow> bool" where
  "avail_inv x p \<longleftrightarrow> map_ok (peerPieces p) \<and> length (availability p) = length (pieces p) \<and>
     (\<forall>e\<in>set (peerPieces p). length (snd e) = length (pieces p)) \<and>
     (\<forall>i<length (pieces p). peers_with i (peerPieces p) \<le> availability p ! i \<and>
       (x \<longrightarrow> availability p ! i = peers_with i (peerPieces p)))"

definition picker_ok :: "bool \<Rightarrow> PiecePicker \<Rightarrow> bool" where
  "picker_ok x p \<longleftrightarrow> blocks_inv p \<and> avail_inv x p"

abbreviation picker_inv :: "PiecePicker \<Rightarrow> bool" where
  "picker_inv \<equiv> picker_ok False"

definition slot_ok :: "PiecePicker \<Rightarrow> nat \<times> nat \<Rightarrow> bool" where
  "slot_ok p cb \<longleftrightarrow> fst cb < length (pieces p) \<and> snd cb < length (pc_blocks (pieces p ! fst cb))"

text \<open>What the operations never change: the pieces' and blocks' positions and sizes.\<close>

definition geom :: "pieceState \<Rightarrow> int \<times> int \<times> (int \<times> int \<times> int) list" where
  "geom pc = (pc_index pc, pc_length pc,
     map (\<lambda>b. (blk_index b, blk_begin b, blk_length b)) (pc_blocks pc))"

definition keeps_place :: "(Block \<Rightarrow> Block) \<Rightarrow> bool" where
  "keeps_place f \<longleftrightarrow> (\<forall>b. blk_index (f b) = blk_index b \<and> blk_begin (f b) = blk_begin b
     \<and> blk_length (f b) = blk_length b)"

section \<open>Updating one block\<close>

lemma update_block_frame [simp]:
  "peerPieces (update_block cb f p) = peerPieces p" "availability (update_block cb f p) = availability p"
  "totalBlocks (update_block cb f p) = totalBlocks p" "completed (update_block cb f p) = completed p"
  "pendingCount (update_block cb f p) = pendingCount p" "endGame (update_block cb f p) = endGame p"
  "length (pieces (update_block cb f p)) = length (pieces p)"
  by (simp_all add: update_block_def Let_def)

lemma block_at_update:
  assumes "slot_ok p cb" and "slot_ok p cb'"
  shows "block_at cb' (update_block cb f p) = (if cb' = cb then f (block_at cb p) else block_at cb' p)"
  using assms by (auto simp: block_at_def update_block_def slot_ok_def Let_def nth_list_update prod_eq_iff)

lemma slot_ok_update [simp]: "slot_ok (update_block cb f p) cb' \<longleftrightarrow> slot_ok p cb'"
  by (cases "fst cb < length (pieces p)")
    (auto simp: slot_ok_def update_block_def Let_def nth_list_update list_update_beyond)

lemma pieces_update_nth:
  "slot_ok p cb \<Longrightarrow> pieces (update_block cb f p) ! i =
     (if i = fst cb then (pieces p ! i)\<lparr>pc_blocks := (pc_blocks (pieces p ! i))[snd cb := f (block_at cb p)]\<rparr>
      else pieces p ! i)"
  by (simp add: update_block_def block_at_def slot_ok_def Let_def nth_list_update)

lemma cnt_update_block:
  assumes "slot_ok p cb"
  shows "cnt st (update_block cb f p) = cnt st p - of_bool (blk_state (block_at cb p) = st)
           + of_bool (blk_state (f (block_at cb p)) = st)"
  using assms
  by (simp add: cnt_def update_block_def slot_ok_def block_at_def Let_def sum_list_map_update blk_cnt_def)

lemma size_update_block:
  assumes "slot_ok p cb"
  shows "(\<Sum>pc\<leftarrow>pieces (update_block cb f p). int (length (pc_blocks pc)))
           = (\<Sum>pc\<leftarrow>pieces p. int (length (pc_blocks pc)))"
  using assms by (simp add: update_block_def slot_ok_def Let_def sum_list_map_update)

lemma geom_update_block:
  assumes "keeps_place f" and "slot_ok p cb"
  shows "map geom (pieces (update_block cb f p)) = map geom (pieces p)"
  using assms
  by (auto simp: update_block_def slot_ok_def Let_def geom_def keeps_place_def intro!: map_update_same)

text \<open>
  A change of one block that keeps its place and does not touch the completed state keeps
  the invariant, if the pending counter follows.
\<close>

lemma map_begin_update:
  "keeps_place f \<Longrightarrow> b < length bs \<Longrightarrow> map blk_begin (bs[b := f (bs ! b)]) = map blk_begin bs"
  by (simp add: keeps_place_def map_update_same)

lemma update_block_inv:
  assumes inv: "blocks_inv p" and slot: "slot_ok p cb" and f: "keeps_place f"
    and st: "blk_state (f (block_at cb p)) = BlockCompleted \<longleftrightarrow> blk_state (block_at cb p) = BlockCompleted"
    and n: "n = pendingCount p - of_bool (blk_state (block_at cb p) = BlockPending)
                + of_bool (blk_state (f (block_at cb p)) = BlockPending)"
  shows "blocks_inv ((update_block cb f p)\<lparr>pendingCount := n\<rparr>)"
proof -
  have "piece_ok i (pieces (update_block cb f p) ! i)" if "i < length (pieces p)" for i
  proof -
    have ok: "piece_ok i (pieces p ! i)" using inv that by (simp add: blocks_inv_def)
    show ?thesis
    proof (cases "i = fst cb")
      case True
      let ?bs = "pc_blocks (pieces p ! i)" and ?b = "snd cb"
      have b: "?b < length ?bs" and a: "block_at cb p = ?bs ! ?b"
        using slot True by (auto simp: slot_ok_def block_at_def)
      have "(\<forall>x\<in>set (?bs[?b := f (?bs ! ?b)]). blk_state x = BlockCompleted) \<longleftrightarrow>
            (\<forall>x\<in>set ?bs. blk_state x = BlockCompleted)"
        using st b a by (auto simp: all_set_conv_all_nth nth_list_update)
      moreover have "\<forall>x\<in>set (?bs[?b := f (?bs ! ?b)]). blk_index x = int i"
        using ok b f
        by (auto simp: piece_ok_def list_all_iff keeps_place_def dest: set_update_subset_insert [THEN subsetD])
      ultimately show ?thesis
        using ok b f slot True a
        by (simp add: pieces_update_nth piece_ok_def map_begin_update list_all_iff)
    next
      case False
      then show ?thesis using ok slot by (simp add: pieces_update_nth)
    qed
  qed
  moreover have "cnt BlockCompleted (update_block cb f p) = cnt BlockCompleted p"
    using st by (simp add: cnt_update_block [OF slot])
  moreover have "n = cnt BlockPending (update_block cb f p)"
    using n inv by (simp add: cnt_update_block [OF slot] blocks_inv_def)
  ultimately show ?thesis
    using inv size_update_block [OF slot, of f] by (simp add: blocks_inv_def cnt_def)
qed


section \<open>Each operation keeps the invariant\<close>

lemma keeps_place_simps [simp]:
  "keeps_place unrequest" "keeps_place (\<lambda>b. b\<lparr>blk_sent := t\<rparr>)"
  "keeps_place (\<lambda>b. b\<lparr>blk_state := st, blk_peer := a, blk_sent := t\<rparr>)"
  "keeps_place (\<lambda>b. b\<lparr>blk_state := st, blk_peer := a\<rparr>)"
  by (simp_all add: keeps_place_def unrequest_def)

lemma blocks_inv_frame [simp]:
  "blocks_inv (p\<lparr>peerPieces := m\<rparr>) = blocks_inv p" "blocks_inv (p\<lparr>availability := av\<rparr>) = blocks_inv p"
  "blocks_inv (p\<lparr>endGame := e\<rparr>) = blocks_inv p"
  by (simp_all add: blocks_inv_def cnt_def)

lemma avail_inv_frame [simp]:
  "avail_inv x (p\<lparr>pendingCount := n\<rparr>) = avail_inv x p" "avail_inv x (p\<lparr>completed := n\<rparr>) = avail_inv x p"
  "avail_inv x (p\<lparr>endGame := e\<rparr>) = avail_inv x p"
  by (simp_all add: avail_inv_def)

lemma avail_inv_pieces: "length ps = length (pieces p) \<Longrightarrow> avail_inv x (p\<lparr>pieces := ps\<rparr>) = avail_inv x p"
  by (simp add: avail_inv_def)

lemma avail_inv_update [simp]: "avail_inv x (update_block cb f p) = avail_inv x p"
  by (simp add: avail_inv_def)

lemma find_begin_slot:
  assumes "find_begin begin (pieces p ! nat i) = Some b" and "0 \<le> i" and "i < int (length (pieces p))"
  shows "slot_ok p (nat i, b)" and "blk_begin (block_at (nat i, b) p) = begin"
  using assms by (auto simp: find_begin_def find_Some_iff slot_ok_def block_at_def)

lemma MarkFailed_inv [picker_intros]: "picker_ok x p \<Longrightarrow> picker_ok x (MarkFailed i begin p)"
proof -
  assume p: "picker_ok x p"
  show ?thesis
  proof (cases "MarkFailed i begin p = p")
    case False
    then obtain b where i: "0 \<le> i" "i < int (length (pieces p))"
      and b: "find_begin begin (pieces p ! nat i) = Some b"
      and st: "blk_state (block_at (nat i, b) p) = BlockPending"
      and m: "MarkFailed i begin p = (update_block (nat i, b) unrequest p)\<lparr>pendingCount := pendingCount p - 1\<rparr>"
      by (auto simp: MarkFailed_def Let_def block_at_def split: if_splits option.splits)
    have "blocks_inv (MarkFailed i begin p)"
      unfolding m using p find_begin_slot(1) [OF b i] st
      by (intro update_block_inv) (simp_all add: picker_ok_def unrequest_def)
    then show ?thesis using p by (simp add: picker_ok_def m)
  qed (use p in simp)
qed

lemma reclaim_cnt:
  "(\<Sum>b\<leftarrow>map (\<lambda>b. if blk_state b = BlockPending \<and> sel b then unrequest b else b) bs. of_bool (blk_state b = BlockPending))
     = (\<Sum>b\<leftarrow>bs. of_bool (blk_state b = BlockPending)) - int (length (filter (\<lambda>b. blk_state b = BlockPending \<and> sel b) bs))"
  "(\<Sum>b\<leftarrow>map (\<lambda>b. if blk_state b = BlockPending \<and> sel b then unrequest b else b) bs. of_bool (blk_state b = BlockCompleted))
     = (\<Sum>b\<leftarrow>bs. (of_bool (blk_state b = BlockCompleted) :: int))"
  by (induction bs) (auto simp: unrequest_def)

lemma reclaim_piece_cnt:
  "blk_cnt BlockPending (reclaim_piece sel pc) = blk_cnt BlockPending pc - int (length (reclaimed sel pc))"
  "blk_cnt BlockCompleted (reclaim_piece sel pc) = blk_cnt BlockCompleted pc"
  using reclaim_cnt [of sel "pc_blocks pc"] by (simp_all add: blk_cnt_def reclaim_piece_def reclaimed_def)

lemma reclaim_piece_ok: "piece_ok i pc \<Longrightarrow> piece_ok i (reclaim_piece sel pc)"
proof -
  define g where "g = (\<lambda>b. if blk_state b = BlockPending \<and> sel b then unrequest b else b)"
  have "blk_state (g b) = BlockCompleted \<longleftrightarrow> blk_state b = BlockCompleted"
    "blk_index (g b) = blk_index b" "blk_begin (g b) = blk_begin b" for b
    by (simp_all add: g_def unrequest_def)
  then show "piece_ok i pc \<Longrightarrow> ?thesis"
    by (auto simp: piece_ok_def reclaim_piece_def g_def [symmetric] list_all_iff o_def)
qed

lemma reclaim_blocks_inv: "blocks_inv p \<Longrightarrow> blocks_inv (reclaim sel p)"
proof -
  assume p: "blocks_inv p"
  have "(\<Sum>pc\<leftarrow>ps. blk_cnt BlockPending (reclaim_piece sel pc)) =
      (\<Sum>pc\<leftarrow>ps. blk_cnt BlockPending pc) - int (length (concat (map (reclaimed sel) ps)))" for ps
    by (induction ps) (simp_all add: reclaim_piece_cnt)
  moreover have "int (length (pc_blocks (reclaim_piece sel pc))) = int (length (pc_blocks pc))" for pc
    by (simp add: reclaim_piece_def)
  ultimately show ?thesis
    using p by (simp add: blocks_inv_def reclaim_def cnt_def o_def reclaim_piece_cnt reclaim_piece_ok)
qed

lemma reclaim_avail_inv [simp]: "avail_inv x (reclaim sel p) = avail_inv x p"
  by (simp add: avail_inv_def reclaim_def)

lemma GetStalledRequests_inv [picker_intros]: "picker_ok x p \<Longrightarrow> picker_ok x (snd (GetStalledRequests now t p))"
  by (simp add: GetStalledRequests_def Let_def picker_ok_def reclaim_blocks_inv)

lemma peers_with_del:
  "map_ok m \<Longrightarrow> map_get m a = Some bm \<Longrightarrow> peers_with i (map_del a m) = peers_with i m - of_bool (bm ! i)"
  using sum_list_mset_cong [OF mset_map_del [THEN trans, OF _ _ mset.simps(2) [symmetric]], of m a bm "\<lambda>e. of_bool (snd e ! i)"]
  by (simp add: peers_with_def)

lemma peers_with_put_new:
  "map_get m a = None \<Longrightarrow> peers_with i (map_put a bm m) = peers_with i m + of_bool (bm ! i)"
  by (simp add: peers_with_def map_put_new)

lemma peers_with_put_old:
  assumes "map_get m a = Some old"
  shows "peers_with i (map_put a bm m) = peers_with i m - of_bool (old ! i) + of_bool (bm ! i)"
proof -
  obtain xs ys where "m = xs @ (a, old) # ys" "map_put a bm m = xs @ (a, bm) # ys"
    using map_put_split [OF assms] by blast
  then show ?thesis by (simp add: peers_with_def)
qed

lemma UnregisterPeer_inv [picker_intros]: "picker_ok x p \<Longrightarrow> picker_ok x (UnregisterPeer a p)"
proof (cases "map_get (peerPieces p) a")
  case None
  then show "picker_ok x p \<Longrightarrow> ?thesis" by (simp add: UnregisterPeer_def picker_ok_def reclaim_blocks_inv)
next
  case (Some bm)
  assume p: "picker_ok x p"
  then have l: "length bm = length (pieces p)"
    using map_get_in [OF Some] by (auto simp: picker_ok_def avail_inv_def)
  let ?q = "p\<lparr>availability := map2 (\<lambda>a has. if has then a - 1 else a) (availability p) bm,
              peerPieces := map_del a (peerPieces p)\<rparr>"
  have "length (snd e) = length (pieces p)" if "e \<in> set (map_del a (peerPieces p))" for e
    using p that by (simp add: picker_ok_def avail_inv_def map_del_def)
  then have "avail_inv x ?q"
    using p l Some by (force simp: picker_ok_def avail_inv_def peers_with_del)
  then show ?thesis
    using p Some by (simp add: UnregisterPeer_def picker_ok_def reclaim_blocks_inv)
qed

lemma RegisterPeer_inv [picker_intros]:
  assumes "picker_ok x p" and "x \<Longrightarrow> map_get (peerPieces p) a = None"
  shows "picker_ok x (RegisterPeer a p)"
proof -
  let ?new = "replicate (length (pieces p)) False"
  have e: "length (snd e) = length (pieces p)" if "e \<in> set (map_put a ?new (peerPieces p))" for e
    using assms that set_map_put [of a ?new "peerPieces p"] by (auto simp: picker_ok_def avail_inv_def)
  have "peers_with i (map_put a ?new (peerPieces p)) \<le> peers_with i (peerPieces p)" if "i < length (pieces p)" for i
    using that peers_with_put_new [of "peerPieces p" a i ?new] peers_with_put_old [of "peerPieces p" a _ i ?new]
    by (cases "map_get (peerPieces p) a") auto
  moreover have "x \<Longrightarrow> i < length (pieces p) \<Longrightarrow> peers_with i (map_put a ?new (peerPieces p)) = peers_with i (peerPieces p)" for i
    using assms(2) peers_with_put_new [of "peerPieces p" a i ?new] by simp
  ultimately show ?thesis
    using assms(1) e by (fastforce simp: RegisterPeer_def picker_ok_def avail_inv_def)
qed

lemma avail_inv_put:
  assumes "avail_inv x p" and "map_get (peerPieces p) a = Some old"
    and "length new = length (pieces p)" and "length av = length (pieces p)"
    and "\<And>i. i < length (pieces p) \<Longrightarrow> av ! i = availability p ! i - of_bool (old ! i) + of_bool (new ! i)"
  shows "avail_inv x (p\<lparr>peerPieces := map_put a new (peerPieces p), availability := av\<rparr>)"
proof -
  have "length (snd e) = length (pieces p)" if "e \<in> set (map_put a new (peerPieces p))" for e
  proof -
    obtain xs ys where "peerPieces p = xs @ (a, old) # ys" "map_put a new (peerPieces p) = xs @ (a, new) # ys"
      using map_put_split [OF assms(2)] by blast
    then show ?thesis using that assms(1,3) by (auto simp: avail_inv_def)
  qed
  then show ?thesis using assms by (simp add: avail_inv_def peers_with_put_old)
qed

lemma UpdatePeerHave_inv [picker_intros]: "picker_ok x p \<Longrightarrow> picker_ok x (UpdatePeerHave a i p)"
proof (cases "UpdatePeerHave a i p = p")
  case False
  assume p: "picker_ok x p"
  from False obtain bm where bm: "map_get (peerPieces p) a = Some bm" "0 \<le> i" "i < int (length bm)" "\<not> bm ! nat i"
    and u: "UpdatePeerHave a i p = p\<lparr>peerPieces := map_put a (bm[nat i := True]) (peerPieces p),
              availability := (availability p)[nat i := availability p ! nat i + 1]\<rparr>"
    by (auto simp: UpdatePeerHave_def Let_def split: option.splits if_splits)
  have l: "length bm = length (pieces p)" "length (availability p) = length (pieces p)"
    using map_get_in [OF bm(1)] p by (auto simp: picker_ok_def avail_inv_def)
  have "avail_inv x (UpdatePeerHave a i p)"
    unfolding u using p bm l
    by (intro avail_inv_put [of x p a bm]) (auto simp: picker_ok_def nth_list_update)
  then show ?thesis using p by (simp add: picker_ok_def u)
qed simp

lemma UpdatePeerBitfield_inv [picker_intros]: "picker_ok x p \<Longrightarrow> picker_ok x (UpdatePeerBitfield a bf p)"
proof (cases "map_get (peerPieces p) a")
  case (Some bm)
  assume p: "picker_ok x p"
  have l: "length bm = length (pieces p)" "length (availability p) = length (pieces p)"
    using map_get_in [OF Some] p by (auto simp: picker_ok_def avail_inv_def)
  have "avail_inv x (UpdatePeerBitfield a bf p)"
    using p Some l
    by (auto simp: UpdatePeerBitfield_def Let_def picker_ok_def intro!: avail_inv_put [of x p a bm])
  then show ?thesis using p Some by (simp add: picker_ok_def UpdatePeerBitfield_def Let_def)
qed (simp add: UpdatePeerBitfield_def)

section \<open>Choosing a block\<close>

text \<open>The contract of \<open>sort.Slice\<close> at the one place where the picker calls it.\<close>

locale rarest_first = sort_slice rarer srt
  for srt :: "candidatePiece list \<Rightarrow> candidatePiece list"

interpretation rarer_order: weak_order rarer
  by unfold_locales (auto simp: rarer_def)

interpretation isort_rarest: rarest_first "isort_by rarer"
  by (unfold_locales) (rule rarer_order.isort_mset, rule rarer_order.isort_ordered)

definition wanted :: "PiecePicker \<Rightarrow> bool list \<Rightarrow> nat \<Rightarrow> bool" where
  "wanted p bitmap c \<longleftrightarrow> c < length (pieces p) \<and> \<not> pc_completed (pieces p ! c) \<and> bitmap ! c"

lemma set_candidates: "(c, av) \<in> set (candidates bitmap p) \<longleftrightarrow> wanted p bitmap c \<and> av = availability p ! c"
  by (auto simp: candidates_def wanted_def)

lemma fst_candidates: "c \<in> fst ` set (candidates bitmap p) \<longleftrightarrow> wanted p bitmap c"
  by (auto simp: image_iff Bex_def split_paired_Ex set_candidates)

lemma candidates_Nil: "candidates bitmap p = [] \<longleftrightarrow> (\<forall>c. \<not> wanted p bitmap c)"
  using set_candidates [of _ _ bitmap p] by (metis list.set_intros(1) neq_Nil_conv prod.collapse empty_iff empty_set)

lemma set_slots: "cb \<in> set (slots p cands) \<longleftrightarrow>
    fst cb \<in> fst ` set cands \<and> snd cb < length (pc_blocks (pieces p ! fst cb))"
  by (cases cb) (force simp: slots_def)

lemma slots_endGame [simp]: "slots (p\<lparr>endGame := e\<rparr>) cands = slots p cands"
  by (simp add: slots_def)

lemma has_state_endGame [simp]: "has_state st (p\<lparr>endGame := e\<rparr>) = has_state st p"
  by (simp add: has_state_def fun_eq_iff)

lemma has_state_block_at: "has_state st p cb \<longleftrightarrow> blk_state (block_at cb p) = st"
  by (simp add: has_state_def block_at_def)

lemma slots_Cons [simp]:
  "slots p ((c, a) # cands) = map (Pair c) [0..<length (pc_blocks (pieces p ! c))] @ slots p cands"
  "slots p [] = []"
  by (simp_all add: slots_def)

lemma slots_sorted:
  assumes "sorted_wrt (\<lambda>x y. \<not> rarer y x) cands" and "\<forall>(c, a)\<in>set cands. a = availability p ! c"
  shows "sorted_wrt (\<lambda>x y. availability p ! fst x \<le> availability p ! fst y) (slots p cands)"
  using assms
proof (induction cands)
  case (Cons ca cands)
  obtain c a where ca: "ca = (c, a)" by force
  have "sorted_wrt (\<lambda>x y. availability p ! fst x \<le> availability p ! fst y) (map (Pair c) bs)" for bs :: "nat list"
    by (induction bs) auto
  with Cons show ?case by (fastforce simp: ca sorted_wrt_append set_slots rarer_def not_less)
qed simp

text \<open>The two ways of handing out a block.\<close>

definition request :: "int \<Rightarrow> string \<Rightarrow> nat \<times> nat \<Rightarrow> PiecePicker \<Rightarrow> PiecePicker" where
  "request now a cb p =
     (update_block cb (\<lambda>b. b\<lparr>blk_state := BlockPending, blk_peer := a, blk_sent := now\<rparr>) p)
       \<lparr>pendingCount := pendingCount p + 1\<rparr>"

definition touch :: "int \<Rightarrow> nat \<times> nat \<Rightarrow> PiecePicker \<Rightarrow> PiecePicker" where
  "touch now cb p = update_block cb (\<lambda>b. b\<lparr>blk_sent := now\<rparr>) p"

definition unrequested_left :: "PiecePicker \<Rightarrow> bool list \<Rightarrow> bool" where
  "unrequested_left p bitmap \<longleftrightarrow>
     (\<exists>cb. wanted p bitmap (fst cb) \<and> slot_ok p cb \<and> blk_state (block_at cb p) = BlockUnrequested)"

definition enter_endGame :: "PiecePicker \<Rightarrow> bool list \<Rightarrow> PiecePicker" where
  "enter_endGame p bitmap =
     (if \<not> unrequested_left p bitmap \<and> completed p < totalBlocks p then p\<lparr>endGame := True\<rparr> else p)"

lemma hasUnrequested_iff:
  "list_ex (has_state BlockUnrequested p) (slots p (candidates bitmap p)) \<longleftrightarrow> unrequested_left p bitmap"
  by (auto simp: list_ex_iff Bex_def set_slots fst_candidates unrequested_left_def slot_ok_def
      has_state_block_at wanted_def)

context rarest_first
begin

lemma fst_srt: "c \<in> fst ` set (srt (candidates bitmap p)) \<longleftrightarrow> wanted p bitmap c"
  by (simp only: srt_set fst_candidates)

lemma slot_srt:
  "cb \<in> set (slots p (srt (candidates bitmap p))) \<longleftrightarrow> wanted p bitmap (fst cb) \<and> slot_ok p cb"
  by (auto simp: set_slots fst_srt slot_ok_def wanted_def)

text \<open>\<open>NextBlock\<close> without its loops.\<close>

lemma NextBlock_known:
  assumes "map_get (peerPieces p) a = Some bitmap"
  shows "NextBlock srt now a p =
    (if \<forall>c. \<not> wanted p bitmap c then (None, p)
     else
       (let q = enter_endGame p bitmap; found = slots p (srt (candidates bitmap p)) in
        if \<not> endGame q then
          (case find (has_state BlockUnrequested p) found of
             None \<Rightarrow> (None, q)
           | Some cb \<Rightarrow> (Some (block_at cb (request now a cb q)), request now a cb q))
        else
          (case find (has_state BlockPending p) found of
             None \<Rightarrow> (None, q)
           | Some cb \<Rightarrow> (Some (block_at cb (touch now cb q)), touch now cb q))))"
proof (cases "candidates bitmap p = []")
  case True
  then have "\<forall>c. \<not> wanted p bitmap c" by (simp add: candidates_Nil)
  with True assms show ?thesis by (simp add: NextBlock_def)
next
  case False
  then have w: "\<not> (\<forall>c. \<not> wanted p bitmap c)" by (simp add: candidates_Nil)
  show ?thesis
    unfolding if_not_P [OF w] NextBlock_def Let_def request_def touch_def enter_endGame_def
    using False assms by (simp add: hasUnrequested_iff)
qed

text \<open>The block found first is in a piece no rarer piece of which has one of that state.\<close>

lemma find_slot_rarest:
  assumes "find (has_state st p) (slots p (srt (candidates bitmap p))) = Some cb"
  shows "wanted p bitmap (fst cb)" and "slot_ok p cb" and "blk_state (block_at cb p) = st"
    and "\<And>cb'. wanted p bitmap (fst cb') \<Longrightarrow> slot_ok p cb' \<Longrightarrow> blk_state (block_at cb' p) = st
           \<Longrightarrow> availability p ! fst cb \<le> availability p ! fst cb'"
proof -
  have "cb \<in> set (slots p (srt (candidates bitmap p)))" "has_state st p cb"
    using assms by (auto simp: find_Some_iff)
  then show "wanted p bitmap (fst cb)" "slot_ok p cb" "blk_state (block_at cb p) = st"
    by (simp_all add: slot_srt has_state_block_at)
  fix cb' assume cb': "wanted p bitmap (fst cb')" "slot_ok p cb'" "blk_state (block_at cb' p) = st"
  have "sorted_wrt (\<lambda>x y. availability p ! fst x \<le> availability p ! fst y)
      (slots p (srt (candidates bitmap p)))"
    by (rule slots_sorted [OF srt_ordered]) (auto simp: srt_set set_candidates)
  moreover have "cb' \<in> set (slots p (srt (candidates bitmap p)))" "has_state st p cb'"
    using cb' by (simp_all add: slot_srt has_state_block_at)
  ultimately show "availability p ! fst cb \<le> availability p ! fst cb'"
    using find_sorted_wrt [OF assms] by blast
qed

lemma find_slot_None:
  "find (has_state st p) (slots p (srt (candidates bitmap p))) = None \<longleftrightarrow>
     (\<forall>cb. wanted p bitmap (fst cb) \<longrightarrow> slot_ok p cb \<longrightarrow> blk_state (block_at cb p) \<noteq> st)"
  by (auto simp: find_None_iff slot_srt has_state_block_at)

lemma request_inv:
  assumes "picker_ok x p" and "slot_ok p cb" and "blk_state (block_at cb p) = BlockUnrequested"
  shows "picker_ok x (request now a cb p)"
proof -
  have "blocks_inv (request now a cb p)"
    unfolding request_def using assms
    by (intro update_block_inv) (simp_all add: picker_ok_def)
  then show ?thesis using assms(1) by (simp add: picker_ok_def request_def)
qed

lemma touch_inv:
  assumes "picker_ok x p" and "slot_ok p cb"
  shows "picker_ok x (touch now cb p)"
proof -
  have "blocks_inv ((touch now cb p)\<lparr>pendingCount := pendingCount p\<rparr>)"
    unfolding touch_def using assms by (intro update_block_inv) (simp_all add: picker_ok_def)
  moreover have "(touch now cb p)\<lparr>pendingCount := pendingCount p\<rparr> = touch now cb p"
    by (rule PiecePicker.equality) (simp_all add: touch_def)
  ultimately have "blocks_inv (touch now cb p)" by simp
  then show ?thesis using assms(1) by (simp add: picker_ok_def) (simp add: touch_def)
qed

lemma enter_endGame_simps [simp]:
  "picker_ok x (enter_endGame p bitmap) = picker_ok x p" "slot_ok (enter_endGame p bitmap) cb = slot_ok p cb"
  "block_at cb (enter_endGame p bitmap) = block_at cb p" "pieces (enter_endGame p bitmap) = pieces p"
  "peerPieces (enter_endGame p bitmap) = peerPieces p" "completed (enter_endGame p bitmap) = completed p"
  "totalBlocks (enter_endGame p bitmap) = totalBlocks p"
  by (simp_all add: enter_endGame_def picker_ok_def slot_ok_def block_at_def)

lemma enter_endGame_normal: "\<not> endGame (enter_endGame p bitmap) \<Longrightarrow> enter_endGame p bitmap = p"
  by (auto simp: enter_endGame_def split: if_splits)

lemma NextBlock_cases:
  assumes "NextBlock srt now a p = (r, p')"
  obtains (idle) "r = None" "p' = p \<or> (\<exists>bitmap. map_get (peerPieces p) a = Some bitmap \<and> p' = enter_endGame p bitmap)"
  | (fresh) bitmap cb where "map_get (peerPieces p) a = Some bitmap" "\<not> endGame p"
      "find (has_state BlockUnrequested p) (slots p (srt (candidates bitmap p))) = Some cb"
      "r = Some (block_at cb p')" "p' = request now a cb p"
  | (again) bitmap cb where "map_get (peerPieces p) a = Some bitmap" "endGame (enter_endGame p bitmap)"
      "find (has_state BlockPending p) (slots p (srt (candidates bitmap p))) = Some cb"
      "r = Some (block_at cb p')" "p' = touch now cb (enter_endGame p bitmap)"
proof (cases "map_get (peerPieces p) a")
  case None
  then show thesis using assms idle by (simp add: NextBlock_def)
next
  case (Some bitmap)
  let ?found = "slots p (srt (candidates bitmap p))"
  note known = assms [unfolded NextBlock_known [OF Some] Let_def]
  consider (none) "\<forall>c. \<not> wanted p bitmap c"
    | (normal) "\<not> (\<forall>c. \<not> wanted p bitmap c)" "\<not> endGame (enter_endGame p bitmap)"
    | (endgame) "\<not> (\<forall>c. \<not> wanted p bitmap c)" "endGame (enter_endGame p bitmap)" by blast
  then show thesis
  proof cases
    case none
    then show thesis using known by (intro idle) simp_all
  next
    case normal
    note e = enter_endGame_normal [OF normal(2)]
    show thesis
    proof (cases "find (has_state BlockUnrequested p) ?found")
      case None
      then show thesis using known normal Some by (intro idle) (auto simp: e)
    next
      case S: (Some cb)
      then show thesis using known normal by (intro fresh [OF Some _ S]) (auto simp: e)
    qed
  next
    case endgame
    show thesis
    proof (cases "find (has_state BlockPending p) ?found")
      case None
      then show thesis using known endgame Some by (intro idle) (auto simp del: enter_endGame_simps)
    next
      case S: (Some cb)
      then show thesis using known endgame by (intro again [OF Some endgame(2) S]) auto
    qed
  qed
qed

lemma NextBlock_inv: "picker_ok x p \<Longrightarrow> picker_ok x (snd (NextBlock srt now a p))"
proof -
  assume p: "picker_ok x p"
  obtain r p' where n: "NextBlock srt now a p = (r, p')" by force
  from n have "picker_ok x p'"
  proof (cases rule: NextBlock_cases)
    case idle
    with p show ?thesis by auto
  next
    case (fresh bitmap cb)
    with p find_slot_rarest(2,3) [OF fresh(3)] show ?thesis by (simp add: request_inv)
  next
    case (again bitmap cb)
    with p find_slot_rarest(2,3) [OF again(3)] show ?thesis by (simp add: touch_inv)
  qed
  then show ?thesis by (simp add: n)
qed

end

section \<open>Completing a block\<close>

definition open_slot :: "int \<Rightarrow> int \<Rightarrow> PiecePicker \<Rightarrow> nat option" where
  "open_slot i begin p =
     (if i < 0 \<or> i \<ge> int (length (pieces p)) \<or> pc_completed (pieces p ! nat i) then None
      else (case find_begin begin (pieces p ! nat i) of
          None \<Rightarrow> None
        | Some b \<Rightarrow> if blk_state (block_at (nat i, b) p) = BlockCompleted then None else Some b))"

definition finish :: "string \<Rightarrow> nat \<times> nat \<Rightarrow> PiecePicker \<Rightarrow> PiecePicker" where
  "finish a cb p =
     (update_block cb (\<lambda>b. b\<lparr>blk_state := BlockCompleted, blk_peer := a\<rparr>) p)
       \<lparr>pendingCount := pendingCount p - of_bool (blk_state (block_at cb p) = BlockPending),
        completed := completed p + 1\<rparr>"

definition piece_done :: "nat \<Rightarrow> PiecePicker \<Rightarrow> bool" where
  "piece_done c p \<longleftrightarrow> list_all (\<lambda>b. blk_state b = BlockCompleted) (pc_blocks (pieces p ! c))"

definition flag_piece :: "nat \<Rightarrow> PiecePicker \<Rightarrow> PiecePicker" where
  "flag_piece c p = (if piece_done c p
     then p\<lparr>pieces := (pieces p)[c := (pieces p ! c)\<lparr>pc_completed := True\<rparr>]\<rparr> else p)"

lemma MarkCompleted_eq:
  "MarkCompleted i begin a p =
     (case open_slot i begin p of
        None \<Rightarrow> ((- 1, False, False), p)
      | Some b \<Rightarrow>
          (let q = finish a (nat i, b) p in
           ((i, piece_done (nat i) q, completed p + 1 = totalBlocks p), flag_piece (nat i) q)))"
proof -
  have u: "update_block cb f (p\<lparr>pendingCount := n\<rparr>) = (update_block cb f p)\<lparr>pendingCount := n\<rparr>" for cb f n
    by (simp add: update_block_def Let_def)
  have n: "(update_block cb f p)\<lparr>pendingCount := pendingCount p, completed := m\<rparr>
      = (update_block cb f p)\<lparr>completed := m\<rparr>" for cb f m
    by (rule PiecePicker.equality) simp_all
  show ?thesis
    by (auto simp: MarkCompleted_def open_slot_def finish_def piece_done_def flag_piece_def block_at_def
        Let_def u n split: option.splits)
qed

lemma open_slot_Some:
  assumes "open_slot i begin p = Some b"
  shows "0 \<le> i" "i < int (length (pieces p))" "slot_ok p (nat i, b)" "blk_begin (block_at (nat i, b) p) = begin"
    "blk_state (block_at (nat i, b) p) \<noteq> BlockCompleted" "\<not> pc_completed (pieces p ! nat i)"
  using assms find_begin_slot [of "begin" p i b]
  by (auto simp: open_slot_def not_less not_le split: if_splits option.splits)

lemma flag_piece_blocks: "map pc_blocks (pieces (flag_piece c p)) = map pc_blocks (pieces p)"
  by (cases "c < length (pieces p)") (simp_all add: flag_piece_def map_update_same list_update_beyond)

lemma blocks_cong:
  assumes "map pc_blocks (pieces p) = map pc_blocks (pieces q)"
  shows "cnt st p = cnt st q"
    and "(\<Sum>pc\<leftarrow>pieces p. int (length (pc_blocks pc))) = (\<Sum>pc\<leftarrow>pieces q. int (length (pc_blocks pc)))"
  using arg_cong [OF assms, of "\<lambda>bss. \<Sum>bs\<leftarrow>bss. \<Sum>b\<leftarrow>bs. of_bool (blk_state b = st)"]
    arg_cong [OF assms, of "\<lambda>bss. \<Sum>bs\<leftarrow>bss. int (length bs)"]
  by (simp_all add: cnt_def blk_cnt_def o_def)

lemma flag_piece_frame [simp]:
  "length (pieces (flag_piece c p)) = length (pieces p)"
  "totalBlocks (flag_piece c p) = totalBlocks p" "completed (flag_piece c p) = completed p"
  "pendingCount (flag_piece c p) = pendingCount p" "avail_inv x (flag_piece c p) = avail_inv x p"
  "endGame (flag_piece c p) = endGame p" "peerPieces (flag_piece c p) = peerPieces p"
  "availability (flag_piece c p) = availability p"
  by (simp_all add: flag_piece_def avail_inv_pieces)

lemmas flag_piece_cnt [simp] = blocks_cong [OF flag_piece_blocks]

lemma finish_inv:
  assumes inv: "blocks_inv p" and slot: "slot_ok p cb"
    and st: "blk_state (block_at cb p) \<noteq> BlockCompleted"
  shows "blocks_inv (flag_piece (fst cb) (finish a cb p))"
proof -
  let ?f = "\<lambda>b. b\<lparr>blk_state := BlockCompleted, blk_peer := a\<rparr>"
  let ?q = "finish a cb p"
  have ps: "pieces ?q = pieces (update_block cb ?f p)" by (simp add: finish_def)
  have "piece_ok i (pieces (flag_piece (fst cb) ?q) ! i)" if "i < length (pieces p)" for i
  proof -
    have ok: "piece_ok i (pieces p ! i)" using inv that by (simp add: blocks_inv_def)
    show ?thesis
    proof (cases "i = fst cb")
      case True
      let ?bs = "pc_blocks (pieces p ! i)"
      have b: "snd cb < length ?bs" and a: "block_at cb p = ?bs ! snd cb"
        using slot True by (auto simp: slot_ok_def block_at_def)
      have "\<not> pc_completed (pieces p ! i)"
        using ok st b by (auto simp: piece_ok_def a list_all_iff)
      moreover have "list_all (\<lambda>x. blk_index x = int i) (?bs[snd cb := ?f (?bs ! snd cb)])"
        using ok b by (auto simp: piece_ok_def list_all_iff dest: set_update_subset_insert [THEN subsetD])
      moreover have "pieces ?q ! i = (pieces p ! i)\<lparr>pc_blocks := ?bs[snd cb := ?f (?bs ! snd cb)]\<rparr>"
        using slot True a by (simp add: ps pieces_update_nth)
      moreover have "map blk_begin (?bs[snd cb := ?f (?bs ! snd cb)]) = map blk_begin ?bs"
        using b by (simp add: map_update_same)
      ultimately show ?thesis
        using ok that True
        by (simp add: flag_piece_def piece_done_def piece_ok_def ps)
    next
      case False
      then show ?thesis using ok slot by (simp add: ps pieces_update_nth flag_piece_def)
    qed
  qed
  moreover have "cnt BlockCompleted ?q = cnt BlockCompleted p + 1"
    "cnt BlockPending ?q = cnt BlockPending p - of_bool (blk_state (block_at cb p) = BlockPending)"
    using st cnt_update_block [OF slot, of _ ?f] blocks_cong(1) [of ?q "update_block cb ?f p"]
    by (simp_all add: ps)
  moreover have "(\<Sum>pc\<leftarrow>pieces ?q. int (length (pc_blocks pc))) = (\<Sum>pc\<leftarrow>pieces p. int (length (pc_blocks pc)))"
    by (simp add: ps size_update_block [OF slot])
  ultimately show ?thesis
    using inv unfolding blocks_inv_def by (simp add: finish_def)
qed

lemma MarkCompleted_inv [picker_intros]: "picker_ok x p \<Longrightarrow> picker_ok x (snd (MarkCompleted i begin a p))"
proof (cases "open_slot i begin p")
  case (Some b)
  assume p: "picker_ok x p"
  have "blocks_inv (flag_piece (fst (nat i, b)) (finish a (nat i, b) p))"
    using p open_slot_Some [OF Some] by (intro finish_inv) (simp_all add: picker_ok_def)
  moreover have "avail_inv x (finish a (nat i, b) p)" using p by (simp add: finish_def picker_ok_def)
  ultimately show ?thesis by (simp add: MarkCompleted_eq Some Let_def picker_ok_def)
qed (simp add: MarkCompleted_eq)

end
