(* ===== verification/Picker_New.thy ===== *)
theory Picker_New
  imports Picker_Inv
begin

text \<open>
  The start state of the picker: which inputs \<open>NewPiecePicker\<close> accepts, the invariant, and
  that its blocks tile the torrent's data.
\<close>

section \<open>The start state in closed form\<close>

definition piece_len :: "nat \<Rightarrow> nat \<Rightarrow> nat \<Rightarrow> nat" where
  "piece_len L N i = (if Suc i = ceil_div L N then L - i * N else N)"

definition fresh_block :: "nat \<Rightarrow> nat \<Rightarrow> nat \<Rightarrow> Block" where
  "fresh_block i len b =
     \<lparr>blk_index = int i, blk_begin = int (b * 16384), blk_length = int (min 16384 (len - b * 16384)),
      blk_state = BlockUnrequested, blk_peer = [], blk_sent = 0\<rparr>"

definition fresh_piece :: "nat \<Rightarrow> nat \<Rightarrow> nat \<Rightarrow> pieceState" where
  "fresh_piece L N i =
     \<lparr>pc_index = int i, pc_length = int (piece_len L N i),
      pc_blocks = map (fresh_block i (piece_len L N i)) [0..<ceil_div (piece_len L N i) 16384],
      pc_completed = False\<rparr>"

definition fresh_picker :: "nat \<Rightarrow> nat \<Rightarrow> PiecePicker" where
  "fresh_picker L N =
     \<lparr>pieces = map (fresh_piece L N) [0..<ceil_div L N], peerPieces = [],
      availability = replicate (ceil_div L N) 0,
      totalBlocks = int (length (concat (map pc_blocks (map (fresh_piece L N) [0..<ceil_div L N])))),
      pendingCount = 0, completed = 0, endGame = False\<rparr>"

lemma piece_len_bounds:
  assumes "0 < N" and "i < ceil_div L N"
  shows "0 < piece_len L N i" and "piece_len L N i \<le> N" and "i * N + piece_len L N i \<le> L"
proof -
  show "0 < piece_len L N i" "piece_len L N i \<le> N"
    using ceil_div_last [OF assms(1), of i L] assms(1) by (auto simp: piece_len_def)
  show "i * N + piece_len L N i \<le> L"
  proof (cases "Suc i = ceil_div L N")
    case True
    then show ?thesis using ceil_div_lower [OF assms] by (simp add: piece_len_def)
  next
    case False
    then have "Suc i * N < L" using assms by (intro ceil_div_lower) simp_all
    then show ?thesis using False by (simp add: piece_len_def)
  qed
qed

lemma new_block_fresh:
  assumes "b < ceil_div len 16384" and "int len \<le> 2 ^ 62"
  shows "new_block (int i) (int len) b = fresh_block i len b"
proof -
  have l: "b * 16384 < len" using assms(1) by (intro ceil_div_lower) simp_all
  have w: "wrap64 (int b * 16384) = int b * 16384"
    using l assms(2) by (intro wrap64_nonneg) simp_all
  have w2: "wrap64 (int b * 16384 + 16384) = int b * 16384 + 16384"
    using l assms(2) by (intro wrap64_nonneg) simp_all
  have w3: "wrap64 (int len - int b * 16384) = int len - int b * 16384"
    using l assms(2) by (intro wrap64_nonneg) simp_all
  have "int (min 16384 (len - b * 16384)) =
      (if int b * 16384 + 16384 > int len then int len - int b * 16384 else 16384)"
    using l by (auto simp: min_def of_nat_diff)
  then show ?thesis
    by (simp add: new_block_def fresh_block_def blockSize_def w w2 w3 Let_def)
qed

lemma new_piece_fresh:
  assumes "0 < N" and "i < ceil_div L N" and "int L + int N \<le> 2 ^ 63"
  shows "new_piece (int L) (int N) (int (ceil_div L N)) i = (Ret (fresh_piece L N i) :: ('e, _) outcome)"
proof -
  let ?len = "piece_len L N i"
  have b: "?len \<le> N" "i * N + ?len \<le> L" using piece_len_bounds [OF assms(1,2)] by auto
  then have "int ?len \<le> int N" "int ?len \<le> int L" by simp_all
  then have len: "int ?len \<le> 2 ^ 62" using assms(3) by simp
  have iN: "wrap64 (int i * int N) = int i * int N" and d: "wrap64 (int L - int i * int N) = int L - int i * int N"
  proof -
    have "int i * int N \<le> int L" using b(2) by (metis of_nat_mult of_nat_le_iff add_leD1)
    moreover have "0 \<le> int i * int N" "int L < 2 ^ 63" using assms(1,3) by simp_all
    ultimately show "wrap64 (int i * int N) = int i * int N" "wrap64 (int L - int i * int N) = int L - int i * int N"
      using wrap64_nonneg [of "int i * int N"] wrap64_nonneg [of "int L - int i * int N"] by linarith+
  qed
  have pl: "(if int i = int (ceil_div L N) - 1 then wrap64 (int L - wrap64 (int i * int N)) else int N) = int ?len"
  proof (cases "Suc i = ceil_div L N")
    case True
    then have "i * N \<le> L" using b(2) by simp
    with True show ?thesis by (simp add: piece_len_def iN d of_nat_diff)
  next
    case False
    then show ?thesis by (auto simp: piece_len_def)
  qed
  have "go_div (wrap64 (wrap64 (int ?len + int 16384) - 1)) (int 16384) = (Ret (int (ceil_div ?len 16384)) :: ('e, int) outcome)"
    using len by (intro go_ceil_div) simp_all
  moreover have "map (new_block (int i) (int ?len)) [0..<ceil_div ?len 16384]
      = map (fresh_block i ?len) [0..<ceil_div ?len 16384]"
    using len by (intro map_cong refl new_block_fresh) simp_all
  ultimately show ?thesis
    unfolding new_piece_def Let_def pl fresh_piece_def
    by (simp add: blockSize_def del: go_bind_Ret_iff)
qed

lemma NewPiecePicker_fresh:
  assumes "0 < N" and "int L + int N \<le> 2 ^ 63"
  shows "NewPiecePicker (int L) (int N) = Ret (fresh_picker L N)"
proof -
  have "go_mapM (new_piece (int L) (int N) (int (ceil_div L N))) [0..<ceil_div L N]
      = Ret (map (fresh_piece L N) [0..<ceil_div L N])"
    using new_piece_fresh [OF assms(1) _ assms(2)] by (intro go_mapM_Ret) simp
  then show ?thesis
    by (simp add: NewPiecePicker_def go_ceil_div [OF assms] fresh_picker_def)
qed

lemma blk_cnt_fresh: "st \<noteq> BlockUnrequested \<Longrightarrow> blk_cnt st (fresh_piece L N i) = 0"
proof -
  have "(\<Sum>b\<leftarrow>bs. of_bool (blk_state (fresh_block i len b) = st)) = (0 :: int)"
    if "st \<noteq> BlockUnrequested" for bs len
    using that by (induction bs) (auto simp: fresh_block_def)
  then show "st \<noteq> BlockUnrequested \<Longrightarrow> ?thesis" by (simp add: blk_cnt_def fresh_piece_def o_def)
qed

lemma fresh_picker_inv: "0 < N \<Longrightarrow> picker_ok x (fresh_picker L N)"
proof -
  assume N: "0 < N"
  have "piece_ok i (fresh_piece L N i)" if "i < ceil_div L N" for i
    using ceil_div_pos [of 16384 "piece_len L N i"] piece_len_bounds(1) [OF N that]
    by (auto simp: piece_ok_def fresh_piece_def fresh_block_def list_all_iff distinct_map o_def inj_on_def)
  moreover have "cnt st (fresh_picker L N) = 0" if "st \<noteq> BlockUnrequested" for st
    using that by (simp add: cnt_def fresh_picker_def blk_cnt_fresh o_def sum_list_0)
  ultimately have "blocks_inv (fresh_picker L N)"
    unfolding blocks_inv_def by (simp add: fresh_picker_def length_concat_sum o_def)
  then show ?thesis
    by (simp add: picker_ok_def avail_inv_def fresh_picker_def peers_with_def)
qed

section \<open>Tiling\<close>

lemma tiles:
  "concat (map (\<lambda>i. [s + i * w..<s + min (Suc i * w) n]) [0..<m]) = [s..<s + min (m * w) n]"
proof (induction m)
  case (Suc m)
  have "[s..<s + min (m * w) n] @ [s + m * w..<s + min (Suc m * w) n] = [s..<s + min (Suc m * w) n]"
  proof (cases "m * w \<le> n")
    case True
    then have "min (m * w) n = m * w" by simp
    then show ?thesis using True upt_add_eq_append [of s "s + m * w" "min (Suc m * w) n - m * w"] by simp
  next
    case False
    then show ?thesis by simp
  qed
  with Suc show ?case by simp
qed simp

lemma tiles_all: "0 < w \<Longrightarrow> concat (map (\<lambda>i. [s + i * w..<s + min (Suc i * w) n]) [0..<ceil_div n w]) = [s..<s + n]"
  using ceil_div_upper [of w n] by (simp only: tiles min_absorb2)

definition extent :: "int \<Rightarrow> Block \<Rightarrow> nat list" where
  "extent N b = (let off = blk_index b * N + blk_begin b in [nat off..<nat (off + blk_length b)])"

definition all_blocks :: "PiecePicker \<Rightarrow> Block list" where
  "all_blocks p = concat (map pc_blocks (pieces p))"

lemma extent_fresh_block:
  assumes "b < ceil_div len 16384"
  shows "extent (int N) (fresh_block i len b) = [i * N + b * 16384..<i * N + min (Suc b * 16384) len]"
proof -
  have l: "b * 16384 < len" using assms by (intro ceil_div_lower) simp_all
  have "int i * int N + int (b * 16384) = int (i * N + b * 16384)" by simp
  moreover have "int i * int N + int (b * 16384) + int (min 16384 (len - b * 16384)) = int (i * N + min (Suc b * 16384) len)"
    using l by simp
  ultimately show ?thesis
    unfolding extent_def Let_def fresh_block_def by (simp only: Block.simps nat_int)
qed

lemma extents_fresh_piece:
  "concat (map (extent (int N)) (pc_blocks (fresh_piece L N i))) = [i * N..<i * N + piece_len L N i]"
proof -
  have "map (extent (int N)) (pc_blocks (fresh_piece L N i)) =
      map (\<lambda>b. [i * N + b * 16384..<i * N + min (Suc b * 16384) (piece_len L N i)])
        [0..<ceil_div (piece_len L N i) 16384]"
    unfolding fresh_piece_def pieceState.simps map_map o_def
    by (intro map_cong refl extent_fresh_block) simp
  then show ?thesis by (simp only: tiles_all [of 16384])
qed

lemma piece_len_min: "0 < N \<Longrightarrow> i < ceil_div L N \<Longrightarrow> i * N + piece_len L N i = min (Suc i * N) L"
  using ceil_div_last [of N i L] ceil_div_lower [of N "Suc i" L] by (auto simp: piece_len_def min_def)

lemma extents_fresh_picker:
  assumes "0 < N"
  shows "concat (map (extent (int N)) (all_blocks (fresh_picker L N))) = [0..<L]"
proof -
  have "concat (map (extent (int N)) (all_blocks (fresh_picker L N))) =
      concat (map (\<lambda>pc. concat (map (extent (int N)) (pc_blocks pc))) (map (fresh_piece L N) [0..<ceil_div L N]))"
    unfolding all_blocks_def fresh_picker_def PiecePicker.simps by (rule concat_map_concat)
  also have "\<dots> = concat (map (\<lambda>i. [0 + i * N..<0 + min (Suc i * N) L]) [0..<ceil_div L N])"
    unfolding map_map o_def extents_fresh_piece
    by (intro arg_cong [of _ _ concat] map_cong refl) (simp only: piece_len_min [OF assms] set_upt atLeastLessThan_iff add_0)
  also have "\<dots> = [0..<0 + L]" by (rule tiles_all [OF assms])
  finally show ?thesis by simp
qed

end
