(* ===== verification/Picker_Props.thy ===== *)
theory Picker_Props
  imports Picker_New
begin

text \<open>
  What the piece picker promises, over every sequence of its operations: the invariant, the
  tiling of the data, the life of a single block (an abstract machine that every operation
  refines), the choice of the next block, completion, and the starvation that the end-game
  mode causes.
\<close>

section \<open>Runs of the picker\<close>

text \<open>A peer address is registered while it is not in the map; the manager does not check this.\<close>

fun picker_allowed :: "picker_op \<Rightarrow> PiecePicker \<Rightarrow> bool" where
  "picker_allowed (Op_RegisterPeer a) p \<longleftrightarrow> map_get (peerPieces p) a = None"
| "picker_allowed _ p \<longleftrightarrow> True"

context rarest_first
begin

lemma picker_step_inv: "picker_ok x p \<Longrightarrow> (x \<Longrightarrow> picker_allowed op p) \<Longrightarrow> picker_ok x (picker_step srt op p)"
  by (cases op) (auto intro: picker_intros NextBlock_inv)

end

text \<open>The picker as a component, and as one whose peers are registered once each.\<close>

sublocale rarest_first \<subseteq> run: component
    "\<lambda>p. \<exists>L N. 0 < N \<and> p = fresh_picker L N" "picker_step srt" "\<lambda>_ _. True" picker_inv
  by unfold_locales (auto intro: fresh_picker_inv picker_step_inv)

sublocale rarest_first \<subseteq> exact: component
    "\<lambda>p. \<exists>L N. 0 < N \<and> p = fresh_picker L N" "picker_step srt" picker_allowed "picker_ok True"
  by unfold_locales (auto intro: fresh_picker_inv picker_step_inv)

context rarest_first
begin

lemma picker_run_inv: "picker_inv p \<Longrightarrow> picker_inv (fold (picker_step srt) ops p)"
  by (rule run.run_inv) simp_all

lemma picker_run_exact:
  "picker_ok True p \<Longrightarrow> run_allowed (picker_step srt) picker_allowed ops p \<Longrightarrow> picker_ok True (fold (picker_step srt) ops p)"
  by (rule exact.run_inv)

end

section \<open>The life of a block\<close>

inductive block_step :: "picker_op \<Rightarrow> Block \<Rightarrow> Block \<Rightarrow> bool" where
  stay: "block_step op b b"
| request: "blk_state b = BlockUnrequested \<Longrightarrow>
    block_step (Op_NextBlock now a) b (b\<lparr>blk_state := BlockPending, blk_peer := a, blk_sent := now\<rparr>)"
| again: "blk_state b = BlockPending \<Longrightarrow> block_step (Op_NextBlock now a) b (b\<lparr>blk_sent := now\<rparr>)"
| drop_peer: "blk_state b = BlockPending \<Longrightarrow> blk_peer b = a \<Longrightarrow>
    block_step (Op_UnregisterPeer a) b (unrequest b)"
| stall: "blk_state b = BlockPending \<Longrightarrow> now - blk_sent b > t \<Longrightarrow>
    block_step (Op_GetStalledRequests now t) b (unrequest b)"
| fail: "blk_state b = BlockPending \<Longrightarrow> blk_index b = i \<Longrightarrow> blk_begin b = begin \<Longrightarrow>
    block_step (Op_MarkFailed i begin) b (unrequest b)"
| complete: "blk_state b \<noteq> BlockCompleted \<Longrightarrow> blk_index b = i \<Longrightarrow> blk_begin b = begin \<Longrightarrow>
    block_step (Op_MarkCompleted i begin a) b (b\<lparr>blk_state := BlockCompleted, blk_peer := a\<rparr>)"

inductive_simps block_step_register [simp]: "block_step (Op_RegisterPeer a) b b'"
inductive_simps block_step_have [simp]: "block_step (Op_UpdatePeerHave a i) b b'"
inductive_simps block_step_bitfield [simp]: "block_step (Op_UpdatePeerBitfield a bf) b b'"

inductive_cases block_stepE: "block_step op b b'"

lemma pieces_frame [simp]:
  "pieces (RegisterPeer a p) = pieces p" "pieces (UpdatePeerHave a i p) = pieces p"
  "pieces (UpdatePeerBitfield a bf p) = pieces p"
  by (simp_all add: RegisterPeer_def UpdatePeerHave_def UpdatePeerBitfield_def Let_def split: option.splits)

lemma pieces_only: "pieces q = pieces p \<Longrightarrow> block_at cb q = block_at cb p"
  by (simp add: block_at_def)

lemma block_at_frame [simp]:
  "block_at cb (RegisterPeer a p) = block_at cb p" "block_at cb (UpdatePeerHave a i p) = block_at cb p"
  "block_at cb (UpdatePeerBitfield a bf p) = block_at cb p"
  by (simp_all add: block_at_def)

lemma block_at_reclaim:
  assumes "slot_ok p cb"
  shows "block_at cb (reclaim sel p) =
    (if \<not> pc_completed (pieces p ! fst cb) \<and> blk_state (block_at cb p) = BlockPending \<and> sel (block_at cb p)
     then unrequest (block_at cb p) else block_at cb p)"
  using assms by (simp add: block_at_def reclaim_def slot_ok_def reclaim_piece_def)

lemma block_at_flag [simp]:
  "fst cb < length (pieces p) \<Longrightarrow> block_at cb (flag_piece c p) = block_at cb p"
  by (cases "c = fst cb") (simp_all add: block_at_def flag_piece_def)

lemma slot_index:
  "blocks_inv p \<Longrightarrow> slot_ok p cb \<Longrightarrow> blk_index (block_at cb p) = int (fst cb)"
  by (auto simp: blocks_inv_def piece_ok_def slot_ok_def block_at_def list_all_iff)

lemma MarkFailed_block:
  assumes "picker_inv p" and "slot_ok p cb"
  shows "block_step (Op_MarkFailed i begin) (block_at cb p) (block_at cb (MarkFailed i begin p))"
proof (cases "MarkFailed i begin p = p")
  case False
  then obtain b where i: "0 \<le> i" "i < int (length (pieces p))"
    and b: "find_begin begin (pieces p ! nat i) = Some b"
    and st: "blk_state (block_at (nat i, b) p) = BlockPending"
    and m: "MarkFailed i begin p = (update_block (nat i, b) unrequest p)\<lparr>pendingCount := pendingCount p - 1\<rparr>"
    by (auto simp: MarkFailed_def Let_def block_at_def split: if_splits option.splits)
  note s = find_begin_slot [OF b i]
  have "block_at cb (MarkFailed i begin p) = (if cb = (nat i, b) then unrequest (block_at cb p) else block_at cb p)"
    using block_at_update [OF s(1) assms(2), of unrequest] by (simp add: m pieces_only [of "_\<lparr>pendingCount := _\<rparr>"])
  then show ?thesis
    using st s(2) slot_index [of p cb] assms i by (auto simp: picker_ok_def intro: block_step.intros)
qed (simp add: block_step.stay)

lemma MarkCompleted_block:
  assumes "picker_inv p" and "slot_ok p cb"
  shows "block_step (Op_MarkCompleted i begin a) (block_at cb p) (block_at cb (snd (MarkCompleted i begin a p)))"
proof (cases "open_slot i begin p")
  case None
  then show ?thesis by (simp add: MarkCompleted_eq block_step.stay)
next
  case (Some b)
  note s = open_slot_Some [OF Some]
  have "block_at cb (finish a (nat i, b) p) =
      (if cb = (nat i, b) then (block_at cb p)\<lparr>blk_state := BlockCompleted, blk_peer := a\<rparr> else block_at cb p)"
    using block_at_update [OF s(3) assms(2)] unfolding finish_def
    by (simp add: pieces_only [of "_\<lparr>pendingCount := _, completed := _\<rparr>"])
  moreover have "fst cb < length (pieces (finish a (nat i, b) p))"
    using assms(2) by (simp add: finish_def slot_ok_def)
  ultimately show ?thesis
    using s slot_index [of p cb] assms
    by (auto simp: MarkCompleted_eq Some Let_def picker_ok_def intro: block_step.intros)
qed

context rarest_first
begin

lemma block_at_handed_out:
  assumes "slot_ok p cb" and "slot_ok p cb'"
  shows "block_at cb' (request now a cb p) =
      (if cb' = cb then (block_at cb p)\<lparr>blk_state := BlockPending, blk_peer := a, blk_sent := now\<rparr> else block_at cb' p)"
    and "block_at cb' (touch now cb p) = (if cb' = cb then (block_at cb p)\<lparr>blk_sent := now\<rparr> else block_at cb' p)"
  using block_at_update [OF assms]
  by (simp_all add: request_def touch_def pieces_only [of "_\<lparr>pendingCount := _\<rparr>"])

lemma NextBlock_block:
  assumes "slot_ok p cb"
  shows "block_step (Op_NextBlock now a) (block_at cb p) (block_at cb (snd (NextBlock srt now a p)))"
proof -
  obtain r p' where n: "NextBlock srt now a p = (r, p')" by force
  from n have "block_step (Op_NextBlock now a) (block_at cb p) (block_at cb p')"
  proof (cases rule: NextBlock_cases)
    case idle
    then show ?thesis by (auto intro: block_step.stay)
  next
    case (fresh bitmap cb')
    then show ?thesis
      using find_slot_rarest(2,3) [OF fresh(3)] assms by (auto simp: block_at_handed_out intro: block_step.intros)
  next
    case (again bitmap cb')
    then show ?thesis
      using find_slot_rarest(2,3) [OF again(3)] assms by (auto simp: block_at_handed_out intro: block_step.intros)
  qed
  then show ?thesis by (simp add: n)
qed

lemma picker_block_step:
  assumes "picker_inv p" and "slot_ok p cb"
  shows "block_step op (block_at cb p) (block_at cb (picker_step srt op p))"
proof (cases op)
  case (Op_UnregisterPeer a)
  obtain q where q: "UnregisterPeer a p = reclaim (\<lambda>b. blk_peer b = a) q" "pieces q = pieces p"
    by (cases "map_get (peerPieces p) a") (auto simp: UnregisterPeer_def)
  then show ?thesis
    using assms(2) Op_UnregisterPeer block_at_reclaim [of q cb]
    by (auto simp: pieces_only [OF q(2)] slot_ok_def intro: block_step.intros)
next
  case (Op_GetStalledRequests now t)
  then show ?thesis
    using assms(2) by (auto simp: GetStalledRequests_def Let_def block_at_reclaim intro: block_step.intros)
qed (use assms in \<open>simp_all add: MarkFailed_block MarkCompleted_block NextBlock_block\<close>)

end

section \<open>Geometry\<close>

lemma geom_same: "map geom (pieces q) = map geom (pieces p) \<Longrightarrow> length (pieces q) = length (pieces p)"
  by (metis length_map)

lemma geom_reclaim: "map geom (pieces (reclaim sel p)) = map geom (pieces p)"
  by (auto simp: reclaim_def geom_def reclaim_piece_def unrequest_def o_def)

lemma geom_flag: "map geom (pieces (flag_piece c p)) = map geom (pieces p)"
  by (cases "c < length (pieces p)")
    (auto simp: flag_piece_def geom_def list_update_beyond intro!: map_update_same)

lemma geom_MarkFailed: "map geom (pieces (MarkFailed i begin p)) = map geom (pieces p)"
  using find_begin_slot(1) [of "begin" p i]
  by (auto simp: MarkFailed_def Let_def geom_update_block not_less not_le split: option.splits)

lemma geom_MarkCompleted: "map geom (pieces (snd (MarkCompleted i begin a p))) = map geom (pieces p)"
proof (cases "open_slot i begin p")
  case (Some b)
  then show ?thesis
    using open_slot_Some(3) [OF Some]
    by (simp add: MarkCompleted_eq Let_def geom_flag) (simp add: finish_def geom_update_block)
qed (simp add: MarkCompleted_eq)

context rarest_first
begin

lemma geom_NextBlock: "map geom (pieces (snd (NextBlock srt now a p))) = map geom (pieces p)"
proof -
  obtain r p' where n: "NextBlock srt now a p = (r, p')" by force
  from n have "map geom (pieces p') = map geom (pieces p)"
  proof (cases rule: NextBlock_cases)
    case idle
    then show ?thesis by auto
  next
    case (fresh bitmap cb)
    then show ?thesis
      using find_slot_rarest(2) [OF fresh(3)] by (simp add: request_def geom_update_block)
  next
    case (again bitmap cb)
    then show ?thesis
      using find_slot_rarest(2) [OF again(3)] geom_update_block [of _ "enter_endGame p bitmap" cb]
      by (simp add: touch_def)
  qed
  then show ?thesis by (simp add: n)
qed

lemma geom_step: "map geom (pieces (picker_step srt op p)) = map geom (pieces p)"
proof (cases op)
  case (Op_UnregisterPeer a)
  then show ?thesis by (simp add: UnregisterPeer_def geom_reclaim split: option.splits)
qed (simp_all add: geom_NextBlock geom_MarkCompleted geom_MarkFailed geom_reclaim GetStalledRequests_def Let_def)

lemma geom_run: "map geom (pieces (fold (picker_step srt) ops p)) = map geom (pieces p)"
  by (induction ops arbitrary: p) (simp_all add: geom_step)

end

lemma slot_ok_geom: "map geom (pieces q) = map geom (pieces p) \<Longrightarrow> slot_ok q cb \<longleftrightarrow> slot_ok p cb"
proof -
  assume g: "map geom (pieces q) = map geom (pieces p)"
  have l: "length (pieces q) = length (pieces p)" using g by (rule geom_same)
  have "length (pc_blocks (pieces q ! i)) = length (pc_blocks (pieces p ! i))" if "i < length (pieces p)" for i
  proof -
    have "geom (pieces q ! i) = geom (pieces p ! i)" using g l that by (metis nth_map)
    then have "map (\<lambda>b. (blk_index b, blk_begin b, blk_length b)) (pc_blocks (pieces q ! i)) =
        map (\<lambda>b. (blk_index b, blk_begin b, blk_length b)) (pc_blocks (pieces p ! i))"
      by (simp add: geom_def)
    then show ?thesis by (rule map_eq_imp_length_eq)
  qed
  then show ?thesis using l by (auto simp: slot_ok_def)
qed

lemma extents_geom:
  assumes "map geom (pieces q) = map geom (pieces p)"
  shows "map (extent N) (all_blocks q) = map (extent N) (all_blocks p)"
proof -
  define ext where "ext = (\<lambda>(i, b, l). [nat (i * N + b)..<nat (i * N + b + l)])"
  have "map (extent N) (pc_blocks pc) = map ext (snd (snd (geom pc)))" for pc
    by (simp add: geom_def o_def ext_def extent_def Let_def)
  then have "map (extent N) (all_blocks p) = concat (map (\<lambda>g. map ext (snd (snd g))) (map geom (pieces p)))" for p
    by (simp add: all_blocks_def map_concat o_def)
  then show ?thesis by (simp only: assms)
qed

section \<open>Completion\<close>

lemma full_piece: "(\<Sum>b\<leftarrow>bs. of_bool (P b)) = int (length bs) \<longleftrightarrow> list_all P bs"
proof (induction bs)
  case (Cons b bs)
  have "(\<Sum>b\<leftarrow>bs. of_bool (P b)) \<le> int (length bs)"
    using length_filter_sum [of P bs] length_filter_le [of P bs] by linarith
  with Cons show ?case by auto
qed simp

lemma cnt_le: "blk_cnt st pc \<le> int (length (pc_blocks pc))"
  using length_filter_sum [of "\<lambda>b. blk_state b = st" "pc_blocks pc"]
    length_filter_le [of "\<lambda>b. blk_state b = st" "pc_blocks pc"] unfolding blk_cnt_def by linarith

lemma sum_le_eq:
  fixes f g :: "'a \<Rightarrow> int"
  assumes "\<And>x. f x \<le> g x"
  shows "(\<Sum>x\<leftarrow>xs. f x) = (\<Sum>x\<leftarrow>xs. g x) \<longleftrightarrow> (\<forall>x\<in>set xs. f x = g x)"
proof (induction xs)
  case (Cons x xs)
  have "(\<Sum>x\<leftarrow>xs. f x) \<le> (\<Sum>x\<leftarrow>xs. g x)" using assms by (rule sum_list_mono)
  with Cons assms [of x] show ?case by auto
qed simp

definition all_completed :: "PiecePicker \<Rightarrow> bool" where
  "all_completed p \<longleftrightarrow> (\<forall>cb. slot_ok p cb \<longrightarrow> blk_state (block_at cb p) = BlockCompleted)"

lemma all_completed_pieces:
  "all_completed p \<longleftrightarrow> (\<forall>pc\<in>set (pieces p). list_all (\<lambda>b. blk_state b = BlockCompleted) (pc_blocks pc))"
  by (auto simp: all_completed_def slot_ok_def block_at_def list_all_iff all_set_conv_all_nth)

lemma IsCompleted_all: "picker_inv p \<Longrightarrow> IsCompleted p \<longleftrightarrow> all_completed p"
proof -
  assume p: "picker_inv p"
  have "IsCompleted p \<longleftrightarrow> (\<Sum>pc\<leftarrow>pieces p. blk_cnt BlockCompleted pc) = (\<Sum>pc\<leftarrow>pieces p. int (length (pc_blocks pc)))"
    using p by (simp add: IsCompleted_def picker_ok_def blocks_inv_def cnt_def)
  also have "\<dots> \<longleftrightarrow> (\<forall>pc\<in>set (pieces p). blk_cnt BlockCompleted pc = int (length (pc_blocks pc)))"
    by (rule sum_le_eq) (rule cnt_le)
  also have "\<dots> \<longleftrightarrow> all_completed p"
    by (simp add: blk_cnt_def full_piece all_completed_pieces)
  finally show ?thesis .
qed

lemma open_slot_all_completed: "picker_inv p \<Longrightarrow> all_completed p \<Longrightarrow> open_slot i begin p = None"
  by (auto simp: open_slot_def picker_ok_def blocks_inv_def piece_ok_def all_completed_pieces)

context rarest_first
begin

lemma completed_stays:
  assumes "picker_inv p" and "slot_ok p cb" and "blk_state (block_at cb p) = BlockCompleted"
  shows "blk_state (block_at cb (fold (picker_step srt) ops p)) = BlockCompleted"
  using assms
proof (induction ops arbitrary: p)
  case (Cons op ops)
  have "blk_state (block_at cb (picker_step srt op p)) = BlockCompleted"
    using picker_block_step [OF Cons.prems(1,2), of op] Cons.prems(3) by (auto elim: block_stepE)
  moreover have "slot_ok (picker_step srt op p) cb"
    using slot_ok_geom [OF geom_step] Cons.prems(2) by blast
  ultimately show ?case
    using Cons.IH [of "picker_step srt op p"] Cons.prems picker_step_inv by simp
qed simp

lemma all_completed_stays:
  assumes "picker_inv p" and "all_completed p"
  shows "all_completed (fold (picker_step srt) ops p)"
  using assms completed_stays slot_ok_geom [OF geom_run] by (auto simp: all_completed_def)

end

section \<open>End game\<close>

lemma endGame_frame [simp]:
  "endGame (update_block cb f p) = endGame p" "endGame (reclaim sel p) = endGame p"
  "endGame (RegisterPeer a p) = endGame p" "endGame (UpdatePeerHave a i p) = endGame p"
  "endGame (UpdatePeerBitfield a bf p) = endGame p" "endGame (UnregisterPeer a p) = endGame p"
  "endGame (MarkFailed i begin p) = endGame p" "endGame (snd (MarkCompleted i begin a p)) = endGame p"
  by (simp_all add: update_block_def reclaim_def RegisterPeer_def UpdatePeerHave_def UpdatePeerBitfield_def
      UnregisterPeer_def MarkFailed_def MarkCompleted_eq finish_def Let_def split: option.splits)

definition not_completing :: "int \<times> int \<Rightarrow> picker_op \<Rightarrow> bool" where
  "not_completing ib op \<longleftrightarrow> (case op of Op_MarkCompleted i begin a \<Rightarrow> (i, begin) \<noteq> ib | _ \<Rightarrow> True)"

context rarest_first
begin

lemma NextBlock_endGame:
  assumes "endGame p" and "slot_ok p cb" and "blk_state (block_at cb p) = BlockUnrequested"
  shows "endGame (snd (NextBlock srt now a p))" and "block_at cb (snd (NextBlock srt now a p)) = block_at cb p"
proof -
  obtain r p' where n: "NextBlock srt now a p = (r, p')" by force
  from n have "endGame p' \<and> block_at cb p' = block_at cb p"
  proof (cases rule: NextBlock_cases)
    case idle
    then show ?thesis using assms by (auto simp: enter_endGame_def block_at_def)
  next
    case (fresh bitmap cb')
    then show ?thesis using assms by simp
  next
    case (again bitmap cb')
    then show ?thesis
      using find_slot_rarest(2,3) [OF again(3)] assms block_at_handed_out(2) [of _ cb' cb]
      by (auto simp: touch_def)
  qed
  then show "endGame (snd (NextBlock srt now a p))" "block_at cb (snd (NextBlock srt now a p)) = block_at cb p"
    by (simp_all add: n)
qed

lemma endGame_stays: "endGame p \<Longrightarrow> endGame (picker_step srt op p)"
proof (cases op)
  case (Op_NextBlock now a)
  assume e: "endGame p"
  obtain r p' where n: "NextBlock srt now a p = (r, p')" by force
  then have "endGame p'" by (cases rule: NextBlock_cases) (use e in \<open>auto simp: enter_endGame_def touch_def\<close>)
  then show ?thesis by (simp add: Op_NextBlock n)
qed (simp_all add: GetStalledRequests_def Let_def)

lemma starved_step:
  assumes "picker_inv p" and "slot_ok p cb" and "endGame p" and "blk_state (block_at cb p) = BlockUnrequested"
    and "not_completing (int (fst cb), blk_begin (block_at cb p)) op"
  shows "block_at cb (picker_step srt op p) = block_at cb p"
proof (cases op)
  case (Op_NextBlock now a)
  then show ?thesis using NextBlock_endGame(2) [OF assms(3,2,4)] by simp
qed (use picker_block_step [OF assms(1,2), of op] slot_index [of p cb] assms in
    \<open>auto simp: picker_ok_def not_completing_def elim!: block_stepE\<close>)

lemma starved_run:
  assumes "picker_inv p" and "slot_ok p cb" and "endGame p" and "blk_state (block_at cb p) = BlockUnrequested"
    and "list_all (not_completing (int (fst cb), blk_begin (block_at cb p))) ops"
  shows "block_at cb (fold (picker_step srt) ops p) = block_at cb p"
  using assms
proof (induction ops arbitrary: p)
  case (Cons op ops)
  have b: "block_at cb (picker_step srt op p) = block_at cb p"
    using Cons.prems by (intro starved_step) simp_all
  moreover have "slot_ok (picker_step srt op p) cb"
    using slot_ok_geom [OF geom_step] Cons.prems(2) by blast
  ultimately show ?case
    using Cons.IH [of "picker_step srt op p"] Cons.prems picker_step_inv [of False p op] endGame_stays [of p op] by simp
qed simp

end

end
