(* ===== verification/Picker_Correct.thy ===== *)
theory Picker_Correct
  imports Picker_Props
begin

text \<open>
  The theorems about the piece picker, stated over the operations of
  \<^verbatim>\<open>src/download/picker.go\<close> and any sort that meets the contract of \<open>sort.Slice\<close>
  (\<open>rarest_first\<close>, which insertion sort meets by \<open>isort_rarest\<close>), each with a
  concrete run of a torrent of three bytes in two pieces.
\<close>

section \<open>A small torrent\<close>

definition demo_block :: "int \<Rightarrow> int \<Rightarrow> Block" where
  "demo_block i len = \<lparr>blk_index = i, blk_begin = 0, blk_length = len, blk_state = BlockUnrequested,
     blk_peer = [], blk_sent = 0\<rparr>"

definition demo_picker :: PiecePicker where
  "demo_picker =
     \<lparr>pieces = [\<lparr>pc_index = 0, pc_length = 2, pc_blocks = [demo_block 0 2], pc_completed = False\<rparr>,
                \<lparr>pc_index = 1, pc_length = 1, pc_blocks = [demo_block 1 1], pc_completed = False\<rparr>],
      peerPieces = [], availability = [0, 0], totalBlocks = 2, pendingCount = 0, completed = 0,
      endGame = False\<rparr>"

lemma demo_fresh: "fresh_picker 3 2 = demo_picker"
proof -
  have c: "ceil_div 3 2 = 2" "ceil_div 2 16384 = 1" "ceil_div (Suc 0) 16384 = 1" by (simp_all add: ceil_div_def)
  have u: "[0..<2] = [0, 1]" "[0..<1] = [0]" "replicate 2 (0 :: int) = [0, 0]"
    by (simp_all add: upt_rec numeral_2_eq_2)
  show ?thesis
    by (simp add: fresh_picker_def demo_picker_def c u fresh_piece_def fresh_block_def piece_len_def demo_block_def)
qed

lemma demo_new: "NewPiecePicker 3 2 = (Ret demo_picker :: (unit, PiecePicker) outcome)"
  using NewPiecePicker_fresh [of 2 3] by (simp add: demo_fresh)

lemma demo_inv: "picker_inv demo_picker"
  using fresh_picker_inv [of 2 False 3] by (simp add: demo_fresh)

abbreviation demo_step :: "picker_op \<Rightarrow> PiecePicker \<Rightarrow> PiecePicker" where
  "demo_step \<equiv> picker_step (isort_by rarer)"

definition demo_two_peers :: "picker_op list" where
  "demo_two_peers = [Op_RegisterPeer ''a'', Op_UpdatePeerHave ''a'' 0, Op_RegisterPeer ''b'',
     Op_UpdatePeerHave ''b'' 0, Op_UpdatePeerHave ''b'' 1]"

definition demo_shared :: PiecePicker where
  "demo_shared = demo_picker\<lparr>peerPieces := [(''a'', [True, False]), (''b'', [True, True])], availability := [2, 1]\<rparr>"

lemma demo_shared_run:
  "run_allowed demo_step picker_allowed demo_two_peers demo_picker" "fold demo_step demo_two_peers demo_picker = demo_shared"
  by code_simp+

lemma demo_shared_inv: "picker_inv demo_shared"
  using isort_rarest.picker_run_inv [OF demo_inv, of demo_two_peers] by (simp only: demo_shared_run(2))

definition demo_requested :: Block where
  "demo_requested = (demo_block 1 1)\<lparr>blk_state := BlockPending, blk_peer := ''b'', blk_sent := 7\<rparr>"

definition demo_next :: PiecePicker where
  "demo_next = (update_block (1, 0) (\<lambda>b. demo_requested) demo_shared)\<lparr>pendingCount := 1\<rparr>"

lemma demo_next_run: "NextBlock (isort_by rarer) 7 ''b'' demo_shared = (Some demo_requested, demo_next)"
  by code_simp


section \<open>Theorems\<close>

text \<open>
  C2. A picker made for a torrent of \<open>L\<close> bytes in pieces of \<open>N\<close> bytes (whose sum fits an
  \<open>int\<close>) is created without a panic, and after every sequence of operations its
  counters agree with the states of the blocks, a piece is marked completed exactly when all
  its blocks are, and the availability of a piece is at least the number of registered peers
  that have it; it is that number if no peer was registered twice.
\<close>
theorem picker_invariant:
  assumes "rarest_first srt" and "0 < N" and "int L + int N \<le> 2 ^ 63"
  shows "\<exists>p. NewPiecePicker (int L) (int N) = (Ret p :: ('e, PiecePicker) outcome) \<and>
    (\<forall>ops. picker_inv (fold (picker_step srt) ops p) \<and>
       (run_allowed (picker_step srt) picker_allowed ops p \<longrightarrow> picker_ok True (fold (picker_step srt) ops p)))"
  using NewPiecePicker_fresh [OF assms(2,3)] rarest_first.picker_run_inv [OF assms(1) fresh_picker_inv [OF assms(2)]]
    rarest_first.picker_run_exact [OF assms(1) fresh_picker_inv [OF assms(2)]]
  by blast

theorem picker_invariant_witness:
  "rarest_first (isort_by rarer) \<and> run_allowed demo_step picker_allowed demo_two_peers demo_picker \<and>
   NewPiecePicker 3 2 = (Ret demo_picker :: (unit, PiecePicker) outcome) \<and>
   picker_ok True (fold demo_step demo_two_peers demo_picker)"
  using picker_invariant [where ?'e = unit, OF isort_rarest.rarest_first_axioms, of 2 3] demo_shared_run(1)
  by (simp add: demo_new isort_rarest.rarest_first_axioms)

text \<open>
  C23. The blocks of the picker, in order, cover every byte of the torrent exactly once, at
  the start and after every sequence of operations.
\<close>
theorem picker_tiles:
  assumes "rarest_first srt" and "0 < N" and "int L + int N \<le> 2 ^ 63"
    and "NewPiecePicker (int L) (int N) = (Ret p :: ('e, PiecePicker) outcome)"
  shows "concat (map (extent (int N)) (all_blocks (fold (picker_step srt) ops p))) = [0..<L]"
proof -
  have "p = fresh_picker L N" using assms(4) unfolding NewPiecePicker_fresh [OF assms(2,3)] by simp
  then show ?thesis
    using extents_geom [OF rarest_first.geom_run [OF assms(1)]] extents_fresh_picker [OF assms(2)] by metis
qed

theorem picker_tiles_witness:
  "NewPiecePicker 3 2 = (Ret demo_picker :: (unit, PiecePicker) outcome) \<and>
   concat (map (extent 2) (all_blocks (fold demo_step demo_two_peers demo_picker))) = [0..<3]"
  using picker_tiles [OF isort_rarest.rarest_first_axioms, of 2 3 demo_picker demo_two_peers] demo_new by simp

text \<open>
  C3. Every operation moves each block along the block's own machine: unrequested to pending
  only by \<open>NextBlock\<close>, pending back to unrequested only when its peer leaves, its request
  is overdue or its download failed, and to completed only by \<open>MarkCompleted\<close> of that very
  block; a completed block never changes again, and no block moves or changes its size.
\<close>
theorem picker_refines_block_machine:
  assumes "rarest_first srt" and "picker_inv p" and "slot_ok p cb"
  shows "block_step op (block_at cb p) (block_at cb (picker_step srt op p))"
  using assms by (rule rarest_first.picker_block_step)

theorem picker_refines_block_machine_witness:
  "picker_inv demo_shared \<and> slot_ok demo_shared (1, 0) \<and>
   block_step (Op_NextBlock 7 ''b'') (demo_block 1 1) ((demo_block 1 1)\<lparr>blk_state := BlockPending, blk_peer := ''b'', blk_sent := 7\<rparr>)"
proof -
  have b: "block_at (1, 0) demo_shared = demo_block 1 1"
    "block_at (1, 0) (demo_step (Op_NextBlock 7 ''b'') demo_shared)
       = (demo_block 1 1)\<lparr>blk_state := BlockPending, blk_peer := ''b'', blk_sent := 7\<rparr>"
    by code_simp+
  have s: "slot_ok demo_shared (1, 0)" by (simp add: slot_ok_def demo_shared_def demo_picker_def)
  show ?thesis
    using picker_refines_block_machine [OF isort_rarest.rarest_first_axioms demo_shared_inv s, of "Op_NextBlock 7 ''b''"]
      demo_shared_inv s by (simp only: b)
qed



text \<open>
  As long as the end game has not begun, a registered peer that has a piece with an
  unrequested block is given such a block, and the call does not start the end game.
\<close>
theorem NextBlock_serves:
  assumes "rarest_first srt" and "map_get (peerPieces p) a = Some bitmap" and "\<not> endGame p"
    and "wanted p bitmap (fst cb)" and "slot_ok p cb" and "blk_state (block_at cb p) = BlockUnrequested"
  shows "\<exists>b p'. NextBlock srt now a p = (Some b, p') \<and> blk_state b = BlockPending \<and> blk_peer b = a \<and> \<not> endGame p'"
proof -
  have "unrequested_left p bitmap" unfolding unrequested_left_def using assms(4-6) by blast
  then have e: "enter_endGame p bitmap = p" by (simp add: enter_endGame_def)
  obtain cb' where f: "find (has_state BlockUnrequested p) (slots p (srt (candidates bitmap p))) = Some cb'"
    using rarest_first.find_slot_None [OF assms(1), of BlockUnrequested p bitmap] assms(4-6) by (metis not_None_eq)
  note s = rarest_first.find_slot_rarest(2) [OF assms(1) f]
  have w: "\<not> (\<forall>c. \<not> wanted p bitmap c)" using assms(4) by blast
  show ?thesis
    unfolding rarest_first.NextBlock_known [OF assms(1,2)] if_not_P [OF w] Let_def e f
    using assms(3) rarest_first.block_at_handed_out(1) [OF assms(1) s s] by (simp add: request_def)
qed

theorem NextBlock_serves_witness:
  "map_get (peerPieces demo_shared) ''b'' = Some [True, True] \<and> wanted demo_shared [True, True] (fst (1, 0)) \<and>
   (\<exists>b p'. NextBlock (isort_by rarer) 7 ''b'' demo_shared = (Some b, p') \<and> blk_state b = BlockPending \<and>
      blk_peer b = ''b'' \<and> \<not> endGame p')"
proof -
  have m: "map_get (peerPieces demo_shared) ''b'' = Some [True, True]"
    and w: "wanted demo_shared [True, True] (fst (1, 0))" and s: "slot_ok demo_shared (1, 0)"
    by (simp_all add: demo_shared_def demo_picker_def wanted_def slot_ok_def)
  show ?thesis
    using NextBlock_serves [OF isort_rarest.rarest_first_axioms m _ w s] m w
    by (simp add: demo_shared_def demo_picker_def block_at_def demo_block_def)
qed

text \<open>
  \<open>IsCompleted\<close> holds exactly when every block is completed; from then on it holds after
  every further operation, and \<open>MarkCompleted\<close> reports no piece and no torrent as done
  again: \<open>torrentDone\<close> is reported at most once.
\<close>
theorem torrent_done_once:
  assumes "rarest_first srt" and "picker_inv p" and "IsCompleted p"
  shows "IsCompleted (fold (picker_step srt) ops p) \<and>
    fst (MarkCompleted i begin a (fold (picker_step srt) ops p)) = (- 1, False, False)"
proof -
  let ?q = "fold (picker_step srt) ops p"
  have "picker_inv ?q" by (rule rarest_first.picker_run_inv [OF assms(1,2)])
  moreover have "all_completed ?q"
    using rarest_first.all_completed_stays [OF assms(1,2)] IsCompleted_all [OF assms(2)] assms(3) by simp
  ultimately show ?thesis
    by (simp_all add: IsCompleted_all MarkCompleted_eq open_slot_all_completed)
qed

theorem torrent_done_once_witness:
  "IsCompleted (fold demo_step [Op_MarkCompleted 0 0 ''a'', Op_MarkCompleted 1 0 ''b''] demo_shared) \<and>
   IsCompleted (fold demo_step [Op_UnregisterPeer ''a'']
     (fold demo_step [Op_MarkCompleted 0 0 ''a'', Op_MarkCompleted 1 0 ''b''] demo_shared))"
proof -
  let ?p = "fold demo_step [Op_MarkCompleted 0 0 ''a'', Op_MarkCompleted 1 0 ''b''] demo_shared"
  have c: "IsCompleted ?p" by code_simp
  have "picker_inv ?p" by (rule isort_rarest.picker_run_inv [OF demo_shared_inv])
  from torrent_done_once [OF isort_rarest.rarest_first_axioms this c, of "[Op_UnregisterPeer ''a'']"] c
  show ?thesis by simp
qed

text \<open>
  C19. The end game starves blocks: once \<open>endGame\<close> is set, an unrequested block is left as it
  is by every operation but a \<open>MarkCompleted\<close> of that block (an unsolicited delivery), so
  no peer is ever asked for it and the torrent does not complete.
\<close>
theorem endGame_starves:
  assumes "rarest_first srt" and "picker_inv p" and "slot_ok p cb" and "endGame p"
    and "blk_state (block_at cb p) = BlockUnrequested"
    and "list_all (not_completing (int (fst cb), blk_begin (block_at cb p))) ops"
  shows "block_at cb (fold (picker_step srt) ops p) = block_at cb p \<and> \<not> IsCompleted (fold (picker_step srt) ops p)"
proof
  show s: "block_at cb (fold (picker_step srt) ops p) = block_at cb p"
    using assms by (rule rarest_first.starved_run)
  have "slot_ok (fold (picker_step srt) ops p) cb"
    using slot_ok_geom [OF rarest_first.geom_run [OF assms(1)]] assms(3) by blast
  then have "\<not> all_completed (fold (picker_step srt) ops p)" unfolding all_completed_def using assms(5) by (metis s BlockState.distinct(3))
  then show "\<not> IsCompleted (fold (picker_step srt) ops p)"
    using IsCompleted_all [OF rarest_first.picker_run_inv [OF assms(1,2)]] by simp
qed

text \<open>
  A run that ends there: peer \<open>a\<close> has only the first piece, asks twice and so starts the end
  game; peer \<open>b\<close>, which has both pieces, is then never asked for the second one.
\<close>

definition demo_endgame :: "picker_op list" where
  "demo_endgame = [Op_NextBlock 1 ''a'', Op_NextBlock 2 ''a'']"

definition demo_after :: "picker_op list" where
  "demo_after = [Op_MarkCompleted 0 0 ''a'', Op_NextBlock 3 ''b'', Op_NextBlock 4 ''b'']"

theorem endGame_starves_witness:
  "endGame (fold demo_step demo_endgame demo_shared) \<and>
   \<not> IsCompleted (fold demo_step demo_after (fold demo_step demo_endgame demo_shared))"
proof -
  let ?p = "fold demo_step demo_endgame demo_shared"
  have e: "endGame ?p" and b: "blk_state (block_at (1, 0) ?p) = BlockUnrequested"
    and s: "length (pieces ?p) = 2" "length (pc_blocks (pieces ?p ! 1)) = 1"
    and n: "list_all (not_completing (int (fst (1, 0)), blk_begin (block_at (1, 0) ?p))) demo_after"
    by code_simp+
  have "picker_inv ?p" by (rule isort_rarest.picker_run_inv [OF demo_shared_inv])
  moreover have "slot_ok ?p (1, 0)" using s by (simp add: slot_ok_def)
  ultimately show ?thesis
    using endGame_starves [OF isort_rarest.rarest_first_axioms _ _ e b n] e by blast
qed

text \<open>
  \<open>GetStalledRequests\<close> returns exactly the pending blocks whose request is older than the
  timeout, makes them unrequested and their owner blank, and takes as many off the count
  of pending blocks; every other block stays as it is.
\<close>
theorem stalled_exact:
  assumes "picker_inv p" and "GetStalledRequests now timeout p = (bs, p')"
  shows "set bs = {b \<in> set (all_blocks p). blk_state b = BlockPending \<and> now - blk_sent b > timeout} \<and>
    pendingCount p' = pendingCount p - int (length bs) \<and>
    all_blocks p' = map (\<lambda>b. if blk_state b = BlockPending \<and> now - blk_sent b > timeout
           then unrequest b else b) (all_blocks p)"
proof -
  let ?sel = "\<lambda>b. now - blk_sent b > timeout"
  have e: "bs = concat (map (reclaimed ?sel) (pieces p))" "p' = reclaim ?sel p"
    using assms(2) by (simp_all add: GetStalledRequests_def Let_def)
  have c: "pc_completed pc \<Longrightarrow> b \<in> set (pc_blocks pc) \<Longrightarrow> blk_state b = BlockCompleted"
    if "pc \<in> set (pieces p)" for pc b
  proof -
    obtain i where "i < length (pieces p)" "pc = pieces p ! i" using \<open>pc \<in> set (pieces p)\<close> by (auto simp: in_set_conv_nth)
    then have "piece_ok i pc" using assms(1) by (simp add: picker_ok_def blocks_inv_def)
    then show "pc_completed pc \<Longrightarrow> b \<in> set (pc_blocks pc) \<Longrightarrow> blk_state b = BlockCompleted"
      by (simp add: piece_ok_def list_all_iff)
  qed
  have "set (reclaimed ?sel pc) = {b \<in> set (pc_blocks pc). blk_state b = BlockPending \<and> ?sel b}"
    if "pc \<in> set (pieces p)" for pc
    using c [OF that] by (auto simp: reclaimed_def)
  then have "set bs = {b \<in> set (all_blocks p). blk_state b = BlockPending \<and> ?sel b}"
    by (auto simp: e all_blocks_def)
  moreover have "pendingCount p' = pendingCount p - int (length bs)" by (simp add: e reclaim_def)
  moreover have "pc_blocks (reclaim_piece ?sel pc) = map (\<lambda>b. if blk_state b = BlockPending \<and> ?sel b then unrequest b else b) (pc_blocks pc)"
    if "pc \<in> set (pieces p)" for pc
    using c [OF that] by (auto simp: reclaim_piece_def map_idI)
  then have "all_blocks p' = map (\<lambda>b. if blk_state b = BlockPending \<and> ?sel b then unrequest b else b) (all_blocks p)"
    by (simp add: e all_blocks_def reclaim_def map_concat o_def cong: map_cong)
  ultimately show ?thesis by blast
qed

theorem stalled_exact_witness:
  "picker_inv demo_next \<and> GetStalledRequests 99 5 demo_next = ([demo_requested], reclaim (\<lambda>b. 99 - blk_sent b > 5) demo_next) \<and>
   pendingCount (reclaim (\<lambda>b. 99 - blk_sent b > 5) demo_next) = pendingCount demo_next - 1"
proof -
  have p: "picker_inv demo_next"
    using isort_rarest.NextBlock_inv [OF demo_shared_inv, of 7 "''b''"] by (simp only: demo_next_run snd_conv)
  have "fst (GetStalledRequests 99 5 demo_next) = [demo_requested]" by code_simp
  then have g: "GetStalledRequests 99 5 demo_next = ([demo_requested], reclaim (\<lambda>b. 99 - blk_sent b > 5) demo_next)"
    by (simp add: GetStalledRequests_def Let_def)
  from stalled_exact [OF p g] show ?thesis using p g by simp
qed

end
