(* ===== verification/Pool.thy ===== *)
theory Pool
  imports Go_Maps
begin

text \<open>
  The pool of known peers, \<^verbatim>\<open>src/peer/pool.go\<close>: which addresses may be dialled, with an
  exponential backoff after failures and a limit of five. Every method holds the pool's
  lock, so a concurrent run is a sequence of whole operations. Times are nanoseconds since
  \<open>time.Time{}\<close>, the zero time; the clock is an argument.
\<close>

section \<open>The model\<close>

record PeerEndpoint =
  Address :: string
  FailCount :: int
  NextRetryTime :: int
  IsSeed :: bool

record PeerEndpointPool =
  endpoints :: "(string, PeerEndpoint) gomap"

definition NewPeerEndpointPool :: PeerEndpointPool where
  "NewPeerEndpointPool = \<lparr>endpoints = []\<rparr>"

definition new_endpoint :: "string \<Rightarrow> PeerEndpoint" where
  "new_endpoint address = \<lparr>Address = address, FailCount = 0, NextRetryTime = 0, IsSeed = False\<rparr>"

definition Add :: "string \<Rightarrow> PeerEndpointPool \<Rightarrow> PeerEndpointPool" where
  "Add address p =
     (case map_get (endpoints p) address of
        None \<Rightarrow> p\<lparr>endpoints := map_put address (new_endpoint address) (endpoints p)\<rparr>
      | Some _ \<Rightarrow> p)"

text \<open>
  \<open>15 * (1 << (failCount - 1))\<close> with its cap. A shift by a negative count panics; a shift by
  64 or more gives 0.
\<close>

definition backoffSec :: "int \<Rightarrow> ('e, int) outcome" where
  "backoffSec failCount =
     (let k = wrap64 (failCount - 1) in
      if k < 0 then Panic Negative_shift
      else
        (let s = wrap64 (15 * wrap64 (2 ^ nat k)) in
         Ret (if s > 600 \<or> s \<le> 0 then 600 else s)))"

definition second :: int where
  "second = 1000000000"

definition MarkFailed :: "int \<Rightarrow> string \<Rightarrow> PeerEndpointPool \<Rightarrow> ('e, PeerEndpointPool) outcome" where
  "MarkFailed now address p =
     (let ep = (case map_get (endpoints p) address of Some ep \<Rightarrow> ep | None \<Rightarrow> new_endpoint address);
          ep = ep\<lparr>FailCount := wrap64 (FailCount ep + 1)\<rparr> in
      go_bind (backoffSec (FailCount ep)) (\<lambda>s.
        Ret (p\<lparr>endpoints := map_put address (ep\<lparr>NextRetryTime := now + s * second\<rparr>) (endpoints p)\<rparr>)))"

definition MarkSucceeded :: "string \<Rightarrow> PeerEndpointPool \<Rightarrow> PeerEndpointPool" where
  "MarkSucceeded address p =
     (case map_get (endpoints p) address of
        None \<Rightarrow> p
      | Some ep \<Rightarrow> p\<lparr>endpoints := map_put address (ep\<lparr>FailCount := 0, NextRetryTime := 0\<rparr>) (endpoints p)\<rparr>)"

definition MarkSeed :: "string \<Rightarrow> bool \<Rightarrow> PeerEndpointPool \<Rightarrow> PeerEndpointPool" where
  "MarkSeed address isSeed p =
     (case map_get (endpoints p) address of
        None \<Rightarrow> p
      | Some ep \<Rightarrow> p\<lparr>endpoints := map_put address (ep\<lparr>IsSeed := isSeed\<rparr>) (endpoints p)\<rparr>)"

text \<open>\<open>GetCandidates\<close> ranges over the map: \<open>es\<close> is the order of this traversal.\<close>

definition eligible :: "int \<Rightarrow> bool \<Rightarrow> PeerEndpoint \<Rightarrow> bool" where
  "eligible now excludeSeeds ep \<longleftrightarrow>
     \<not> FailCount ep \<ge> 5 \<and> \<not> (excludeSeeds \<and> IsSeed ep) \<and> \<not> now < NextRetryTime ep"

definition GetCandidates :: "int \<Rightarrow> bool \<Rightarrow> (string \<times> PeerEndpoint) list \<Rightarrow> string list" where
  "GetCandidates now excludeSeeds es = map Address (filter (eligible now excludeSeeds) (map snd es))"

definition EvictDead :: "PeerEndpointPool \<Rightarrow> PeerEndpointPool" where
  "EvictDead p = p"

definition Size :: "PeerEndpointPool \<Rightarrow> int" where
  "Size p = int (length (endpoints p))"

datatype pool_op =
    Pool_Add string | Pool_MarkFailed int string | Pool_MarkSucceeded string
  | Pool_MarkSeed string bool | Pool_EvictDead

text \<open>A panic ends the process; the step then keeps the state (it is proved not to happen).\<close>

fun pool_step :: "pool_op \<Rightarrow> PeerEndpointPool \<Rightarrow> PeerEndpointPool" where
  "pool_step (Pool_Add a) p = Add a p"
| "pool_step (Pool_MarkFailed now a) p = (case MarkFailed now a p of Ret q \<Rightarrow> q | Err () \<Rightarrow> p | Panic _ \<Rightarrow> p)"
| "pool_step (Pool_MarkSucceeded a) p = MarkSucceeded a p"
| "pool_step (Pool_MarkSeed a s) p = MarkSeed a s p"
| "pool_step Pool_EvictDead p = EvictDead p"

section \<open>The backoff\<close>

lemma backoff_small: "k < 60 \<Longrightarrow> wrap64 (15 * wrap64 (2 ^ k)) = 15 * 2 ^ k"
proof -
  assume k: "k < 60"
  have "(2::int) ^ k \<le> 2 ^ 59" using k by (intro power_increasing) simp_all
  then have b: "(2::int) ^ k < 2 ^ 63" "15 * (2::int) ^ k < 2 ^ 63" by simp_all
  then show ?thesis by (simp add: wrap64_nonneg)
qed

lemma backoff_big: "60 \<le> k \<Longrightarrow> wrap64 (15 * wrap64 (2 ^ k)) \<le> 0"
proof (cases "k < 64")
  case True
  assume "60 \<le> k"
  with True consider "k = 60" | "k = 61" | "k = 62" | "k = 63" by linarith
  then show ?thesis by cases (simp_all add: wrap64_def)
next
  case False
  then have "(2::int) ^ k = 2 ^ 64 * 2 ^ (k - 64)" by (subst power_add [symmetric]) simp
  then have "((2::int) ^ k + 2 ^ 63) mod 2 ^ 64 = 2 ^ 63" by (simp add: mod_add_left_eq [symmetric])
  then have "wrap64 (2 ^ k) = 0" unfolding wrap64_def by simp
  then show ?thesis by (simp add: wrap64_def)
qed

lemma pow_gt_40: "6 \<le> k \<Longrightarrow> 600 < 15 * (2::int) ^ k"
  using power_increasing [of 6 k "2 :: int"] by simp

lemma backoffSec_eq:
  assumes "1 \<le> n" and "int n < 2 ^ 63"
  shows "backoffSec (int n) = Ret (min 600 (15 * 2 ^ (n - 1)))"
proof -
  have w: "wrap64 (int n - 1) = int n - 1" using assms by (intro wrap64_nonneg) simp_all
  have k: "nat (int n - 1) = n - 1" using assms by simp
  have ne: "\<not> int n - 1 < 0" using assms by simp
  show ?thesis
  proof (cases "n - 1 < 60")
    case True
    then have s: "wrap64 (15 * wrap64 (2 ^ (n - 1))) = 15 * 2 ^ (n - 1)" by (rule backoff_small)
    have "\<not> 15 * (2::int) ^ (n - 1) \<le> 0" by (simp add: not_le)
    then show ?thesis unfolding backoffSec_def Let_def w k if_not_P [OF ne] s by (simp add: min_def not_less)
  next
    case False
    then have s: "wrap64 (15 * wrap64 (2 ^ (n - 1))) \<le> 0" by (intro backoff_big) simp
    have "min 600 (15 * (2::int) ^ (n - 1)) = 600" using False pow_gt_40 [of "n - 1"] by simp
    then show ?thesis unfolding backoffSec_def Let_def w k if_not_P [OF ne] using s by simp
  qed
qed

section \<open>The pool as a step system\<close>

definition endpoint_ok :: "string \<times> PeerEndpoint \<Rightarrow> bool" where
  "endpoint_ok e \<longleftrightarrow> Address (snd e) = fst e \<and> 0 \<le> FailCount (snd e) \<and> FailCount (snd e) < 2 ^ 63"

definition pool_inv :: "PeerEndpointPool \<Rightarrow> bool" where
  "pool_inv p \<longleftrightarrow> map_ok (endpoints p) \<and> list_all endpoint_ok (endpoints p)"

text \<open>The failures of one address fit an \<open>int\<close>.\<close>

fun pool_allowed :: "pool_op \<Rightarrow> PeerEndpointPool \<Rightarrow> bool" where
  "pool_allowed (Pool_MarkFailed now a) p =
     (case map_get (endpoints p) a of None \<Rightarrow> True | Some ep \<Rightarrow> FailCount ep < 2 ^ 63 - 1)"
| "pool_allowed _ p = True"

lemma put_endpoint:
  "list_all endpoint_ok m \<Longrightarrow> endpoint_ok (a, ep) \<Longrightarrow> list_all endpoint_ok (map_put a ep m)"
  using set_map_put [of a ep m] by (auto simp: list_all_iff)

lemma get_endpoint: "pool_inv p \<Longrightarrow> map_get (endpoints p) a = Some ep \<Longrightarrow> endpoint_ok (a, ep)"
  using map_get_in [of "endpoints p" a ep] by (auto simp: pool_inv_def list_all_iff)

definition failures :: "string \<Rightarrow> PeerEndpointPool \<Rightarrow> int" where
  "failures a p = (case map_get (endpoints p) a of None \<Rightarrow> 0 | Some ep \<Rightarrow> FailCount ep)"

lemma failures_nonneg: "pool_inv p \<Longrightarrow> 0 \<le> failures a p"
  using get_endpoint [of p a] by (auto simp: failures_def endpoint_ok_def split: option.splits)

lemma MarkFailed_eq:
  assumes "pool_inv p" and "pool_allowed (Pool_MarkFailed now a) p"
  shows "\<exists>ep. MarkFailed now a p = (Ret (p\<lparr>endpoints := map_put a ep (endpoints p)\<rparr>) :: ('e, PeerEndpointPool) outcome) \<and> endpoint_ok (a, ep) \<and>
     FailCount ep = failures a p + 1 \<and>
     NextRetryTime ep = now + min 600 (15 * 2 ^ nat (failures a p)) * second"
proof -
  define ep where "ep = (case map_get (endpoints p) a of Some ep \<Rightarrow> ep | None \<Rightarrow> new_endpoint a)"
  have ok: "endpoint_ok (a, ep)" "FailCount ep = failures a p" "FailCount ep < 2 ^ 63 - 1"
    using assms get_endpoint [OF assms(1), of a]
    by (auto simp: ep_def failures_def endpoint_ok_def new_endpoint_def split: option.splits)
  obtain n where n: "FailCount ep + 1 = int n" "1 \<le> n" "n - 1 = nat (failures a p)"
    using ok by (intro that [of "nat (FailCount ep + 1)"]) (auto simp: endpoint_ok_def)
  have w: "wrap64 (FailCount ep + 1) = int n" using n(1) ok by (intro wrap64_nonneg [THEN trans]) (auto simp: endpoint_ok_def)
  have b: "backoffSec (int n) = (Ret (min 600 (15 * 2 ^ nat (failures a p))) :: ('e, int) outcome)"
    using backoffSec_eq [of n] n ok(3) by simp
  show ?thesis
    unfolding MarkFailed_def Let_def ep_def [symmetric]
    using ok n(1) w b
    by (intro exI [of _ "ep\<lparr>FailCount := int n, NextRetryTime := now + min 600 (15 * 2 ^ nat (failures a p)) * second\<rparr>"])
      (simp add: endpoint_ok_def)
qed

lemma pool_step_inv: "pool_inv p \<Longrightarrow> pool_allowed op p \<Longrightarrow> pool_inv (pool_step op p)"
proof (cases op)
  case (Pool_MarkFailed now a)
  assume p: "pool_inv p" "pool_allowed op p"
  then obtain ep where e: "MarkFailed now a p = (Ret (p\<lparr>endpoints := map_put a ep (endpoints p)\<rparr>) :: (unit, PeerEndpointPool) outcome)"
    "endpoint_ok (a, ep)"
    using MarkFailed_eq [of p now a] Pool_MarkFailed by auto
  then show ?thesis using p by (simp add: Pool_MarkFailed e pool_inv_def put_endpoint)
qed (auto simp: Add_def MarkSucceeded_def MarkSeed_def EvictDead_def pool_inv_def new_endpoint_def
      endpoint_ok_def list_all_iff split: option.splits intro!: put_endpoint dest!: map_get_in subsetD [OF set_map_put])

interpretation pool: component "\<lambda>p. p = NewPeerEndpointPool" pool_step pool_allowed pool_inv
  by unfold_locales (simp add: NewPeerEndpointPool_def pool_inv_def, rule pool_step_inv)

section \<open>Theorems\<close>




lemma candidate_iff:
  assumes "pool_inv p" and "range_order (endpoints p) es"
  shows "a \<in> set (GetCandidates now excl es) \<longleftrightarrow> (\<exists>ep. map_get (endpoints p) a = Some ep \<and> eligible now excl ep)"
  using assms get_endpoint [OF assms(1)] range_order_set [OF assms(2)]
  by (fastforce simp: GetCandidates_def image_iff map_get_iff pool_inv_def endpoint_ok_def list_all_iff)

text \<open>
  The backoff before the next dial is \<open>15 * 2^(n-1)\<close> seconds after the \<open>n\<close>-th failure,
  capped at 600: the test for a non-positive product catches every wrapped shift and
  product, up to the largest count an \<open>int\<close> holds.
\<close>
theorem backoff_exact:
  assumes "1 \<le> n" and "int n < 2 ^ 63"
  shows "backoffSec (int n) = (Ret (min 600 (15 * 2 ^ (n - 1))) :: ('e, int) outcome)"
  using assms by (rule backoffSec_eq)

theorem backoff_exact_witness:
  "backoffSec 3 = (Ret 60 :: (unit, int) outcome) \<and> backoffSec 61 = (Ret 600 :: (unit, int) outcome)"
  using backoff_exact [of 3, where ?'e = unit] backoff_exact [of 61, where ?'e = unit] by simp



text \<open>
  \<open>GetCandidates\<close> returns each address once, and exactly those whose endpoint has fewer
  than five failures, is not an excluded seed and is past its retry time; an address that is
  new to the pool is offered at once, and one that succeeded is offered again.
\<close>
theorem candidates_exact:
  assumes "run_allowed pool_step pool_allowed ops NewPeerEndpointPool"
    and "p = fold pool_step ops NewPeerEndpointPool" and "range_order (endpoints p) es"
  shows "distinct (GetCandidates now excl es) \<and>
    (a \<in> set (GetCandidates now excl es) \<longleftrightarrow> (\<exists>ep. map_get (endpoints p) a = Some ep \<and> FailCount ep < 5 \<and>
       \<not> (excl \<and> IsSeed ep) \<and> NextRetryTime ep \<le> now)) \<and>
    (0 \<le> now \<and> range_order (endpoints (MarkSucceeded a (Add a p))) es' \<longrightarrow>
       a \<in> set (GetCandidates now False es'))"
proof -
  have i: "pool_inv p" unfolding assms(2) by (rule pool.reachable_inv [OF refl assms(1)])
  have "map Address (map snd es) = map fst es"
    using i range_order_set [OF assms(3)] by (auto simp: pool_inv_def endpoint_ok_def list_all_iff)
  moreover have "distinct (map fst es)"
    using i assms(3) unfolding pool_inv_def map_ok_def range_order_def
    by (metis mset_eq_imp_distinct_iff mset_map)
  ultimately have "distinct (GetCandidates now excl es)"
    unfolding GetCandidates_def by (metis distinct_map_filter)
  moreover have i': "pool_inv (MarkSucceeded a (Add a p))"
    using pool_step_inv [OF pool_step_inv [OF i, of "Pool_Add a"], of "Pool_MarkSucceeded a"] by simp
  have "\<exists>ep. map_get (endpoints (MarkSucceeded a (Add a p))) a = Some ep \<and> eligible now False ep" if "0 \<le> now"
    using that by (auto simp: MarkSucceeded_def Add_def eligible_def split: option.splits)
  ultimately show ?thesis
    using candidate_iff [OF i assms(3), of a now excl] candidate_iff [OF i', of es' a now False]
    by (auto simp: eligible_def)
qed

theorem candidates_exact_witness:
  "distinct (GetCandidates 7 True (endpoints (fold pool_step [Pool_Add ''x'', Pool_Add ''y'', Pool_MarkSeed ''y'' True]
     NewPeerEndpointPool)))"
  using candidates_exact [OF _ refl range_order_refl, of "[Pool_Add ''x'', Pool_Add ''y'', Pool_MarkSeed ''y'' True]"]
  by simp

end
