(* ===== verification/Dht_Node.thy ===== *)
theory Dht_Node
  imports Go_Codec Go_Maps
begin

text \<open>
  DHT nodes, \<^verbatim>\<open>src/dht/node.go\<close>: identifiers of 20 bytes with the XOR distance, and the
  compact encoding of node lists. A \<open>net.UDPAddr\<close> is its IP bytes and its port.
\<close>

section \<open>The model\<close>

type_synonym NodeID = "byte list"

record Node =
  node_ID :: NodeID
  node_IP :: "byte list"
  node_Port :: int

definition node_id_ok :: "NodeID \<Rightarrow> bool" where
  "node_id_ok x \<longleftrightarrow> length x = 20"

definition XORDistance :: "NodeID \<Rightarrow> NodeID \<Rightarrow> NodeID" where
  "XORDistance a b = map (\<lambda>i. a ! i XOR b ! i) [0..<20]"

text \<open>The loop of \<open>CompareDistance\<close> over the bytes of the two distances.\<close>

fun compare_bytes :: "byte list \<Rightarrow> byte list \<Rightarrow> int" where
  "compare_bytes (x # xs) (y # ys) = (if x < y then - 1 else if x > y then 1 else compare_bytes xs ys)"
| "compare_bytes _ _ = 0"

definition CompareDistance :: "NodeID \<Rightarrow> NodeID \<Rightarrow> NodeID \<Rightarrow> int" where
  "CompareDistance target a b = compare_bytes (XORDistance target a) (XORDistance target b)"

text \<open>\<open>net.IP.To4\<close>: a 4-byte address, or the last four bytes of an IPv4-mapped one, else nil.\<close>

definition To4 :: "byte list \<Rightarrow> byte list" where
  "To4 ip = (if length ip = 4 then ip
     else if length ip = 16 \<and> take 12 ip = replicate 10 0 @ [255, 255] then drop 12 ip else [])"

definition encode_node :: "Node \<Rightarrow> byte list" where
  "encode_node n = node_ID n @ To4 (node_IP n) @
     [word_of_int (drop_bit 8 (node_Port n)), word_of_int (node_Port n)]"

definition CompactNodesEncode :: "Node list \<Rightarrow> byte list" where
  "CompactNodesEncode nodes = concat (map encode_node nodes)"

definition decode_node :: "byte list \<Rightarrow> Node" where
  "decode_node c = \<lparr>node_ID = sub c 0 20, node_IP = sub c 20 24,
     node_Port = push_bit 8 (uint (c ! 24)) OR uint (c ! 25)\<rparr>"

definition CompactNodesDecode :: "byte list \<Rightarrow> Node list" where
  "CompactNodesDecode data = map decode_node (chunks 26 data)"

section \<open>The distance as a number\<close>

definition num :: "byte list \<Rightarrow> nat" where
  "num bs = foldl (\<lambda>n b. n * 256 + unat b) 0 bs"

definition distance :: "NodeID \<Rightarrow> NodeID \<Rightarrow> nat" where
  "distance a b = num (XORDistance a b)"

lemma num_shift: "foldl (\<lambda>n b. n * 256 + unat b) k bs = k * 256 ^ length bs + num (bs :: byte list)"
proof (induction bs rule: rev_induct)
  case (snoc b bs)
  then show ?case by (simp add: num_def algebra_simps)
qed (simp add: num_def)

lemma num_Cons: "num (b # bs) = unat b * 256 ^ length bs + num bs"
  using num_shift [of "unat b" bs] by (simp add: num_def)

lemma unat_byte: "unat (b :: byte) < 256"
  using unsigned_less [of b, where ?'a = nat] by simp

lemma num_less: "num bs < 256 ^ length bs"
proof (induction bs)
  case (Cons b bs)
  have "num (b # bs) < (unat b + 1) * 256 ^ length bs" using Cons by (simp add: num_Cons)
  also have "\<dots> \<le> 256 * 256 ^ length bs" using unat_byte [of b] by (intro mult_le_mono1) simp
  finally show ?case by simp
qed (simp add: num_def)

lemma num_Cons_less: "unat x < unat y \<Longrightarrow> length xs = length ys \<Longrightarrow> num (x # xs) < num (y # ys)"
proof -
  assume "unat x < unat y" and l: "length xs = length ys"
  then have "(unat x + 1) * 256 ^ length xs \<le> unat y * 256 ^ length ys" by (intro mult_le_mono) simp_all
  then show ?thesis using num_less [of xs] l by (simp add: num_Cons)
qed

lemma compare_bytes_num:
  assumes "length xs = length ys"
  shows "compare_bytes xs ys = (if num xs < num ys then - 1 else if num xs > num ys then 1 else 0)"
  using assms
proof (induction xs ys rule: list_induct2)
  case (Cons x xs y ys)
  consider "unat x < unat y" | "unat y < unat x" | "x = y" by (metis linorder_neqE_nat word_unat_eq_iff)
  then show ?case
  proof cases
    case 1
    then show ?thesis using num_Cons_less [of x y xs ys] Cons by (simp add: word_less_nat_alt)
  next
    case 2
    then show ?thesis using num_Cons_less [of y x ys xs] Cons by (simp add: word_less_nat_alt)
  next
    case 3
    then show ?thesis using Cons by (simp add: num_Cons)
  qed
qed simp

lemma length_XORDistance [simp]: "length (XORDistance a b) = 20"
  by (simp add: XORDistance_def)

lemma CompareDistance_num:
  "CompareDistance target a b =
     (if distance target a < distance target b then - 1 else if distance target a > distance target b then 1 else 0)"
  by (simp add: CompareDistance_def distance_def compare_bytes_num)

lemma num_eq_iff: "length xs = length ys \<Longrightarrow> num xs = num ys \<longleftrightarrow> xs = ys"
proof (induction xs ys rule: list_induct2)
  case (Cons x xs y ys)
  have "x = y" if "num (x # xs) = num (y # ys)"
    using that num_Cons_less [of x y xs ys] num_Cons_less [of y x ys xs] Cons(1)
    by (metis linorder_neqE_nat order_less_irrefl word_unat_eq_iff)
  with Cons show ?case by (auto simp: num_Cons)
qed simp

lemma XORDistance_inject:
  assumes "node_id_ok a" and "node_id_ok b"
  shows "XORDistance t a = XORDistance t b \<longleftrightarrow> a = b"
proof
  assume e: "XORDistance t a = XORDistance t b"
  show "a = b"
  proof (rule nth_equalityI)
    fix i assume "i < length a"
    then have i: "i < 20" using assms(1) by (simp add: node_id_ok_def)
    then have "t ! i XOR a ! i = t ! i XOR b ! i"
      using arg_cong [OF e, of "\<lambda>x. x ! i"] by (simp add: XORDistance_def)
    then have "t ! i XOR (t ! i XOR a ! i) = t ! i XOR (t ! i XOR b ! i)" by simp
    then show "a ! i = b ! i" by (simp only: xor.assoc [symmetric] xor_self_eq xor.left_neutral)
  qed (use assms in \<open>simp add: node_id_ok_def\<close>)
qed simp

lemma distance_inject:
  "node_id_ok a \<Longrightarrow> node_id_ok b \<Longrightarrow> distance t a = distance t b \<longleftrightarrow> a = b"
  by (simp add: distance_def num_eq_iff XORDistance_inject)

section \<open>Sorting by distance\<close>

definition closer :: "NodeID \<Rightarrow> Node \<Rightarrow> Node \<Rightarrow> bool" where
  "closer target a b \<longleftrightarrow> CompareDistance target (node_ID a) (node_ID b) < 0"

lemma closer_iff: "closer t a b \<longleftrightarrow> distance t (node_ID a) < distance t (node_ID b)"
  by (simp add: closer_def CompareDistance_num)

interpretation closer_order: weak_order "closer t" for t
  by unfold_locales (auto simp: closer_iff)

section \<open>The compact encoding\<close>

definition node_ok :: "Node \<Rightarrow> bool" where
  "node_ok n \<longleftrightarrow> node_id_ok (node_ID n) \<and> length (node_IP n) = 4 \<and> 0 \<le> node_Port n \<and> node_Port n < 65536"

lemma port_bytes:
  assumes "0 \<le> p" and "p < 65536"
  shows "push_bit 8 (uint (word_of_int (drop_bit 8 p) :: byte)) OR uint (word_of_int p :: byte) = p"
proof -
  have "push_bit 8 (uint (word_of_int (drop_bit 8 p) :: byte)) OR uint (word_of_int p :: byte) = take_bit 16 p"
    by (rule bit_eqI) (auto simp: bit_simps uint_word_of_int_eq)
  also have "\<dots> = p" using assms by (simp add: take_bit_int_eq_self)
  finally show ?thesis .
qed

lemma decode_encode_node: "node_ok n \<Longrightarrow> decode_node (encode_node n) = n"
proof -
  assume n: "node_ok n"
  then have l: "length (node_ID n) = 20" "To4 (node_IP n) = node_IP n" "length (node_IP n) = 4"
    by (simp_all add: node_ok_def node_id_ok_def To4_def)
  have p: "encode_node n ! 24 = word_of_int (drop_bit 8 (node_Port n))" "encode_node n ! 25 = word_of_int (node_Port n)"
    using l by (simp_all add: encode_node_def nth_append)
  show ?thesis
    using l n port_bytes [of "node_Port n"] unfolding decode_node_def p
    by (simp add: encode_node_def sub_def node_ok_def)
qed

interpretation compact_nodes: fixed_size 26 node_ok encode_node decode_node
  by unfold_locales (simp_all add: decode_encode_node, simp add: encode_node_def node_ok_def node_id_ok_def To4_def)

end
