(* ===== verification/Dht_Routing.thy ===== *)
theory Dht_Routing
  imports Dht_Node
begin

text \<open>
  The routing table, \<^verbatim>\<open>src/dht/routing.go\<close>: 160 buckets of at most eight nodes, one per length
  of the common prefix with our own identifier. Each method holds the table's lock.
  \<open>sort.Slice\<close> is an argument of \<open>FindClosest\<close>.
\<close>

section \<open>The model\<close>

definition BucketSize :: nat where
  "BucketSize = 8"

definition NumBuckets :: nat where
  "NumBuckets = 160"

record RoutingTable =
  selfID :: NodeID
  buckets :: "Node list list"

definition NewRoutingTable :: "NodeID \<Rightarrow> RoutingTable" where
  "NewRoutingTable self = \<lparr>selfID = self, buckets = replicate NumBuckets []\<rparr>"

text \<open>The two nested loops return at the first set bit of the distance.\<close>

definition bit_positions :: "(nat \<times> nat) list" where
  "bit_positions = [(i, b). i \<leftarrow> [0..<20], b \<leftarrow> rev [0..<8]]"

definition bucketIndex :: "RoutingTable \<Rightarrow> NodeID \<Rightarrow> nat" where
  "bucketIndex rt nid =
     (let dist = XORDistance (selfID rt) nid in
      case find (\<lambda>(i, b). dist ! i AND push_bit b 1 \<noteq> 0) bit_positions of
        Some (i, b) \<Rightarrow> i * 8 + (7 - b)
      | None \<Rightarrow> NumBuckets - 1)"

definition Add_node :: "Node \<Rightarrow> RoutingTable \<Rightarrow> RoutingTable" where
  "Add_node node rt =
     (if node_ID node = selfID rt then rt
      else
        (let idx = bucketIndex rt (node_ID node); bucket = buckets rt ! idx in
         case find (\<lambda>i. node_ID (bucket ! i) = node_ID node) [0..<length bucket] of
           Some i \<Rightarrow> rt\<lparr>buckets := (buckets rt)[idx := take i bucket @ drop (Suc i) bucket @ [node]]\<rparr>
         | None \<Rightarrow>
             if length bucket < BucketSize then rt\<lparr>buckets := (buckets rt)[idx := bucket @ [node]]\<rparr>
             else rt))"

definition FindClosest ::
    "((Node \<Rightarrow> Node \<Rightarrow> bool) \<Rightarrow> Node list \<Rightarrow> Node list) \<Rightarrow> NodeID \<Rightarrow> int \<Rightarrow> RoutingTable \<Rightarrow> ('e, Node list) outcome" where
  "FindClosest sort_Slice target cnt rt =
     (let all = sort_Slice (closer target) (concat (buckets rt)) in
      if int (length all) > cnt then go_slice all 0 cnt else Ret all)"

definition Count :: "RoutingTable \<Rightarrow> int" where
  "Count rt = foldl (\<lambda>n bucket. n + int (length bucket)) 0 (buckets rt)"

section \<open>The bucket of a node\<close>

text \<open>The bits of an identifier, the first one of the first byte first.\<close>

definition id_bit :: "NodeID \<Rightarrow> nat \<Rightarrow> bool" where
  "id_bit x k \<longleftrightarrow> bit (x ! (k div 8)) (7 - k mod 8)"

lemma AND_push_bit: "w AND push_bit b 1 \<noteq> 0 \<longleftrightarrow> bit w b" for w :: byte
proof -
  have "w AND push_bit b 1 = (if bit w b then push_bit b 1 else 0)"
    by (rule bit_word_eqI) (auto simp: bit_simps dest: bit_imp_le_length)
  moreover have "push_bit b (1 :: byte) \<noteq> 0" if "bit w b"
  proof
    assume z: "push_bit b (1 :: byte) = 0"
    have "b < 8" using bit_imp_le_length [OF that] by simp
    then have "bit (push_bit b (1 :: byte)) b" by (simp add: bit_simps)
    then show False unfolding z by simp
  qed
  ultimately show ?thesis by simp
qed

lemma bit_positions_map: "bit_positions = map (\<lambda>k. (k div 8, 7 - k mod 8)) [0..<160]"
  by code_simp

lemma bucketIndex_find:
  "bucketIndex rt x =
     (case find (\<lambda>k. id_bit (selfID rt) k \<noteq> id_bit x k) [0..<160] of Some k \<Rightarrow> k | None \<Rightarrow> 159)"
proof -
  let ?P = "\<lambda>(i, b). XORDistance (selfID rt) x ! i AND push_bit b 1 \<noteq> 0"
  have "?P (k div 8, 7 - k mod 8) \<longleftrightarrow> id_bit (selfID rt) k \<noteq> id_bit x k" if "k < 160" for k
    unfolding prod.case AND_push_bit using that by (auto simp: XORDistance_def id_bit_def bit_simps)
  then have "find ?P bit_positions =
      map_option (\<lambda>k. (k div 8, 7 - k mod 8)) (find (\<lambda>k. id_bit (selfID rt) k \<noteq> id_bit x k) [0..<160])"
    unfolding bit_positions_map find_map by (intro arg_cong [of _ _ "map_option _"] find_cong refl) simp
  then show ?thesis
    by (auto simp: bucketIndex_def Let_def NumBuckets_def split: option.splits)
qed

lemma find_diff_None:
  assumes "node_id_ok a" and "node_id_ok b"
  shows "find (\<lambda>k. id_bit a k \<noteq> id_bit b k) [0..<160] = None \<longleftrightarrow> a = b"
proof
  assume "find (\<lambda>k. id_bit a k \<noteq> id_bit b k) [0..<160] = None"
  then have e: "id_bit a k = id_bit b k" if "k < 160" for k using that by (auto simp: find_None_iff)
  show "a = b"
  proof (rule nth_equalityI)
    fix i assume "i < length a"
    then have i: "i < 20" using assms(1) by (simp add: node_id_ok_def)
    show "a ! i = b ! i"
    proof (rule bit_word_eqI)
      fix n assume "n < LENGTH(8)"
      then obtain m where m: "n = 7 - m" "m < 8" by (intro that [of "7 - n"]) auto
      then have d: "(i * 8 + m) div 8 = i" "7 - (i * 8 + m) mod 8 = n" "i * 8 + m < 160" using i by simp_all
      show "bit (a ! i) n = bit (b ! i) n" using e [OF d(3)] unfolding id_bit_def d .
    qed
  qed (use assms in \<open>simp add: node_id_ok_def\<close>)
qed (simp add: find_None_iff)

lemma bucketIndex_prefix:
  assumes "node_id_ok (selfID rt)" and "node_id_ok x" and "x \<noteq> selfID rt"
  shows "bucketIndex rt x < 160" and "id_bit (selfID rt) (bucketIndex rt x) \<noteq> id_bit x (bucketIndex rt x)"
    and "\<And>k. k < bucketIndex rt x \<Longrightarrow> id_bit (selfID rt) k = id_bit x k"
proof -
  obtain k where k: "find (\<lambda>k. id_bit (selfID rt) k \<noteq> id_bit x k) [0..<160] = Some k"
    using find_diff_None [OF assms(1,2)] assms(3) by auto
  then have "bucketIndex rt x = k" by (simp add: bucketIndex_find)
  then show "bucketIndex rt x < 160" "id_bit (selfID rt) (bucketIndex rt x) \<noteq> id_bit x (bucketIndex rt x)"
    "\<And>k. k < bucketIndex rt x \<Longrightarrow> id_bit (selfID rt) k = id_bit x k"
    using k by (auto simp: find_index_iff)
qed

section \<open>The invariant\<close>

definition bucket_ok :: "RoutingTable \<Rightarrow> nat \<Rightarrow> Node list \<Rightarrow> bool" where
  "bucket_ok rt i bucket \<longleftrightarrow> length bucket \<le> BucketSize \<and> distinct (map node_ID bucket) \<and>
     (\<forall>n\<in>set bucket. node_id_ok (node_ID n) \<and> node_ID n \<noteq> selfID rt \<and> bucketIndex rt (node_ID n) = i)"

definition rt_inv :: "RoutingTable \<Rightarrow> bool" where
  "rt_inv rt \<longleftrightarrow> node_id_ok (selfID rt) \<and> length (buckets rt) = NumBuckets \<and>
     (\<forall>i<NumBuckets. bucket_ok rt i (buckets rt ! i))"

lemma NewRoutingTable_inv: "node_id_ok self \<Longrightarrow> rt_inv (NewRoutingTable self)"
  by (simp add: rt_inv_def NewRoutingTable_def bucket_ok_def NumBuckets_def)

text \<open>The two ways a bucket changes.\<close>

definition refresh :: "Node \<Rightarrow> Node list \<Rightarrow> Node list" where
  "refresh node bucket = filter (\<lambda>n. node_ID n \<noteq> node_ID node) bucket @ [node]"

lemma refresh_new: "node_ID node \<notin> node_ID ` set b \<Longrightarrow> refresh node b = b @ [node]"
proof -
  assume a: "node_ID node \<notin> node_ID ` set b"
  have "node_ID n \<noteq> node_ID node" if "n \<in> set b" for n using a that by (metis image_eqI)
  then have "filter (\<lambda>n. node_ID n \<noteq> node_ID node) b = b" by (simp add: filter_id_conv)
  then show ?thesis by (simp add: refresh_def)
qed

lemma remove_nth_filter:
  assumes "distinct (map f xs)" and "i < length xs" and "f (xs ! i) = y"
  shows "take i xs @ drop (Suc i) xs = filter (\<lambda>x. f x \<noteq> y) xs"
proof -
  have x: "xs = take i xs @ xs ! i # drop (Suc i) xs" using assms(2) by (rule id_take_nth_drop)
  have "distinct (map f (take i xs @ xs ! i # drop (Suc i) xs))" using assms(1) x by simp
  then have "y \<notin> f ` set (take i xs)" "y \<notin> f ` set (drop (Suc i) xs)" using assms(3) by auto
  then have "filter (\<lambda>x. f x \<noteq> y) (take i xs) = take i xs" "filter (\<lambda>x. f x \<noteq> y) (drop (Suc i) xs) = drop (Suc i) xs"
    by (auto simp: filter_id_conv)
  then show ?thesis by (subst (3) x) (simp add: assms(3))
qed

lemma Add_node_eq:
  assumes "rt_inv rt" and "node_id_ok (node_ID node)"
  shows "Add_node node rt =
    (if node_ID node = selfID rt then rt
     else
       (let idx = bucketIndex rt (node_ID node); bucket = buckets rt ! idx in
        if node_ID node \<in> node_ID ` set bucket \<or> length bucket < BucketSize
        then rt\<lparr>buckets := (buckets rt)[idx := refresh node bucket]\<rparr> else rt))"
proof (cases "node_ID node = selfID rt")
  case False
  let ?idx = "bucketIndex rt (node_ID node)"
  let ?b = "buckets rt ! ?idx"
  have idx: "?idx < NumBuckets"
    using bucketIndex_prefix(1) [OF _ assms(2) False] assms(1) by (simp add: rt_inv_def NumBuckets_def)
  then have d: "distinct (map node_ID ?b)" using assms(1) by (simp add: rt_inv_def bucket_ok_def)
  show ?thesis
  proof (cases "find (\<lambda>i. node_ID (?b ! i) = node_ID node) [0..<length ?b]")
    case None
    then have "node_ID node \<notin> node_ID ` set ?b" by (force simp: find_None_iff in_set_conv_nth)
    moreover from this have "refresh node ?b = ?b @ [node]" by (rule refresh_new)
    ultimately show ?thesis using False None by (simp add: Add_node_def Let_def)
  next
    case (Some i)
    then have i: "i < length ?b" "node_ID (?b ! i) = node_ID node" by (simp_all add: find_index_iff)
    then have "node_ID node \<in> node_ID ` set ?b" by (metis image_eqI nth_mem)
    moreover have "take i ?b @ drop (Suc i) ?b @ [node] = refresh node ?b"
      using remove_nth_filter [OF d i] by (simp add: refresh_def)
    ultimately show ?thesis using False Some by (simp add: Add_node_def Let_def)
  qed
qed (simp add: Add_node_def)

lemma bucketIndex_frame [simp]: "bucketIndex (rt\<lparr>buckets := bs\<rparr>) = bucketIndex rt"
  by (simp add: bucketIndex_def fun_eq_iff)

lemma length_refresh: "node_ID node \<in> node_ID ` set b \<Longrightarrow> length (refresh node b) \<le> length b"
proof -
  assume "node_ID node \<in> node_ID ` set b"
  then have "length (filter (\<lambda>n. node_ID n \<noteq> node_ID node) b) < length b" by (auto intro: length_filter_less)
  then show ?thesis by (simp add: refresh_def)
qed

lemma refresh_ok:
  assumes "bucket_ok rt i b" and "node_id_ok (node_ID node)" and "node_ID node \<noteq> selfID rt"
    and "bucketIndex rt (node_ID node) = i" and "node_ID node \<in> node_ID ` set b \<or> length b < BucketSize"
  shows "bucket_ok rt i (refresh node b)"
proof -
  have "length (refresh node b) \<le> BucketSize"
  proof (cases "node_ID node \<in> node_ID ` set b")
    case True
    then show ?thesis using assms(1) length_refresh [OF True] by (simp add: bucket_ok_def)
  next
    case False
    then have "length b < BucketSize" using assms(5) by simp
    then show ?thesis using False by (simp add: refresh_new)
  qed
  moreover have "distinct (map node_ID (refresh node b))"
    using assms(1) by (simp add: bucket_ok_def refresh_def distinct_map_filter) (force simp: image_iff)
  moreover have "node_id_ok (node_ID n) \<and> node_ID n \<noteq> selfID rt \<and> bucketIndex rt (node_ID n) = i"
    if "n \<in> set (refresh node b)" for n
    using that assms(1-4) by (cases "n = node") (simp_all add: bucket_ok_def refresh_def)
  ultimately show ?thesis by (simp add: bucket_ok_def)
qed

lemma Add_node_inv: "rt_inv rt \<Longrightarrow> node_id_ok (node_ID node) \<Longrightarrow> rt_inv (Add_node node rt)"
proof -
  assume rt: "rt_inv rt" and n: "node_id_ok (node_ID node)"
  let ?idx = "bucketIndex rt (node_ID node)"
  have f: "bucket_ok (rt\<lparr>buckets := bs\<rparr>) i b = bucket_ok rt i b" for bs i b by (simp add: bucket_ok_def)
  show ?thesis
  proof (cases "Add_node node rt = rt")
    case False
    then have s: "node_ID node \<noteq> selfID rt"
      and b: "node_ID node \<in> node_ID ` set (buckets rt ! ?idx) \<or> length (buckets rt ! ?idx) < BucketSize"
      and a: "Add_node node rt = rt\<lparr>buckets := (buckets rt)[?idx := refresh node (buckets rt ! ?idx)]\<rparr>"
      using Add_node_eq [OF rt n] by (auto simp: Let_def split: if_splits)
    have idx: "?idx < NumBuckets"
      using bucketIndex_prefix(1) [OF _ n s] rt by (simp add: rt_inv_def NumBuckets_def)
    then have "bucket_ok rt ?idx (refresh node (buckets rt ! ?idx))"
      using rt n s b by (intro refresh_ok) (auto simp: rt_inv_def)
    then show ?thesis using rt idx unfolding a by (simp add: rt_inv_def f nth_list_update)
  qed (use rt in simp)
qed

interpretation routing: component "\<lambda>rt. \<exists>self. node_id_ok self \<and> rt = NewRoutingTable self"
    Add_node "\<lambda>node rt. node_id_ok (node_ID node)" rt_inv
  by unfold_locales (auto intro: NewRoutingTable_inv Add_node_inv)

section \<open>Theorems\<close>

lemma Count_sum: "Count rt = int (length (concat (buckets rt)))"
proof -
  have "foldl (\<lambda>n bucket. n + int (length bucket)) k bs = k + int (length (concat bs))" for k and bs :: "Node list list"
    by (induction bs arbitrary: k) simp_all
  then show ?thesis by (simp add: Count_def)
qed

lemma in_concat: "x \<in> set (concat xss) \<longleftrightarrow> (\<exists>i<length xss. x \<in> set (xss ! i))"
  by (force simp: in_set_conv_nth)

lemmas in_table = in_concat [of _ "buckets rt" for rt]

lemma rt_inv_node:
  "rt_inv rt \<Longrightarrow> i < length (buckets rt) \<Longrightarrow> n \<in> set (buckets rt ! i) \<Longrightarrow>
     node_id_ok (node_ID n) \<and> node_ID n \<noteq> selfID rt \<and> bucketIndex rt (node_ID n) = i"
  by (simp add: rt_inv_def bucket_ok_def)

lemma table_distinct: "rt_inv rt \<Longrightarrow> distinct (map node_ID (concat (buckets rt)))"
proof -
  assume rt: "rt_inv rt"
  then have l: "length (buckets rt) = NumBuckets" by (simp add: rt_inv_def)
  have "m \<le> NumBuckets \<Longrightarrow> distinct (map node_ID (concat (take m (buckets rt))))" for m
  proof (induction m)
    case (Suc m)
    have b: "bucket_ok rt m (buckets rt ! m)" using rt Suc.prems by (simp add: rt_inv_def)
    have "bucketIndex rt x < m" if x: "x \<in> node_ID ` set (concat (take m (buckets rt)))" for x
    proof -
      obtain n b where n: "b \<in> set (take m (buckets rt))" "n \<in> set b" "x = node_ID n" using x by auto
      then obtain i where "i < m" "b = buckets rt ! i" using Suc.prems l by (auto simp: in_set_conv_nth)
      then show ?thesis using rt_inv_node [OF rt, of i n] n Suc.prems l by simp
    qed
    moreover have "bucketIndex rt x = m" if "x \<in> node_ID ` set (buckets rt ! m)" for x
      using that b by (auto simp: bucket_ok_def)
    ultimately have "node_ID ` set (concat (take m (buckets rt))) \<inter> node_ID ` set (buckets rt ! m) = {}" by fastforce
    moreover have "take (Suc m) (buckets rt) = take m (buckets rt) @ [buckets rt ! m]"
      using Suc.prems l by (simp add: take_Suc_conv_app_nth)
    ultimately show ?case using Suc b by (simp add: bucket_ok_def)
  qed simp
  from this [of NumBuckets] show ?thesis using l by simp
qed

text \<open>
  C30. Whatever nodes are added to a new table, every bucket holds at most eight nodes, bucket
  \<open>i\<close> holds only nodes whose identifier agrees with ours in the first \<open>i\<close> bits and differs
  in the next one, our own identifier is never stored and no identifier is stored twice.
\<close>
theorem routing_table_invariant:
  assumes "node_id_ok self" and "run_allowed Add_node (\<lambda>node rt. node_id_ok (node_ID node)) nodes (NewRoutingTable self)"
    and "rt = fold Add_node nodes (NewRoutingTable self)" and "i < 160" and "n \<in> set (buckets rt ! i)"
  shows "length (buckets rt) = 160 \<and> length (buckets rt ! i) \<le> 8 \<and> node_ID n \<noteq> selfID rt \<and>
    id_bit (node_ID n) i \<noteq> id_bit (selfID rt) i \<and> (\<forall>k<i. id_bit (node_ID n) k = id_bit (selfID rt) k) \<and>
    distinct (map node_ID (concat (buckets rt)))"
proof -
  have rt: "rt_inv rt" unfolding assms(3) using assms(1,2) by (intro routing.reachable_inv) auto
  then have n: "node_id_ok (node_ID n)" "node_ID n \<noteq> selfID rt" "bucketIndex rt (node_ID n) = i" "node_id_ok (selfID rt)"
    and l: "length (buckets rt) = 160" "length (buckets rt ! i) \<le> 8"
    using assms(4,5) by (auto simp: rt_inv_def bucket_ok_def NumBuckets_def BucketSize_def)
  then show ?thesis
    using bucketIndex_prefix [OF n(4,1,2)] table_distinct [OF rt] by (simp add: n(3))
qed

definition demo_id :: "byte \<Rightarrow> NodeID" where
  "demo_id b = b # replicate 19 0"

definition demo_node :: "byte \<Rightarrow> Node" where
  "demo_node b = \<lparr>node_ID = demo_id b, node_IP = [10, 0, 0, b], node_Port = 6881\<rparr>"

theorem routing_table_invariant_witness:
  "distinct (map node_ID (concat (buckets (fold Add_node [demo_node 1, demo_node 2, demo_node 1] (NewRoutingTable (demo_id 0))))))"
proof -
  let ?rt = "fold Add_node [demo_node 1, demo_node 2, demo_node 1] (NewRoutingTable (demo_id 0))"
  have m: "demo_node 1 \<in> set (buckets ?rt ! 7)" by code_simp
  show ?thesis
    using routing_table_invariant [OF _ _ refl _ m]
    by (simp add: node_id_ok_def demo_id_def demo_node_def)
qed

text \<open>
  After \<open>Add\<close> a node with the address just seen is in the table, unless it is ourselves or
  its bucket already holds eight other nodes, in which case the table is unchanged; no
  other node is lost or altered.
\<close>
theorem Add_keeps_recent:
  assumes "rt_inv rt" and "node_id_ok (node_ID node)"
  shows "(node \<in> set (concat (buckets (Add_node node rt))) \<longleftrightarrow>
      node_ID node \<noteq> selfID rt \<and>
      (node_ID node \<in> node_ID ` set (concat (buckets rt)) \<or> length (buckets rt ! bucketIndex rt (node_ID node)) < 8)) \<and>
    (node \<notin> set (concat (buckets (Add_node node rt))) \<longrightarrow> Add_node node rt = rt) \<and>
    (\<forall>n. node_ID n \<noteq> node_ID node \<longrightarrow>
      (n \<in> set (concat (buckets (Add_node node rt))) \<longleftrightarrow> n \<in> set (concat (buckets rt))))"
proof (cases "node_ID node = selfID rt")
  case True
  have "n \<in> set (concat (buckets rt)) \<Longrightarrow> n \<noteq> node" for n
    unfolding in_table using rt_inv_node [OF assms(1)] True by blast
  with True show ?thesis by (auto simp: Add_node_def)
next
  case False
  let ?i = "bucketIndex rt (node_ID node)"
  let ?b = "buckets rt ! ?i"
  have i: "?i < length (buckets rt)"
    using bucketIndex_prefix(1) [OF _ assms(2) False] assms(1) by (simp add: rt_inv_def NumBuckets_def)
  have own: "node_ID node \<in> node_ID ` set (concat (buckets rt)) \<longleftrightarrow> node_ID node \<in> node_ID ` set ?b"
  proof
    assume "node_ID node \<in> node_ID ` set (concat (buckets rt))"
    then obtain n where "n \<in> set (concat (buckets rt))" "node_ID node = node_ID n" by blast
    then obtain j where n: "j < length (buckets rt)" "n \<in> set (buckets rt ! j)" "node_ID node = node_ID n"
      unfolding in_table by blast
    then have "j = ?i" using rt_inv_node [OF assms(1), of j n] by simp
    with n show "node_ID node \<in> node_ID ` set ?b" by auto
  next
    assume "node_ID node \<in> node_ID ` set ?b"
    then show "node_ID node \<in> node_ID ` set (concat (buckets rt))"
      using i by (auto simp: in_table simp del: set_concat intro!: image_eqI)
  qed
  have put: "set (concat ((buckets rt)[?i := refresh node ?b])) =
      insert node {n \<in> set (concat (buckets rt)). node_ID n \<noteq> node_ID node}"
  proof -
    have "node_ID n \<noteq> node_ID node" if "n \<in> set (buckets rt ! j)" "j < length (buckets rt)" "j \<noteq> ?i" for n j
      using rt_inv_node [OF assms(1), of j n] that by auto
    moreover have "n \<in> set (concat ((buckets rt)[?i := refresh node ?b])) \<longleftrightarrow>
        n \<in> set (refresh node ?b) \<or> (\<exists>j<length (buckets rt). j \<noteq> ?i \<and> n \<in> set (buckets rt ! j))" for n
      unfolding in_concat length_list_update using i by (metis nth_list_update_eq nth_list_update_neq)
    moreover have "n \<in> set (refresh node ?b) \<longleftrightarrow> n = node \<or> n \<in> set ?b \<and> node_ID n \<noteq> node_ID node" for n
      by (auto simp: refresh_def)
    ultimately show ?thesis unfolding set_eq_iff insert_iff mem_Collect_eq in_table using i by metis
  qed
  show ?thesis
  proof (cases "node_ID node \<in> node_ID ` set ?b \<or> length ?b < BucketSize")
    case True
    then have a: "Add_node node rt = rt\<lparr>buckets := (buckets rt)[?i := refresh node ?b]\<rparr>"
      using Add_node_eq [OF assms] False by (simp add: Let_def)
    show ?thesis using True False unfolding own a BucketSize_def by (auto simp: put simp del: set_concat)
  next
    case F: False
    then have "Add_node node rt = rt" using Add_node_eq [OF assms] False by (simp add: Let_def)
    moreover have "node \<notin> set (concat (buckets rt))" using own F by auto
    ultimately show ?thesis using F unfolding own BucketSize_def by simp
  qed
qed

lemma demo_rt_inv: "rt_inv (fold Add_node [demo_node 1, demo_node 2] (NewRoutingTable (demo_id 0)))"
proof (rule routing.reachable_inv)
  show "\<exists>self. node_id_ok self \<and> NewRoutingTable (demo_id 0) = NewRoutingTable self"
    by (rule exI [of _ "demo_id 0"]) (simp add: node_id_ok_def demo_id_def)
qed (simp add: node_id_ok_def demo_id_def demo_node_def)

theorem Add_keeps_recent_witness:
  "demo_node 3 \<in> set (concat (buckets (Add_node (demo_node 3)
     (fold Add_node [demo_node 1, demo_node 2] (NewRoutingTable (demo_id 0))))))"
proof -
  let ?rt = "fold Add_node [demo_node 1, demo_node 2] (NewRoutingTable (demo_id 0))"
  have "node_ID (demo_node 3) \<noteq> selfID ?rt" "length (buckets ?rt ! bucketIndex ?rt (node_ID (demo_node 3))) < 8"
    by code_simp+
  then show ?thesis
    using Add_keeps_recent [OF demo_rt_inv, of "demo_node 3"] by (simp add: node_id_ok_def demo_id_def demo_node_def)
qed

text \<open>
  C31. \<open>FindClosest\<close> returns the nodes of the table that are closest to the target in the XOR
  distance: as many as asked for or as there are, each once, nearest first, and every node
  of the table that is left out is strictly farther than every one returned.
\<close>
theorem FindClosest_closest:
  assumes "sort_slice (closer target) (srt (closer target))" and "rt_inv rt" and "0 \<le> cnt"
  shows "\<exists>ns. FindClosest srt target cnt rt = (Ret ns :: ('e, Node list) outcome) \<and>
    int (length ns) = min cnt (Count rt) \<and> distinct (map node_ID ns) \<and> set ns \<subseteq> set (concat (buckets rt)) \<and>
    sorted_wrt (\<lambda>a b. distance target (node_ID a) \<le> distance target (node_ID b)) ns \<and>
    (\<forall>a b. a \<in> set ns \<and> b \<in> set (concat (buckets rt)) \<and> b \<notin> set ns \<longrightarrow>
       distance target (node_ID a) < distance target (node_ID b))"
proof -
  let ?all = "concat (buckets rt)"
  let ?s = "srt (closer target) ?all"
  let ?ns = "take (nat cnt) ?s"
  have ms: "mset ?s = mset ?all" by (rule sort_slice.srt_mset [OF assms(1)])
  have st: "set ?s = set ?all" by (rule mset_eq_setD [OF ms])
  have len: "length ?s = length ?all" by (rule mset_eq_length [OF ms])
  have d: "distinct (map node_ID ?s)"
    using table_distinct [OF assms(2)] ms by (metis mset_eq_imp_distinct_iff mset_map)
  have so: "sorted_wrt (\<lambda>a b. distance target (node_ID a) \<le> distance target (node_ID b)) ?s"
    using sort_slice.srt_ordered [OF assms(1), of ?all] by (simp add: closer_iff not_less)
  have "FindClosest srt target cnt rt = (Ret ?ns :: ('e, Node list) outcome)"
    using assms(3) by (auto simp: FindClosest_def Let_def go_slice_def)
  moreover have "int (length ?ns) = min cnt (Count rt)" using assms(3) by (simp add: Count_sum len)
  moreover have "distinct (map node_ID ?ns)" using d by (simp add: take_map [symmetric])
  moreover have "set ?ns \<subseteq> set ?all" using set_take_subset [of "nat cnt" ?s] st by simp
  moreover have "sorted_wrt (\<lambda>a b. distance target (node_ID a) \<le> distance target (node_ID b)) ?ns"
    using so by (rule sorted_wrt_take)
  moreover have "distance target (node_ID a) < distance target (node_ID b)"
    if a: "a \<in> set ?ns" and b: "b \<in> set ?all" "b \<notin> set ?ns" for a b
  proof -
    have "set ?s = set ?ns \<union> set (drop (nat cnt) ?s)" by (metis append_take_drop_id set_append)
    then have "b \<in> set (drop (nat cnt) ?s)" using b st by blast
    then have "\<not> closer target b a" by (rule sort_slice.srt_take_least [OF assms(1) a])
    moreover have as: "a \<in> set ?s" "b \<in> set ?s" using set_take_subset [of "nat cnt" ?s] a b st by auto
    have "node_ID a \<noteq> node_ID b" using d as a b(2) by (metis distinct_map inj_onD)
    moreover have "node_id_ok (node_ID x)" if "x \<in> set ?all" for x
      using that rt_inv_node [OF assms(2)] unfolding in_table by blast
    ultimately show ?thesis
      using distance_inject [of "node_ID a" "node_ID b" target] as st by (simp add: closer_iff not_less le_less)
  qed
  ultimately show ?thesis by blast
qed

theorem FindClosest_closest_witness:
  "\<exists>ns. FindClosest isort_by (demo_id 3) 1 (fold Add_node [demo_node 1, demo_node 2] (NewRoutingTable (demo_id 0)))
     = (Ret ns :: (unit, Node list) outcome) \<and> int (length ns) =
       min 1 (Count (fold Add_node [demo_node 1, demo_node 2] (NewRoutingTable (demo_id 0))))"
  using FindClosest_closest [of "demo_id 3" isort_by, OF closer_order.isort.sort_slice_axioms demo_rt_inv, of 1] by auto

text \<open>
  \<open>CompareDistance\<close> orders identifiers by the 160-bit number their XOR with the target
  is; the target itself is the one identifier at distance zero, the distance is symmetric,
  and two different identifiers are never equally far from a target.
\<close>
theorem CompareDistance_xor_metric:
  assumes "node_id_ok t" and "node_id_ok a" and "node_id_ok b"
  shows "(CompareDistance t a b = - 1 \<longleftrightarrow> distance t a < distance t b) \<and>
    (CompareDistance t a b = 1 \<longleftrightarrow> distance t a > distance t b) \<and> (CompareDistance t a b = 0 \<longleftrightarrow> a = b) \<and>
    distance t a = distance a t \<and> (distance t a = 0 \<longleftrightarrow> t = a)"
proof -
  have "distance t a = distance a t" by (simp add: distance_def XORDistance_def xor.commute)
  moreover have "distance t t = 0"
  proof -
    have "num (map (\<lambda>i. 0) xs) = 0" for xs :: "nat list" by (induction xs) (simp_all add: num_Cons, simp add: num_def)
    then show ?thesis by (simp add: distance_def XORDistance_def)
  qed
  ultimately show ?thesis
    using distance_inject [OF assms(2,3), of t] distance_inject [OF assms(1,2), of t] by (auto simp: CompareDistance_num)
qed

theorem CompareDistance_xor_metric_witness:
  "CompareDistance (demo_id 3) (demo_id 1) (demo_id 4) = - 1 \<longleftrightarrow> distance (demo_id 3) (demo_id 1) < distance (demo_id 3) (demo_id 4)"
  using CompareDistance_xor_metric [of "demo_id 3" "demo_id 1" "demo_id 4"] by (simp add: node_id_ok_def demo_id_def)

text \<open>
  Node lists survive the compact encoding: what \<open>CompactNodesEncode\<close> writes for nodes with
  IPv4 addresses, \<open>CompactNodesDecode\<close> reads back, also when an incomplete entry follows.
\<close>
theorem compact_nodes_roundtrip:
  assumes "list_all node_ok nodes" and "length rest < 26"
  shows "CompactNodesDecode (CompactNodesEncode nodes @ rest) = nodes"
  using compact_nodes.dec_chunks [OF assms] by (simp add: CompactNodesDecode_def CompactNodesEncode_def)

theorem compact_nodes_roundtrip_witness:
  "CompactNodesDecode (CompactNodesEncode [demo_node 1, demo_node 2] @ [1, 2, 3]) = [demo_node 1, demo_node 2]"
  by (rule compact_nodes_roundtrip) (simp_all add: demo_node_def demo_id_def node_ok_def node_id_ok_def)

end
