(* ===== verification/Bencode.thy ===== *)
theory Bencode
  imports Go_Codec Go_Maps
begin

text \<open>
  The bencode decoder, \<^verbatim>\<open>src/bencode/decode.go\<close>, translated function by function, and the
  grammar it accepts. The cursor \<open>*pos\<close> that the Go functions advance is an argument and a
  part of the result; on an error its value is not observed by any caller. The recursion
  between \<open>decode\<close>, \<open>DecodeList\<close> and \<open>DecodeDict\<close> is the code's own; that it stops
  follows from every decoded value advancing the cursor.
\<close>

section \<open>The model\<close>

text \<open>The dynamic type of a decoded \<open>interface{}\<close>: string, int, []interface{}, map[string]interface{}.\<close>

datatype bvalue =
    BStr string
  | BInt int
  | BList "bvalue list"
  | BDict "(string \<times> bvalue) list"

datatype bencode_error =
    Invalid_string_length | Missing_colon | Num_error | Length_exceeds_data
  | Invalid_integer
  | List_unterminated
  | Key_not_string | In_dict_key bencode_error | In_dict_value string bencode_error
  | Dict_unterminated
  | Empty_input | Unexpected_end | Unsupported_type char

type_synonym 'a parsed = "(bencode_error, 'a \<times> nat) outcome"

function scan_length :: "string \<Rightarrow> nat \<Rightarrow> (bencode_error, nat) outcome" where
  "scan_length input pos =
     (if pos < length input \<and> input ! pos \<noteq> CHR '':''
      then if \<not> is_digit (input ! pos) then Err Invalid_string_length
           else scan_length input (Suc pos)
      else Ret pos)"
  by pat_completeness auto
termination
  by (relation "measure (\<lambda>(input, pos). length input - pos)") auto

declare scan_length.simps [simp del]

definition atoi :: "string \<Rightarrow> (bencode_error, int) outcome" where
  "atoi s = (case Atoi s of None \<Rightarrow> Err Num_error | Some i \<Rightarrow> Ret i)"

definition DecodeString :: "string \<Rightarrow> nat \<Rightarrow> string parsed" where
  "DecodeString input start =
     go_bind (scan_length input start) (\<lambda>pos.
       if pos \<ge> length input then Err Missing_colon
       else go_bind (atoi (sub input start pos)) (\<lambda>len.
         let pos = Suc pos; stop = wrap64 (int pos + len) in
         if stop > int (length input) then Err Length_exceeds_data
         else go_bind (go_slice input (int pos) stop) (\<lambda>result.
           Ret (result, nat stop))))"

function scan_e :: "string \<Rightarrow> nat \<Rightarrow> nat" where
  "scan_e input pos =
     (if pos < length input \<and> input ! pos \<noteq> CHR ''e'' then scan_e input (Suc pos) else pos)"
  by pat_completeness auto
termination
  by (relation "measure (\<lambda>(input, pos). length input - pos)") auto

declare scan_e.simps [simp del]

definition DecodeInteger :: "string \<Rightarrow> nat \<Rightarrow> int parsed" where
  "DecodeInteger input p =
     (let start = Suc p; pos = scan_e input start in
      if pos \<ge> length input then Err Invalid_integer
      else go_bind (atoi (sub input start pos)) (\<lambda>number. Ret (number, Suc pos)))"

text \<open>
  \<open>decode\<close> with the loops of \<open>DecodeList\<close> and \<open>DecodeDict\<close>. \<open>list_loop\<close> has the
  slice built so far as its last argument, \<open>dict_loop\<close> the two maps.
\<close>

function decode :: "string \<Rightarrow> nat \<Rightarrow> bvalue parsed"
  and list_loop :: "string \<Rightarrow> nat \<Rightarrow> bvalue list \<Rightarrow> bvalue list parsed"
  and dict_loop :: "string \<Rightarrow> nat \<Rightarrow> (string, bvalue) gomap \<Rightarrow> (string, string) gomap
        \<Rightarrow> ((string, bvalue) gomap \<times> (string, string) gomap) parsed" where
  "decode input pos =
     (if pos \<ge> length input then Err Unexpected_end
      else if is_digit (input ! pos) then
        go_bind (DecodeString input pos) (\<lambda>(s, pos). Ret (BStr s, pos))
      else if input ! pos = CHR ''i'' then
        go_bind (DecodeInteger input pos) (\<lambda>(i, pos). Ret (BInt i, pos))
      else if input ! pos = CHR ''l'' then
        go_bind (list_loop input (Suc pos) []) (\<lambda>(vs, pos). Ret (BList vs, pos))
      else if input ! pos = CHR ''d'' then
        go_bind (dict_loop input (Suc pos) [] []) (\<lambda>((dict, _), pos). Ret (BDict dict, pos))
      else Err (Unsupported_type (input ! pos)))"
| "list_loop input pos result =
     (if pos \<ge> length input then Err List_unterminated
      else if input ! pos = CHR ''e'' then Ret (result, Suc pos)
      else (case decode input pos of
          Ret (value, pos') \<Rightarrow> list_loop input pos' (result @ [value])
        | Err e \<Rightarrow> Err e
        | Panic p \<Rightarrow> Panic p))"
| "dict_loop input pos result rawValues =
     (if pos \<ge> length input then Err Dict_unterminated
      else if input ! pos = CHR ''e'' then Ret ((result, rawValues), Suc pos)
      else if \<not> is_digit (input ! pos) then Err Key_not_string
      else (case DecodeString input pos of
          Err e \<Rightarrow> Err (In_dict_key e)
        | Panic p \<Rightarrow> Panic p
        | Ret (key, startPos) \<Rightarrow>
            (case decode input startPos of
               Err e \<Rightarrow> Err (In_dict_value key e)
             | Panic p \<Rightarrow> Panic p
             | Ret (value, pos') \<Rightarrow>
                 dict_loop input pos' (map_put key value result)
                   (map_put key (sub input startPos pos') rawValues))))"
  by pat_completeness auto

lemma scan_length_bounds:
  "scan_length input pos = Ret p \<Longrightarrow> pos \<le> length input \<Longrightarrow> pos \<le> p \<and> p \<le> length input"
proof (induction input pos rule: scan_length.induct)
  case (1 input pos)
  then show ?case by (subst (asm) (2) scan_length.simps) (auto split: if_splits)
qed

lemma DecodeString_progress:
  assumes "DecodeString input pos = Ret (s, p)" and "pos < length input"
  shows "pos < p \<and> p \<le> length input"
proof -
  from assms(1) obtain q stop where q: "scan_length input pos = Ret q" "q < length input"
    and stop: "int (Suc q) \<le> stop" "stop \<le> int (length input)" "p = nat stop"
    by (auto simp: DecodeString_def Let_def go_slice_Ret split: if_splits)
  then show ?thesis using scan_length_bounds [OF q(1)] assms(2) by auto
qed

lemma scan_e_bounds: "pos \<le> length input \<Longrightarrow> pos \<le> scan_e input pos \<and> scan_e input pos \<le> length input"
proof (induction input pos rule: scan_e.induct)
  case (1 input pos)
  then show ?case by (subst (1 2) scan_e.simps) auto
qed

lemma DecodeInteger_progress:
  "DecodeInteger input pos = Ret (i, p) \<Longrightarrow> pos < length input \<Longrightarrow> pos < p \<and> p \<le> length input"
  using scan_e_bounds [of "Suc pos" input]
  by (auto simp: DecodeInteger_def Let_def split: if_splits)

lemma partial_progress:
  "decode_list_loop_dict_loop_dom (Inl (input, pos)) \<Longrightarrow>
     decode input pos = Ret (v, p) \<Longrightarrow> pos < p \<and> p \<le> length input"
  "decode_list_loop_dict_loop_dom (Inr (Inl (input, pos, vs))) \<Longrightarrow>
     list_loop input pos vs = Ret (ws, p) \<Longrightarrow> pos < p \<and> p \<le> length input"
  "decode_list_loop_dict_loop_dom (Inr (Inr (input, pos, m, r))) \<Longrightarrow>
     dict_loop input pos m r = Ret (x, p) \<Longrightarrow> pos < p \<and> p \<le> length input"
proof (induction input pos and input pos vs and input pos m r
    arbitrary: v p and ws p and x p rule: decode_list_loop_dict_loop.pinduct)
  case (1 input pos)
  show ?case
    using 1 DecodeString_progress [of input pos] DecodeInteger_progress [of input pos]
    by (fastforce simp: decode.psimps split: if_splits)
next
  case (2 input pos result)
  then show ?case
    by (fastforce simp: list_loop.psimps split: if_splits outcome.splits)
next
  case (3 input pos result raw)
  then show ?case
    using DecodeString_progress [of input pos]
    by (fastforce simp: dict_loop.psimps split: if_splits outcome.splits)
qed

termination decode
proof (relation "measure (\<lambda>x. case x of
      Inl (input, pos) \<Rightarrow> 2 * (length input - pos)
    | Inr (Inl (input, pos, _)) \<Rightarrow> 2 * (length input - pos) + 1
    | Inr (Inr (input, pos, _, _)) \<Rightarrow> 2 * (length input - pos) + 1)")
qed (auto simp: not_le dest!: partial_progress(1) dest: DecodeString_progress)

definition DecodeList :: "string \<Rightarrow> nat \<Rightarrow> bvalue list parsed" where
  "DecodeList input pos = list_loop input (Suc pos) []"

definition DecodeDict ::
    "string \<Rightarrow> nat \<Rightarrow> ((string, bvalue) gomap \<times> (string, string) gomap) parsed" where
  "DecodeDict input pos = dict_loop input (Suc pos) [] []"

definition Decode :: "string \<Rightarrow> (bencode_error, bvalue) outcome" where
  "Decode bencodedString =
     (if bencodedString = [] then Err Empty_input
      else go_bind (decode bencodedString 0) (\<lambda>(v, _). Ret v))"

declare decode.simps [simp del] list_loop.simps [simp del] dict_loop.simps [simp del]

text \<open>A Go string has fewer than \<open>2 ^ 63\<close> bytes.\<close>

definition go_string :: "string \<Rightarrow> bool" where
  "go_string s \<longleftrightarrow> int (length s) < 2 ^ 63"

section \<open>Type assertions\<close>

text \<open>
  The type assertions \<open>v.(string)\<close>, \<open>v.(int)\<close>, \<open>v.([]interface{})\<close> and
  \<open>v.(map[string]interface{})\<close> on a map entry, which fail on a missing key too.
\<close>

fun as_string :: "bvalue option \<Rightarrow> string option" where
  "as_string (Some (BStr s)) = Some s" | "as_string _ = None"

fun as_int :: "bvalue option \<Rightarrow> int option" where
  "as_int (Some (BInt i)) = Some i" | "as_int _ = None"

fun as_list :: "bvalue option \<Rightarrow> bvalue list option" where
  "as_list (Some (BList vs)) = Some vs" | "as_list _ = None"

fun as_dict :: "bvalue option \<Rightarrow> (string, bvalue) gomap option" where
  "as_dict (Some (BDict m)) = Some m" | "as_dict _ = None"

lemma as_dict_Some: "as_dict x = Some m \<longleftrightarrow> x = Some (BDict m)"
  by (cases x rule: as_dict.cases) auto

section \<open>The accepted grammar\<close>

text \<open>
  \<open>benc v s\<close>: the text \<open>s\<close> is a bencoding of \<open>v\<close> that the decoder accepts. The
  grammar is BEP 3's, less the rules the decoder does not enforce: numbers may have leading
  zeros and a plus sign, dictionary keys come in any order and may repeat. A dictionary's
  entries are listed with the text of each value.
\<close>

type_synonym entry = "string \<times> bvalue \<times> string"

definition put_values :: "entry list \<Rightarrow> (string, bvalue) gomap \<Rightarrow> (string, bvalue) gomap" where
  "put_values es m = fold (\<lambda>(k, v, _). map_put k v) es m"

definition put_raws :: "entry list \<Rightarrow> (string, string) gomap \<Rightarrow> (string, string) gomap" where
  "put_raws es m = fold (\<lambda>(k, _, r). map_put k r) es m"

definition enc_str :: "string \<Rightarrow> string \<Rightarrow> bool" where
  "enc_str s t \<longleftrightarrow> (\<exists>ds. t = ds @ CHR '':'' # s \<and> list_all is_digit ds \<and> Atoi ds = Some (int (length s)))"

inductive benc :: "bvalue \<Rightarrow> string \<Rightarrow> bool"
  and benc_list :: "bvalue list \<Rightarrow> string \<Rightarrow> bool"
  and benc_dict :: "entry list \<Rightarrow> string \<Rightarrow> bool" where
  benc_str: "enc_str s t \<Longrightarrow> benc (BStr s) t"
| benc_int: "Atoi t = Some i \<Longrightarrow> CHR ''e'' \<notin> set t \<Longrightarrow> benc (BInt i) (CHR ''i'' # t @ ''e'')"
| benc_list: "benc_list vs t \<Longrightarrow> benc (BList vs) (CHR ''l'' # t @ ''e'')"
| benc_dict: "benc_dict es t \<Longrightarrow> benc (BDict (put_values es [])) (CHR ''d'' # t @ ''e'')"
| list_nil: "benc_list [] []"
| list_cons: "benc v s \<Longrightarrow> benc_list vs t \<Longrightarrow> benc_list (v # vs) (s @ t)"
| dict_nil: "benc_dict [] []"
| dict_cons: "enc_str k ks \<Longrightarrow> benc v s \<Longrightarrow> benc_dict es t \<Longrightarrow> benc_dict ((k, v, s) # es) (ks @ s @ t)"

inductive_cases benc_listE [elim!]: "benc_list [] t" "benc_list (v # vs) t"
inductive_cases benc_dictE: "benc_dict es t"

lemma put_values_simps [simp]:
  "put_values [] m = m" "put_values ((k, v, r) # es) m = put_values es (map_put k v m)"
  by (simp_all add: put_values_def)

lemma put_raws_simps [simp]:
  "put_raws [] m = m" "put_raws ((k, v, r) # es) m = put_raws es (map_put k r m)"
  by (simp_all add: put_raws_def)

section \<open>The decoder accepts nothing else\<close>

lemma scan_length_digits:
  "scan_length input pos = Ret p \<Longrightarrow> pos \<le> length input \<Longrightarrow>
     list_all is_digit (sub input pos p) \<and> (p < length input \<longrightarrow> input ! p = CHR '':'')"
proof (induction input pos rule: scan_length.induct)
  case (1 input pos)
  show ?case
  proof (cases "pos < length input \<and> input ! pos \<noteq> CHR '':''")
    case True
    with 1 have r: "scan_length input (Suc pos) = Ret p" and d: "is_digit (input ! pos)"
      by (simp_all add: scan_length.simps [of input pos] split: if_splits)
    have b: "Suc pos \<le> p" "p \<le> length input"
      using scan_length_bounds [OF r] True by auto
    then have "sub input pos p = input ! pos # sub input (Suc pos) p"
      by (simp add: sub_Cons)
    then show ?thesis using 1 True r d by simp
  next
    case False
    with 1 have "p = pos" by (auto simp add: scan_length.simps [of input pos])
    with False show ?thesis by (auto simp: sub_def)
  qed
qed

lemma DecodeString_sound:
  assumes "DecodeString input pos = Ret (s, p)" and "pos < length input" and "go_string input"
  shows "enc_str s (sub input pos p)"
proof -
  from assms(1) obtain q len where q: "scan_length input pos = Ret q" "q < length input"
    and len: "Atoi (sub input pos q) = Some len"
    and sl: "go_slice input (int (Suc q)) (wrap64 (int (Suc q) + len)) = (Ret s :: (bencode_error, _) outcome)"
    and p: "p = nat (wrap64 (int (Suc q) + len))"
    by (auto simp: DecodeString_def atoi_def Let_def split: if_splits option.splits)
  have ds: "list_all is_digit (sub input pos q)" and colon: "input ! q = CHR '':''"
    using scan_length_digits [OF q(1)] q(2) assms(2) by auto
  have l: "0 \<le> len" "len < 2 ^ 63" using Atoi_digits [OF ds len] by auto
  have w: "wrap64 (int (Suc q) + len) = int (Suc q) + len"
  proof (rule ccontr)
    assume "wrap64 (int (Suc q) + len) \<noteq> int (Suc q) + len"
    then have "2 ^ 63 \<le> int (Suc q) + len" using l(1) wrap64_nonneg [of "int (Suc q) + len"] by linarith
    moreover have "int (Suc q) + len < 2 ^ 64" using l q(2) assms(3) by (simp add: go_string_def)
    ultimately have "wrap64 (int (Suc q) + len) < int (Suc q)" using l by (simp add: wrap64_overflow)
    with sl show False by (simp add: go_slice_Ret)
  qed
  have b: "pos \<le> q" using scan_length_bounds [OF q(1)] assms(2) by simp
  have pn: "p = Suc q + nat len" and pl: "p \<le> length input" and s: "s = sub input (Suc q) p"
    using sl [unfolded w] p [unfolded w] l(1) by (auto simp: go_slice_Ret nat_add_distrib)
  have "sub input pos p = sub input pos q @ input ! q # sub input (Suc q) p"
    using b pn pl sub_split [of pos q p input] sub_Cons [of q p input] by simp
  moreover have "len = int (length s)" using s pn pl l(1) by simp
  ultimately show ?thesis
    unfolding enc_str_def using ds len s colon by (intro exI [of _ "sub input pos q"]) simp
qed

lemma scan_e_no_e:
  "pos \<le> length input \<Longrightarrow> CHR ''e'' \<notin> set (sub input pos (scan_e input pos)) \<and>
     (scan_e input pos < length input \<longrightarrow> input ! scan_e input pos = CHR ''e'')"
proof (induction input pos rule: scan_e.induct)
  case (1 input pos)
  show ?case
  proof (cases "pos < length input \<and> input ! pos \<noteq> CHR ''e''")
    case True
    then have e: "scan_e input pos = scan_e input (Suc pos)" by (subst scan_e.simps) simp
    have "sub input pos (scan_e input pos) = input ! pos # sub input (Suc pos) (scan_e input pos)"
      using True scan_e_bounds [of "Suc pos" input] by (intro sub_Cons) (auto simp: e)
    then show ?thesis using 1 True by (auto simp: e)
  next
    case False
    then have "scan_e input pos = pos" by (subst scan_e.simps) auto
    with False show ?thesis by (auto simp: sub_def)
  qed
qed

lemma DecodeInteger_sound:
  assumes "DecodeInteger input pos = Ret (i, p)" and "pos < length input" and "input ! pos = CHR ''i''"
  shows "benc (BInt i) (sub input pos p)"
proof -
  let ?q = "scan_e input (Suc pos)"
  from assms(1) have q: "?q < length input" and i: "Atoi (sub input (Suc pos) ?q) = Some i"
    and p: "p = Suc ?q"
    by (auto simp: DecodeInteger_def atoi_def Let_def split: if_splits option.splits)
  have b: "Suc pos \<le> ?q" using scan_e_bounds [of "Suc pos" input] assms(2) by simp
  have e: "CHR ''e'' \<notin> set (sub input (Suc pos) ?q)" "input ! ?q = CHR ''e''"
    using scan_e_no_e [of "Suc pos" input] assms(2) q by auto
  have "sub input ?q p = ''e''" using q e(2) by (simp add: p sub_Cons) (simp add: sub_def)
  then have "sub input pos p = CHR ''i'' # sub input (Suc pos) ?q @ ''e''"
    using q b p assms(2,3) sub_Cons [of pos p input] sub_split [of "Suc pos" ?q p input] by simp
  then show ?thesis using benc_int [OF i e(1)] by simp
qed

lemma decode_progress_aux:
  "decode input pos = Ret (v, p) \<Longrightarrow> pos < p \<and> p \<le> length input"
  "list_loop input pos vs = Ret (ws, p) \<Longrightarrow> pos < p \<and> p \<le> length input"
  "dict_loop input pos m r = Ret (x, p) \<Longrightarrow> pos < p \<and> p \<le> length input"
proof (induction input pos and input pos vs and input pos m r
    arbitrary: v p and ws p and x p rule: decode_list_loop_dict_loop.induct)
  case (1 input pos)
  then show ?case
    using DecodeString_progress [of input pos] DecodeInteger_progress [of input pos]
    by (fastforce simp: decode.simps [of input pos] split: if_splits)
next
  case (2 input pos result)
  then show ?case
    by (fastforce simp: list_loop.simps [of input pos] split: if_splits outcome.splits)
next
  case (3 input pos result raw)
  then show ?case
    using DecodeString_progress [of input pos]
    by (fastforce simp: dict_loop.simps [of input pos] split: if_splits outcome.splits)
qed

lemmas decode_progress = decode_progress_aux(1)

lemma decode_sound_aux:
  "go_string input \<Longrightarrow> decode input pos = Ret (v, p) \<Longrightarrow> benc v (sub input pos p)"
  "go_string input \<Longrightarrow> list_loop input pos vs = Ret (ws, p) \<Longrightarrow>
     pos < p \<and> p \<le> length input \<and>
     (\<exists>us t. ws = vs @ us \<and> benc_list us t \<and> sub input pos p = t @ ''e'')"
  "go_string input \<Longrightarrow> dict_loop input pos m r = Ret (x, p) \<Longrightarrow>
     pos < p \<and> p \<le> length input \<and>
     (\<exists>es t. x = (put_values es m, put_raws es r) \<and> benc_dict es t \<and> sub input pos p = t @ ''e'')"
proof (induction input pos and input pos vs and input pos m r
    arbitrary: v p and ws p and x p rule: decode_list_loop_dict_loop.induct)
  case (1 input pos)
  from 1 have pos: "pos < length input" by (auto simp: decode.simps split: if_splits)
  then consider (str) "is_digit (input ! pos)"
    | (int) "\<not> is_digit (input ! pos)" "input ! pos = CHR ''i''"
    | (list) "\<not> is_digit (input ! pos)" "input ! pos = CHR ''l''"
    | (dict) "\<not> is_digit (input ! pos)" "input ! pos = CHR ''d''"
    using "1.prems" by (auto simp: decode.simps split: if_splits)
  then show ?case
  proof cases
    case str
    then show ?thesis
      using "1.prems" pos DecodeString_sound [of input pos]
      by (auto simp: decode.simps intro: benc_str)
  next
    case int
    then show ?thesis
      using "1.prems" pos DecodeInteger_sound [of input pos] by (auto simp: decode.simps)
  next
    case list
    with "1.prems" pos obtain vs where r: "list_loop input (Suc pos) [] = Ret (vs, p)"
      and v: "v = BList vs" by (auto simp: decode.simps)
    with 1 pos list obtain t where t: "benc_list vs t" "sub input (Suc pos) p = t @ ''e''"
      "Suc pos < p" "p \<le> length input" by fastforce
    then show ?thesis using pos list(2) v sub_Cons [of pos p input] by (auto intro: benc_list)
  next
    case dict
    with "1.prems" pos obtain m r' where r: "dict_loop input (Suc pos) [] [] = Ret ((m, r'), p)"
      and v: "v = BDict m" by (auto simp: decode.simps)
    with 1 pos dict obtain es t where t: "m = put_values es []" "benc_dict es t"
      "sub input (Suc pos) p = t @ ''e''" "Suc pos < p" "p \<le> length input" by fastforce
    then show ?thesis using pos dict(2) v sub_Cons [of pos p input] by (auto intro: benc_dict)
  qed
next
  case (2 input pos result)
  show ?case
  proof (cases "input ! pos = CHR ''e''")
    case True
    with 2 show ?thesis by (auto simp: list_loop.simps sub_single intro: list_nil split: if_splits)
  next
    case False
    with "2.prems" obtain v p' where pos: "pos < length input" and d: "decode input pos = Ret (v, p')"
      and l: "list_loop input p' (result @ [v]) = Ret (ws, p)"
      by (auto simp: list_loop.simps [of input pos] split: if_splits outcome.splits)
    have "benc v (sub input pos p')" using 2 pos False d by simp
    moreover obtain us t where "p' < p" "p \<le> length input" "ws = (result @ [v]) @ us"
      "benc_list us t" "sub input p' p = t @ ''e''"
      using 2 pos False d l by fastforce
    ultimately show ?thesis
      using decode_progress [OF d] sub_split [of pos p' p input]
      by (auto intro!: exI [of _ "v # us"] exI [of _ "sub input pos p' @ t"] list_cons)
  qed
next
  case (3 input pos result raw)
  show ?case
  proof (cases "input ! pos = CHR ''e''")
    case True
    with 3 show ?thesis
      by (auto simp: dict_loop.simps sub_single intro!: exI [of _ "[]"] dict_nil split: if_splits)
  next
    case False
    with "3.prems" obtain k q v p' where pos: "pos < length input" "is_digit (input ! pos)"
      and k: "DecodeString input pos = Ret (k, q)" and d: "decode input q = Ret (v, p')"
      and l: "dict_loop input p' (map_put k v result) (map_put k (sub input q p') raw) = Ret (x, p)"
      by (auto simp: dict_loop.simps [of input pos] split: if_splits outcome.splits)
    have ks: "enc_str k (sub input pos q)" using DecodeString_sound [OF k pos(1)] 3 by simp
    have v: "benc v (sub input q p')" using 3 pos False k d by simp
    obtain es t where t: "p' < p" "p \<le> length input"
      "x = (put_values es (map_put k v result), put_raws es (map_put k (sub input q p') raw))"
      "benc_dict es t" "sub input p' p = t @ ''e''"
      using "3.IH"(2) [OF _ False _ k refl d refl "3.prems"(1) l] pos by auto
    have "sub input pos p = sub input pos q @ sub input q p' @ t @ ''e''"
      using decode_progress [OF d] DecodeString_progress [OF k pos(1)] t
        sub_split [of pos q p input] sub_split [of q p' p input] by simp
    then show ?thesis
      using ks v t decode_progress [OF d] DecodeString_progress [OF k pos(1)]
      by (auto intro!: exI [of _ "(k, v, sub input q p') # es"]
          exI [of _ "sub input pos q @ sub input q p' @ t"] dict_cons)
  qed
qed

lemma decode_sound: "decode input pos = Ret (v, p) \<Longrightarrow> go_string input \<Longrightarrow> benc v (sub input pos p)"
  by (rule decode_sound_aux(1))

lemma DecodeDict_sound:
  assumes "DecodeDict input pos = Ret ((m, raws), p)" and "go_string input"
  shows "\<exists>es t. m = put_values es [] \<and> raws = put_raws es [] \<and> benc_dict es t \<and>
           sub input (Suc pos) p = t @ ''e'' \<and> Suc pos < p \<and> p \<le> length input"
  using decode_sound_aux(3) [OF assms(2) assms(1) [unfolded DecodeDict_def]] by auto

section \<open>The decoder accepts all of it\<close>

lemma scan_length_complete:
  "list_all is_digit ds \<Longrightarrow> scan_length (pre @ ds @ CHR '':'' # post) (length pre) = Ret (length pre + length ds)"
proof (induction ds arbitrary: pre)
  case Nil
  show ?case by (subst scan_length.simps) (simp add: nth_append)
next
  case (Cons c ds)
  then show ?case
    using Cons.IH [of "pre @ [c]"] is_digit_not(1) [of c]
    by (subst scan_length.simps) (simp add: nth_append)
qed

lemma DecodeString_complete:
  assumes "enc_str s t" and "go_string (pre @ t @ post)"
  shows "DecodeString (pre @ t @ post) (length pre) = Ret (s, length pre + length t)"
proof -
  from assms(1) obtain ds where t: "t = ds @ CHR '':'' # s" and ds: "list_all is_digit ds"
    and len: "Atoi ds = Some (int (length s))" by (auto simp: enc_str_def)
  let ?input = "pre @ ds @ CHR '':'' # s @ post" and ?q = "length pre + length ds"
  have w: "wrap64 (int (Suc ?q) + int (length s)) = int (Suc ?q + length s)"
    using assms(2) by (simp add: t go_string_def wrap64_nonneg)
  have sub1: "sub ?input (length pre) ?q = ds" by simp
  have "sub ?input (Suc ?q) (Suc ?q + length s) = s"
    using sub_append_mid [of "pre @ ds @ '':''" s post] by simp
  moreover have "go_slice ?input (int (Suc ?q)) (int (Suc ?q + length s)) =
      (Ret (sub ?input (Suc ?q) (Suc ?q + length s)) :: (bencode_error, _) outcome)"
    by (rule go_slice_nat) simp_all
  ultimately have "go_slice ?input (int (Suc ?q)) (int (Suc ?q + length s)) =
      (Ret s :: (bencode_error, _) outcome)" by simp
  then show ?thesis
    unfolding DecodeString_def
    by (simp add: t scan_length_complete [OF ds] sub1 atoi_def len w Let_def
        del: of_nat_Suc of_nat_add)
qed

lemma scan_e_complete:
  "CHR ''e'' \<notin> set t \<Longrightarrow> scan_e (pre @ t @ CHR ''e'' # post) (length pre) = length pre + length t"
proof (induction t arbitrary: pre)
  case Nil
  show ?case by (subst scan_e.simps) (simp add: nth_append)
next
  case (Cons c t)
  then show ?case
    using Cons.IH [of "pre @ [c]"] by (subst scan_e.simps) (auto simp: nth_append)
qed

lemma DecodeInteger_complete:
  assumes "Atoi t = Some i" and "CHR ''e'' \<notin> set t"
  shows "DecodeInteger (pre @ CHR ''i'' # t @ CHR ''e'' # post) (length pre)
           = Ret (i, length pre + length t + 2)"
  using scan_e_complete [OF assms(2), of "pre @ ''i''" post]
    sub_append_mid [of "pre @ ''i''" t "CHR ''e'' # post"] assms(1)
  by (simp add: DecodeInteger_def atoi_def)

lemma enc_str_hd: "enc_str s t \<Longrightarrow> \<exists>c u. t = c # u \<and> is_digit c"
proof -
  assume "enc_str s t"
  then obtain ds where "t = ds @ CHR '':'' # s" "list_all is_digit ds" "Atoi ds \<noteq> None"
    by (auto simp: enc_str_def)
  then show ?thesis by (cases ds) (auto simp: Atoi_def)
qed

lemma benc_hd: "benc v t \<Longrightarrow> \<exists>c u. t = c # u \<and> c \<noteq> CHR ''e''"
  by (erule benc.cases) (auto dest!: enc_str_hd is_digit_not(2))

lemma nth_mid [simp]: "(pre @ c # post) ! length pre = c"
  by (simp add: nth_append)

lemma not_digits [simp]: "\<not> is_digit CHR ''i''" "\<not> is_digit CHR ''l''" "\<not> is_digit CHR ''d''"
  by (simp_all add: is_digit_def)

lemma decode_complete_aux:
  "benc v t \<Longrightarrow> (\<And>pre post. go_string (pre @ t @ post) \<Longrightarrow>
     decode (pre @ t @ post) (length pre) = Ret (v, length pre + length t))"
  "benc_list vs t \<Longrightarrow> (\<And>pre post acc. go_string (pre @ t @ CHR ''e'' # post) \<Longrightarrow>
     list_loop (pre @ t @ CHR ''e'' # post) (length pre) acc = Ret (acc @ vs, length pre + length t + 1))"
  "benc_dict es t \<Longrightarrow> (\<And>pre post m r. go_string (pre @ t @ CHR ''e'' # post) \<Longrightarrow>
     dict_loop (pre @ t @ CHR ''e'' # post) (length pre) m r
       = Ret ((put_values es m, put_raws es r), length pre + length t + 1))"
proof (induction rule: benc_benc_list_benc_dict.inducts)
  case (benc_str s t)
  then obtain c u where "t = c # u" "is_digit c" using enc_str_hd by blast
  then show ?case
    using benc_str DecodeString_complete [of s t pre post] by (subst decode.simps) simp
next
  case (benc_int t i)
  then show ?case using DecodeInteger_complete [of t i pre post] by (subst decode.simps) simp
next
  case (benc_list vs t)
  then show ?case using benc_list.IH [of "pre @ ''l''" post] by (subst decode.simps) simp
next
  case (benc_dict es t)
  then show ?case using benc_dict.IH [of "pre @ ''d''" post] by (subst decode.simps) simp
next
  case list_nil
  then show ?case by (subst list_loop.simps) simp
next
  case (list_cons v s vs t)
  obtain c u where s: "s = c # u" "c \<noteq> CHR ''e''" using benc_hd [OF list_cons(1)] by blast
  have "decode (pre @ s @ t @ CHR ''e'' # post) (length pre) = Ret (v, length pre + length s)"
    using list_cons by simp
  then show ?case
    using list_cons.IH(2) [of "pre @ s" post "acc @ [v]"] list_cons.prems s
    by (subst list_loop.simps) simp
next
  case dict_nil
  then show ?case by (subst dict_loop.simps) simp
next
  case (dict_cons k ks v s es t)
  obtain c u where ks: "ks = c # u" "is_digit c" using enc_str_hd [OF dict_cons(1)] by blast
  have "DecodeString (pre @ ks @ s @ t @ CHR ''e'' # post) (length pre) = Ret (k, length pre + length ks)"
    using dict_cons DecodeString_complete [of k ks pre "s @ t @ CHR ''e'' # post"] by simp
  moreover have "decode (pre @ ks @ s @ t @ CHR ''e'' # post) (length (pre @ ks)) = Ret (v, length (pre @ ks) + length s)"
    using dict_cons.IH(1) [of "pre @ ks"] dict_cons.prems by simp
  moreover have "sub (pre @ ks @ s @ t @ CHR ''e'' # post) (length (pre @ ks)) (length (pre @ ks) + length s) = s"
    using sub_append_mid [of "pre @ ks" s] by simp
  ultimately show ?case
    using dict_cons.IH(2) [of "pre @ ks @ s" post "map_put k v m" "map_put k s r"] dict_cons.prems ks
      is_digit_not(2) [of c]
    by (subst dict_loop.simps) (simp add: add.assoc)
qed

section \<open>Properties\<close>

lemma decode_complete:
  assumes "benc v (sub input pos p)" and "pos \<le> p" and "p \<le> length input" and "go_string input"
  shows "decode input pos = Ret (v, p)"
proof -
  have i: "input = take pos input @ sub input pos p @ drop p input"
    using assms(2,3) by (rule split_at_sub)
  have "decode (take pos input @ sub input pos p @ drop p input) (length (take pos input))
          = Ret (v, length (take pos input) + length (sub input pos p))"
    using assms(4) i by (intro decode_complete_aux(1) [OF assms(1)]) simp
  then show ?thesis using i assms(2,3) by simp
qed

lemma DecodeDict_complete:
  assumes "benc (BDict m) t" and "go_string (t @ post)"
  shows "\<exists>raws. DecodeDict (t @ post) 0 = Ret ((m, raws), length t)"
proof -
  obtain es u where e: "m = put_values es []" "t = CHR ''d'' # u @ ''e''" "benc_dict es u"
    using assms(1) by (auto elim: benc.cases)
  then show ?thesis
    using decode_complete_aux(3) [OF e(3), of "''d''" post "[]" "[]"] assms(2) by (simp add: DecodeDict_def)
qed

text \<open>
  C1. The decoder decides the grammar: on a Go string, \<open>decode\<close> at a cursor returns
  a value and a new cursor exactly when the text between the two cursors is a bencoding of
  that value. It accepts nothing else and misses nothing.
\<close>

theorem decode_exact:
  assumes "go_string input"
  shows "decode input pos = Ret (v, p) \<longleftrightarrow>
           pos \<le> p \<and> p \<le> length input \<and> benc v (sub input pos p)"
  using assms decode_progress [of input pos v p] decode_sound [of input pos v p]
    decode_complete [of v input pos p] by auto

theorem decode_exact_witness:
  "go_string ''xi-5ez'' \<and> decode ''xi-5ez'' 1 = Ret (BInt (- 5), 5) \<and> benc (BInt (- 5)) ''i-5e''"
proof -
  have g: "go_string ''xi-5ez''" by (simp add: go_string_def)
  have "decode ''xi-5ez'' 1 = Ret (BInt (- 5), 5)" by code_simp
  then show ?thesis using g decode_exact [OF g, of 1 "BInt (- 5)" 5] by (simp add: sub_def)
qed

lemma decode_prefix:
  assumes "decode input pos = Ret (v, p)" and "go_string input"
  shows "Decode (sub input pos p) = Ret v"
proof -
  let ?s = "sub input pos p"
  have b: "benc v ?s" and l: "pos < p" "p \<le> length input"
    using assms decode_sound decode_progress by blast+
  have g: "go_string ?s" using assms(2) by (simp add: go_string_def)
  have "decode ?s 0 = Ret (v, length ?s)"
    using decode_complete [of v ?s 0 "length ?s"] b g by (simp add: sub_full del: length_sub)
  moreover have "?s \<noteq> []" using benc_hd [OF b] by auto
  ultimately show ?thesis by (simp add: Decode_def)
qed

lemma benc_Decode: "benc v t \<Longrightarrow> go_string t \<Longrightarrow> Decode t = Ret v"
  using decode_complete [of v t 0 "length t"] benc_hd [of v t] by (auto simp: sub_full Decode_def)

lemma put_raws_agree:
  "benc_dict es t \<Longrightarrow> (\<And>k v. map_get m k = Some v \<Longrightarrow> \<exists>r. map_get raws k = Some r \<and> P v r) \<Longrightarrow>
     (\<And>k v r. (k, v, r) \<in> set es \<Longrightarrow> P v r) \<Longrightarrow>
     map_get (put_values es m) k = Some v \<Longrightarrow> \<exists>r. map_get (put_raws es raws) k = Some r \<and> P v r"
proof (induction es arbitrary: m raws t)
  case (Cons e es)
  obtain k' v' r' where e: "e = (k', v', r')" by (cases e)
  from Cons.prems(1) e obtain t' where "benc_dict es t'" by (auto elim: benc_dictE)
  then show ?case
  proof (rule Cons.IH [of t' "map_put k' v' m" "map_put k' r' raws", folded put_raws_simps(2) [of k' v'] e])
    show "\<exists>r. map_get (map_put k' r' raws) j = Some r \<and> P w r" if "map_get (map_put k' v' m) j = Some w" for j w
      using that Cons.prems(2) Cons.prems(3) [of k' v' r'] e by (auto split: if_splits)
  qed (use Cons.prems(3,4) e in auto)
qed simp

lemma benc_dict_raw: "benc_dict es t \<Longrightarrow> (k, v, r) \<in> set es \<Longrightarrow> benc v r \<and> (\<exists>a b. t = a @ r @ b)"
proof (induction es arbitrary: t)
  case (Cons e es)
  from Cons.prems(1) obtain k' ks v' s t' where e: "e = (k', v', s)" "t = ks @ s @ t'"
    and b: "benc v' s" "benc_dict es t'"
    by (auto elim: benc_dictE)
  show ?case
  proof (cases "(k, v, r) = e")
    case True
    with e b show ?thesis by auto
  next
    case False
    with Cons.prems have "(k, v, r) \<in> set es" by simp
    with Cons.IH [OF b(2)] obtain a c where "benc v r" "t' = a @ r @ c" by blast
    with e show ?thesis by (intro conjI exI [of _ "ks @ s @ a"] exI [of _ c]) simp_all
  qed
qed simp

lemma raw_part:
  assumes "DecodeDict input pos = Ret ((m, raws), p)" and "go_string input"
    and "map_get m k = Some v"
  shows "\<exists>raw a b. map_get raws k = Some raw \<and> input = a @ raw @ b \<and> Decode raw = Ret v"
proof -
  obtain es t where m: "m = put_values es []" "raws = put_raws es []" and d: "benc_dict es t"
    and t: "sub input (Suc pos) p = t @ ''e''" "Suc pos < p" "p \<le> length input"
    using DecodeDict_sound [OF assms(1,2)] by blast
  have i: "input = take (Suc pos) input @ t @ ''e'' @ drop p input"
    using split_at_sub [of "Suc pos" p input] t by simp
  let ?P = "\<lambda>v raw. (\<exists>a b. input = a @ raw @ b) \<and> Decode raw = Ret v"
  have "?P v' r" if "(k', v', r) \<in> set es" for k' v' r
  proof -
    obtain a b where b: "benc v' r" "t = a @ r @ b" using benc_dict_raw [OF d \<open>(k', v', r) \<in> set es\<close>] by blast
    then have r: "input = (take (Suc pos) input @ a) @ r @ (b @ ''e'' @ drop p input)" using i by simp
    have "length r \<le> length input" by (subst r) simp
    then have "go_string r" using assms(2) by (simp add: go_string_def)
    then show ?thesis using r benc_Decode [OF b(1)] by blast
  qed
  then show ?thesis
    using put_raws_agree [OF d, of "[]" "[]" ?P k v] assms(3) m by auto
qed

text \<open>
  C24. The raw bytes \<open>DecodeDict\<close> keeps for a key, from which the info hash is computed, are a
  contiguous part of the input and decode to the value stored under the same key, also when a
  key occurs more than once.
\<close>

theorem rawValues_redecode:
  assumes "DecodeDict input pos = Ret ((m, raws), p)" and "go_string input"
    and "map_get m k = Some v"
  shows "\<exists>raw a b. map_get raws k = Some raw \<and> input = a @ raw @ b \<and> Decode raw = Ret v"
  using assms by (rule raw_part)

theorem rawValues_redecode_witness:
  "\<exists>raw a b. map_get [(''k'', ''i2e'')] ''k'' = Some raw \<and> ''d1:ki1e1:ki2ee'' = a @ raw @ b
     \<and> Decode raw = Ret (BInt 2)"
proof -
  have d: "DecodeDict ''d1:ki1e1:ki2ee'' 0 = Ret (([(''k'', BInt 2)], [(''k'', ''i2e'')]), 14)"
    by code_simp
  show ?thesis
    by (rule rawValues_redecode [OF d]) (simp_all add: go_string_def)
qed

text \<open>
  C26. A string whose declared length, added to the cursor, leaves the range of \<open>int\<close> is not
  rejected: the sum wraps to a negative number, the bounds check passes and the slice
  expression panics, so one short message ends the process.
\<close>

theorem huge_length_panics:
  assumes "list_all is_digit ds" and "Atoi ds = Some len" and "go_string (ds @ CHR '':'' # s)"
    and "2 ^ 63 \<le> int (length ds) + 1 + len"
  shows "decode (ds @ CHR '':'' # s) 0 = Panic Slice_bounds"
proof -
  let ?input = "ds @ CHR '':'' # s"
  have sc: "scan_length ?input 0 = Ret (length ds)"
    using scan_length_complete [OF assms(1), of "[]" s] by simp
  have l: "0 \<le> len" "len < 2 ^ 63" using Atoi_digits [OF assms(1,2)] by auto
  have "int (Suc (length ds)) + len < 2 ^ 64" using l assms(3) by (simp add: go_string_def)
  then have w: "wrap64 (int (Suc (length ds)) + len) = int (Suc (length ds)) + len - 2 ^ 64"
    using assms(4) by (intro wrap64_overflow) simp_all
  then have neg: "wrap64 (int (Suc (length ds)) + len) < 0" using \<open>_ < 2 ^ 64\<close> by simp
  have "DecodeString ?input 0 = Panic Slice_bounds"
    using neg unfolding DecodeString_def sc Let_def
    by (simp add: atoi_def sub_def assms(2) go_slice_def)
  moreover obtain c ds' where "ds = c # ds'" "is_digit c"
    using assms(1,2) by (cases ds) (auto simp: Atoi_def)
  ultimately show ?thesis by (subst decode.simps) simp
qed

theorem huge_length_panics_witness: "decode ''9223372036854775807:x'' 0 = Panic Slice_bounds"
proof -
  have d: "list_all is_digit ''9223372036854775807''" by code_simp
  have a: "Atoi ''9223372036854775807'' = Some 9223372036854775807"
    by (simp add: Atoi_def parse_digits_def digits_val_def digit_val_def is_digit_def
        range_check_def in_int64_def)
  show ?thesis
    using huge_length_panics [OF d a, of "''x''"] by (simp add: go_string_def)
qed

end
