(* ===== verification/Krpc.thy ===== *)
theory Krpc
  imports Bencode Dht_Node
begin

text \<open>
  KRPC messages, \<^verbatim>\<open>src/dht/krpc.go\<close>: the bencoder with its own insertion sort, the queries and
  the parser of responses. A Go map literal is an association list; the encoder ranges over
  it in the order of the list and then sorts, so that the order does not matter.
\<close>

section \<open>The model\<close>

text \<open>\<open>sortStrings\<close>: the inner loop moves \<open>s[j]\<close> down by swaps.\<close>

fun sink :: "nat \<Rightarrow> string list \<Rightarrow> string list" where
  "sink 0 s = s"
| "sink (Suc j) s = (if s ! j > s ! Suc j then sink j (s[j := s ! Suc j, Suc j := s ! j]) else s)"

definition sortStrings :: "string list \<Rightarrow> string list" where
  "sortStrings s = fold sink [1..<length s] s"

definition encode_string :: "string \<Rightarrow> string" where
  "encode_string val = Itoa (int (length val)) @ '':'' @ val"

text \<open>
  \<open>encodeBencode\<close>. For a dictionary the encodings of its values are looked up by the sorted keys.
\<close>

fun encodeBencode :: "bvalue \<Rightarrow> string" where
  "encodeBencode (BStr val) = encode_string val"
| "encodeBencode (BInt val) = ''i'' @ Itoa val @ ''e''"
| "encodeBencode (BList val) = ''l'' @ concat (map encodeBencode val) @ ''e''"
| "encodeBencode (BDict val) =
     (let enc = map (\<lambda>(k, v). (k, encodeBencode v)) val in
      ''d'' @ concat (map (\<lambda>k. encode_string k @ (case map_get enc k of Some e \<Rightarrow> e | None \<Rightarrow> []))
                       (sortStrings (map fst val))) @ ''e'')"

definition MsgTypeQuery :: string where "MsgTypeQuery = ''q''"
definition MsgTypeResponse :: string where "MsgTypeResponse = ''r''"
definition MsgTypeError :: string where "MsgTypeError = ''e''"

definition query_msg :: "string \<Rightarrow> string \<Rightarrow> (string \<times> bvalue) list \<Rightarrow> bvalue" where
  "query_msg txnID q args =
     BDict [(''t'', BStr txnID), (''y'', BStr MsgTypeQuery), (''q'', BStr q), (''a'', BDict args)]"

definition BuildPingQuery :: "string \<Rightarrow> NodeID \<Rightarrow> byte list" where
  "BuildPingQuery txnID nodeID =
     bytes_of (encodeBencode (query_msg txnID ''ping'' [(''id'', BStr (string_of nodeID))]))"

definition BuildFindNodeQuery :: "string \<Rightarrow> NodeID \<Rightarrow> NodeID \<Rightarrow> byte list" where
  "BuildFindNodeQuery txnID nodeID target =
     bytes_of (encodeBencode (query_msg txnID ''find_node''
       [(''id'', BStr (string_of nodeID)), (''target'', BStr (string_of target))]))"

definition BuildGetPeersQuery :: "string \<Rightarrow> NodeID \<Rightarrow> byte list \<Rightarrow> byte list" where
  "BuildGetPeersQuery txnID nodeID infoHash =
     bytes_of (encodeBencode (query_msg txnID ''get_peers''
       [(''id'', BStr (string_of nodeID)), (''info_hash'', BStr (string_of infoHash))]))"

record KRPCResponse =
  TransactionID :: string
  resp_Type :: string
  resp_ID :: NodeID
  resp_Nodes :: "Node list"
  resp_Values :: "string list"
  resp_Token :: string
  ErrorCode :: int
  ErrorMsg :: string

datatype krpc_error = Decoding_krpc bencode_error | Krpc_not_a_dict

definition zero_response :: KRPCResponse where
  "zero_response = \<lparr>TransactionID = [], resp_Type = [], resp_ID = replicate 20 0, resp_Nodes = [], resp_Values = [],
     resp_Token = [], ErrorCode = 0, ErrorMsg = []\<rparr>"

text \<open>\<open>if x, ok := v.(T); ok { ... }\<close>: an update that is made only when the assertion holds.\<close>

definition if_ok :: "'a option \<Rightarrow> ('a \<Rightarrow> 's \<Rightarrow> 's) \<Rightarrow> 's \<Rightarrow> 's" where
  "if_ok x f s = (case x of None \<Rightarrow> s | Some v \<Rightarrow> f v s)"

definition parse_error_body :: "bvalue list \<Rightarrow> KRPCResponse \<Rightarrow> KRPCResponse" where
  "parse_error_body e resp =
     (if length e \<ge> 2 then
        if_ok (as_string (Some (e ! 1))) (\<lambda>emsg r. r\<lparr>ErrorMsg := emsg\<rparr>)
          (if_ok (as_int (Some (e ! 0))) (\<lambda>code r. r\<lparr>ErrorCode := code\<rparr>) resp)
      else resp)"

definition parse_body :: "(string, bvalue) gomap \<Rightarrow> KRPCResponse \<Rightarrow> KRPCResponse" where
  "parse_body r resp =
     (let resp = if_ok (as_string (map_get r ''id''))
                   (\<lambda>i s. if length i = 20 then s\<lparr>resp_ID := bytes_of i\<rparr> else s) resp;
          resp = if_ok (as_string (map_get r ''token'')) (\<lambda>token s. s\<lparr>resp_Token := token\<rparr>) resp;
          resp = if_ok (as_string (map_get r ''nodes''))
                   (\<lambda>nodes s. s\<lparr>resp_Nodes := CompactNodesDecode (bytes_of nodes)\<rparr>) resp
      in if_ok (as_list (map_get r ''values''))
           (\<lambda>values s. s\<lparr>resp_Values := resp_Values s @ List.map_filter (\<lambda>v. as_string (Some v)) values\<rparr>) resp)"

definition parse_msg :: "(string, bvalue) gomap \<Rightarrow> KRPCResponse" where
  "parse_msg msg =
     (let resp = if_ok (as_string (map_get msg ''t'')) (\<lambda>t s. s\<lparr>TransactionID := t\<rparr>) zero_response;
          resp = if_ok (as_string (map_get msg ''y'')) (\<lambda>y s. s\<lparr>resp_Type := y\<rparr>) resp in
      if resp_Type resp = MsgTypeError then if_ok (as_list (map_get msg ''e'')) parse_error_body resp
      else if_ok (as_dict (map_get msg ''r'')) parse_body resp)"

definition ParseKRPCResponse :: "byte list \<Rightarrow> (krpc_error, KRPCResponse) outcome" where
  "ParseKRPCResponse data =
     go_bind (map_err Decoding_krpc (Decode (string_of data))) (\<lambda>decoded.
       case as_dict (Some decoded) of
         None \<Rightarrow> Err Krpc_not_a_dict
       | Some msg \<Rightarrow> Ret (parse_msg msg))"

section \<open>The sort\<close>

lemma insort_snoc: "x \<le> z \<Longrightarrow> insort x (zs @ [z]) = insort x zs @ [z]"
  by (induction zs) auto

lemma sink_insort:
  "sorted xs \<Longrightarrow> sink (length xs) (xs @ x # ys) = insort x xs @ ys"
proof (induction xs arbitrary: ys rule: rev_induct)
  case (snoc z zs)
  have u: "(zs @ z # x # ys)[length zs := x, Suc (length zs) := z] = zs @ x # z # ys"
    by (simp add: list_update_append)
  show ?case
  proof (cases "x < z")
    case True
    then show ?thesis using snoc u by (simp add: nth_append insort_snoc sorted_append)
  next
    case False
    then have "\<forall>y\<in>set (zs @ [z]). y \<le> x" using snoc.prems by (auto simp: sorted_append)
    then have "insort x (zs @ [z]) = zs @ [z, x]" using sorted_insort_is_snoc [OF snoc.prems, of x] by simp
    then show ?thesis using False by (simp add: nth_append)
  qed
qed simp

lemma fold_sink: "0 < k \<Longrightarrow> k \<le> length s \<Longrightarrow> fold sink [1..<k] s = sort (take k s) @ drop k s"
proof (induction k)
  case (Suc k)
  show ?case
  proof (cases "k = 0")
    case True
    then show ?thesis using Suc.prems by (cases s) simp_all
  next
    case False
    then have "fold sink [1..<Suc k] s = sink k (sort (take k s) @ drop k s)" using Suc by simp
    also have "\<dots> = sink (length (sort (take k s))) (sort (take k s) @ s ! k # drop (Suc k) s)"
      using Suc.prems by (simp add: Cons_nth_drop_Suc)
    also have "\<dots> = insort (s ! k) (sort (take k s)) @ drop (Suc k) s" by (rule sink_insort) simp
    also have "insort (s ! k) (sort (take k s)) = sort (take (Suc k) s)"
      using Suc.prems by (intro properties_for_sort [symmetric]) (simp_all add: take_Suc_conv_app_nth sorted_insort)
    finally show ?thesis .
  qed
qed simp

lemma sortStrings_sort: "sortStrings s = sort s"
proof (cases s)
  case (Cons x xs)
  then show ?thesis using fold_sink [of "length s" s] by (simp add: sortStrings_def)
qed (simp add: sortStrings_def)

text \<open>\<open>sortStrings\<close> meets the contract of a sort.\<close>

interpretation sort_strings: sort_slice "(<) :: string \<Rightarrow> string \<Rightarrow> bool" sortStrings
  by unfold_locales (simp_all add: sortStrings_sort not_less)

section \<open>Encoding and decoding\<close>

fun bval_ok :: "bvalue \<Rightarrow> bool" where
  "bval_ok (BStr s) \<longleftrightarrow> int (length s) < 2 ^ 63"
| "bval_ok (BInt i) \<longleftrightarrow> in_int64 i"
| "bval_ok (BList vs) \<longleftrightarrow> list_all bval_ok vs"
| "bval_ok (BDict m) \<longleftrightarrow> map_ok m \<and> list_all (\<lambda>(k, v). int (length k) < 2 ^ 63 \<and> bval_ok v) m"

text \<open>The same value with the entries of every dictionary sorted by key.\<close>

fun canon :: "bvalue \<Rightarrow> bvalue" where
  "canon (BStr s) = BStr s"
| "canon (BInt i) = BInt i"
| "canon (BList vs) = BList (map canon vs)"
| "canon (BDict m) = BDict (sort_key fst (map (\<lambda>(k, v). (k, canon v)) m))"

lemma sort_key_fst: "map fst (sort_key fst m) = sort (map fst m)"
  by (rule properties_for_sort [symmetric]) simp_all

lemma map_ok_sort: "map_ok m \<Longrightarrow> map_ok (sort_key fst m)"
  unfolding map_ok_def sort_key_fst by simp

lemma map_get_sort: "map_ok m \<Longrightarrow> map_get (sort_key fst m) k = map_get m k"
  using map_get_iff [OF map_ok_sort, of m k] map_get_iff [of m k] by (metis not_Some_eq set_sort)

lemma map_get_canon: "map_get (map (\<lambda>(k, v). (k, f v)) m) k = map_option f (map_get m k)"
  by (induction m) auto

lemma put_values_new:
  "distinct (map fst kvs) \<Longrightarrow> (\<And>k. k \<in> fst ` set kvs \<Longrightarrow> map_get m k = None) \<Longrightarrow>
     put_values (map (\<lambda>(k, v). (k, v, r k v)) kvs) m = m @ kvs"
proof (induction kvs arbitrary: m)
  case (Cons kv kvs)
  obtain k v where kv: "kv = (k, v)" by force
  have "map_get m k = None" using Cons.prems(2) [of k] kv by simp
  then have p: "map_put k v m = m @ [(k, v)]" by (rule map_put_new)
  have "map_get (m @ [(k, v)]) j = None" if "j \<in> fst ` set kvs" for j
  proof -
    have "j \<noteq> k" using Cons.prems(1) that kv by auto
    moreover have "map_get m j = None" using Cons.prems(2) [of j] that by simp
    ultimately show ?thesis using map_get_put [of k v m j] by (simp add: p)
  qed
  then show ?case using Cons.IH [of "m @ [(k, v)]"] Cons.prems(1) by (simp add: kv p)
qed simp

lemma enc_str_encode: "int (length s) < 2 ^ 63 \<Longrightarrow> enc_str s (encode_string s)"
  unfolding enc_str_def encode_string_def
  by (intro exI [of _ "Itoa (int (length s))"]) (simp add: in_int64_def Itoa_def)

lemma benc_list_map: "(\<And>v. v \<in> set vs \<Longrightarrow> benc (f v) (g v)) \<Longrightarrow> benc_list (map f vs) (concat (map g vs))"
  by (induction vs) (auto intro: list_nil list_cons)

lemma benc_dict_map:
  "(\<And>k v. (k, v) \<in> set kvs \<Longrightarrow> enc_str k (ks k) \<and> benc v (r k v)) \<Longrightarrow>
     benc_dict (map (\<lambda>(k, v). (k, v, r k v)) kvs) (concat (map (\<lambda>(k, v). ks k @ r k v) kvs))"
proof (induction kvs)
  case (Cons kv kvs)
  then show ?case by (cases kv) (auto intro!: dict_cons)
qed (simp add: dict_nil)

lemma benc_encode: "bval_ok v \<Longrightarrow> benc (canon v) (encodeBencode v)"
proof (induction v rule: encodeBencode.induct)
  case (1 s)
  then show ?case by (simp add: benc_str enc_str_encode)
next
  case (2 i)
  then show ?case by (simp add: benc_int)
next
  case (3 vs)
  then have "benc_list (map canon vs) (concat (map encodeBencode vs))"
    by (intro benc_list_map) (simp add: list_all_iff)
  then show ?case by (simp add: benc_list)
next
  case (4 m)
  let ?enc = "map_get (map (\<lambda>(k, v). (k, encodeBencode v)) m)"
  let ?r = "\<lambda>k (v :: bvalue). case ?enc k of Some e \<Rightarrow> e | None \<Rightarrow> []"
  let ?c = "sort_key fst (map (\<lambda>(k, v). (k, canon v)) m)"
  have ok: "map_ok m" using 4 by simp
  have f: "map fst (map (\<lambda>(k, v). (k, f v)) m) = map fst m" for f :: "bvalue \<Rightarrow> bvalue" by (simp add: case_prod_beta o_def)
  then have okc: "map_ok (map (\<lambda>(k, v). (k, canon v)) m)" using ok unfolding map_ok_def by (simp only:)
  have e: "enc_str k (encode_string k) \<and> benc v (?r k v)" if "(k, v) \<in> set ?c" for k v
  proof -
    obtain w where w: "(k, w) \<in> set m" "v = canon w" using \<open>(k, v) \<in> set ?c\<close> by auto
    then have "map_get m k = Some w" using map_get_iff [OF ok] by simp
    then have "?r k v = encodeBencode w" by (simp add: map_get_canon)
    moreover have "bval_ok w" "int (length k) < 2 ^ 63" using 4(2) w(1) by (auto simp: list_all_iff)
    ultimately show ?thesis using 4(1) [of "(k, w)" k w] w by (simp add: enc_str_encode)
  qed
  have "benc (BDict (put_values (map (\<lambda>(k, v). (k, v, ?r k v)) ?c) [])) (CHR ''d'' # concat (map (\<lambda>(k, v). encode_string k @ ?r k v) ?c) @ ''e'')"
    by (intro benc_dict benc_dict_map e)
  moreover have "put_values (map (\<lambda>(k, v). (k, v, ?r k v)) ?c) [] = ?c"
    using put_values_new [of ?c "[]" ?r] map_ok_sort [OF okc] by (simp add: map_ok_def)
  moreover have "map (\<lambda>(k, v). encode_string k @ ?r k v) ?c = map (\<lambda>k. encode_string k @ ?r k undefined) (sort (map fst m))"
    using sort_key_fst [of "map (\<lambda>(k, v). (k, canon v)) m"] f [of canon] by (metis (no_types, lifting) case_prod_beta' comp_apply list.map_comp map_eq_conv)
  ultimately show ?case by (simp add: sortStrings_sort Let_def)
qed

section \<open>Theorems\<close>

lemma Decode_encode: "bval_ok v \<Longrightarrow> go_string (encodeBencode v) \<Longrightarrow> Decode (encodeBencode v) = Ret (canon v)"
  by (intro benc_Decode benc_encode)

text \<open>
  C33. What \<open>encodeBencode\<close> writes, \<open>Decode\<close> reads back: the same strings, integers, lists and
  dictionaries, the entries of every dictionary sorted by key, as bencoding requires.
\<close>
theorem bencode_roundtrip:
  assumes "bval_ok v" and "go_string (encodeBencode v)"
  shows "Decode (encodeBencode v) = Ret (canon v)"
  using assms by (rule Decode_encode)

theorem bencode_roundtrip_witness:
  "Decode (encodeBencode (BDict [(''z'', BInt (- 3)), (''a'', BList [BStr ''q''])])) =
     Ret (BDict [(''a'', BList [BStr ''q'']), (''z'', BInt (- 3))])"
proof -
  let ?v = "BDict [(''z'', BInt (- 3)), (''a'', BList [BStr ''q''])]"
  have "encodeBencode ?v = ''d1:al1:qe1:zi-3ee''" "canon ?v = BDict [(''a'', BList [BStr ''q'']), (''z'', BInt (- 3))]"
    by code_simp+
  then show ?thesis
    using bencode_roundtrip [of ?v] by (simp add: go_string_def map_ok_def in_int64_def)
qed

lemma canon_query:
  "canon (query_msg txnID q [(''id'', BStr s)]) = BDict [(''a'', BDict [(''id'', BStr s)]), (''q'', BStr q), (''t'', BStr txnID), (''y'', BStr ''q'')]"
  "canon (query_msg txnID q [(''id'', BStr s), (''info_hash'', BStr h)]) =
     BDict [(''a'', BDict [(''id'', BStr s), (''info_hash'', BStr h)]), (''q'', BStr q), (''t'', BStr txnID), (''y'', BStr ''q'')]"
  "canon (query_msg txnID q [(''id'', BStr s), (''target'', BStr h)]) =
     BDict [(''a'', BDict [(''id'', BStr s), (''target'', BStr h)]), (''q'', BStr q), (''t'', BStr txnID), (''y'', BStr ''q'')]"
  by (simp_all add: query_msg_def MsgTypeQuery_def less_char_def less_eq_char_def)

lemma length_nat_str: "length (nat_str n) \<le> Suc n"
proof (induction n rule: nat_str.induct)
  case (1 n)
  show ?case
  proof (cases "n < 10")
    case False
    then have "length (nat_str n) \<le> Suc (Suc (n div 10))" using 1 by (subst nat_str.simps) simp
    also have "\<dots> \<le> Suc n" using False by simp
    finally show ?thesis .
  qed (subst nat_str.simps, simp)
qed

lemma length_encode_string: "length (encode_string s) \<le> 2 * length s + 2"
  using length_nat_str [of "length s"] by (simp add: encode_string_def Itoa_def)

lemmas key_order = sortStrings_sort less_char_def less_eq_char_def

lemma encode_query:
  "encodeBencode (query_msg txnID q args) =
     ''d'' @ encode_string ''a'' @ encodeBencode (BDict args) @ encode_string ''q'' @ encode_string q @
     encode_string ''t'' @ encode_string txnID @ encode_string ''y'' @ encode_string ''q'' @ ''e''"
  by (simp add: query_msg_def MsgTypeQuery_def key_order Let_def)

lemma encode_args:
  "encodeBencode (BDict [(''id'', BStr s)]) = ''d'' @ encode_string ''id'' @ encode_string s @ ''e''"
  "encodeBencode (BDict [(''id'', BStr s), (''info_hash'', BStr h)]) =
     ''d'' @ encode_string ''id'' @ encode_string s @ encode_string ''info_hash'' @ encode_string h @ ''e''"
  "encodeBencode (BDict [(''id'', BStr s), (''target'', BStr h)]) =
     ''d'' @ encode_string ''id'' @ encode_string s @ encode_string ''target'' @ encode_string h @ ''e''"
  by (simp_all add: key_order Let_def)

lemma query_go_string:
  assumes "length txnID < 2 ^ 32" and "length q < 100" and "length (encodeBencode (BDict args)) < 1000"
  shows "go_string (encodeBencode (query_msg txnID q args))"
  using assms length_encode_string [of "''a''"] length_encode_string [of "''q''"] length_encode_string [of "''t''"]
    length_encode_string [of "''y''"] length_encode_string [of txnID] length_encode_string [of q]
  by (simp add: encode_query go_string_def)

text \<open>
  The three queries are well-formed KRPC messages: each decodes to a dictionary with sorted
  keys that holds the transaction id, the type \<open>q\<close>, the method and its arguments, our
  identifier and the target or info hash byte for byte.
\<close>
theorem queries_wellformed:
  assumes "length txnID < 2 ^ 32" and "node_id_ok nodeID" and "node_id_ok target"
  shows "Decode (string_of (BuildPingQuery txnID nodeID)) =
      Ret (BDict [(''a'', BDict [(''id'', BStr (string_of nodeID))]), (''q'', BStr ''ping''), (''t'', BStr txnID), (''y'', BStr ''q'')]) \<and>
    Decode (string_of (BuildFindNodeQuery txnID nodeID target)) =
      Ret (BDict [(''a'', BDict [(''id'', BStr (string_of nodeID)), (''target'', BStr (string_of target))]),
        (''q'', BStr ''find_node''), (''t'', BStr txnID), (''y'', BStr ''q'')]) \<and>
    Decode (string_of (BuildGetPeersQuery txnID nodeID target)) =
      Ret (BDict [(''a'', BDict [(''id'', BStr (string_of nodeID)), (''info_hash'', BStr (string_of target))]),
        (''q'', BStr ''get_peers''), (''t'', BStr txnID), (''y'', BStr ''q'')])"
proof -
  have l: "length (encode_string (string_of nodeID)) \<le> 42" "length (encode_string (string_of target)) \<le> 42"
    using length_encode_string [of "string_of nodeID"] length_encode_string [of "string_of target"] assms(2,3)
    by (simp_all add: node_id_ok_def)
  note k = length_encode_string [of "''id''"] length_encode_string [of "''target''"] length_encode_string [of "''info_hash''"]
  have t: "int (length txnID) < 2 ^ 63" using assms(1) by simp
  have ok1: "bval_ok (query_msg txnID q [(''id'', BStr s)])" if "length q < 100" "length s = 20" for q s
    using t that by (simp add: query_msg_def MsgTypeQuery_def map_ok_def)
  have ok: "bval_ok (query_msg txnID q [(''id'', BStr s), (''info_hash'', BStr h)])"
    "bval_ok (query_msg txnID q [(''id'', BStr s), (''target'', BStr h)])"
    if "length q < 100" "length s = 20" "length h = 20" for q s h
    using t that by (simp_all add: query_msg_def MsgTypeQuery_def map_ok_def)
  have d: "Decode (encodeBencode v) = Ret (canon v)"
    if "v = query_msg txnID q args" "bval_ok v" "length q < 100" "length (encodeBencode (BDict args)) < 1000" for v q args
    using that query_go_string [OF assms(1)] by (intro Decode_encode) simp_all
  show ?thesis
    unfolding BuildPingQuery_def BuildFindNodeQuery_def BuildGetPeersQuery_def string_of_bytes_of canon_query [symmetric]
    using l k assms(2,3) by (intro conjI d [OF refl] ok1 ok) (simp_all add: encode_args node_id_ok_def del: encodeBencode.simps)
qed

theorem queries_wellformed_witness:
  "Decode (string_of (BuildPingQuery ''17'' (replicate 20 65))) =
     Ret (BDict [(''a'', BDict [(''id'', BStr (string_of (replicate 20 65)))]), (''q'', BStr ''ping''), (''t'', BStr ''17''), (''y'', BStr ''q'')])"
  using queries_wellformed [of "''17''" "replicate 20 65" "replicate 20 65"] by (simp add: node_id_ok_def)

text \<open>A response as another node sends it.\<close>

definition response_msg :: "string \<Rightarrow> NodeID \<Rightarrow> Node list \<Rightarrow> string \<Rightarrow> string list \<Rightarrow> bvalue" where
  "response_msg t nid nodes token vals =
     BDict [(''t'', BStr t), (''y'', BStr MsgTypeResponse),
       (''r'', BDict [(''id'', BStr (string_of nid)), (''nodes'', BStr (string_of (CompactNodesEncode nodes))),
          (''token'', BStr token), (''values'', BList (map BStr vals))])]"

lemma canon_dict_get: "map_ok m \<Longrightarrow> map_get (sort_key fst (map (\<lambda>(k, v). (k, canon v)) m)) k = map_option canon (map_get m k)"
proof -
  assume m: "map_ok m"
  have "map fst (map (\<lambda>(k, v). (k, canon v)) m) = map fst m" by (simp add: case_prod_beta o_def)
  then have "map_ok (map (\<lambda>(k, v). (k, canon v)) m)" using m unfolding map_ok_def by (simp only:)
  then show ?thesis by (simp add: map_get_sort map_get_canon)
qed

lemma map_filter_strings: "List.map_filter (\<lambda>v. as_string (Some v)) (map (canon \<circ> BStr) vals) = vals"
  by (induction vals) (simp_all add: List.map_filter_simps)

text \<open>
  A response that a node bencodes with its transaction id, identifier, nodes, token and
  peer values is parsed to exactly these.
\<close>
theorem response_roundtrip:
  assumes "bval_ok (response_msg t nid nodes token vals)" and "go_string (encodeBencode (response_msg t nid nodes token vals))"
    and "node_id_ok nid" and "list_all node_ok nodes"
  shows "ParseKRPCResponse (bytes_of (encodeBencode (response_msg t nid nodes token vals))) =
    Ret \<lparr>TransactionID = t, resp_Type = ''r'', resp_ID = nid, resp_Nodes = nodes, resp_Values = vals,
         resp_Token = token, ErrorCode = 0, ErrorMsg = []\<rparr>"
proof -
  let ?r = "[(''id'', BStr (string_of nid)), (''nodes'', BStr (string_of (CompactNodesEncode nodes))),
    (''token'', BStr token), (''values'', BList (map BStr vals))]"
  let ?m = "[(''t'', BStr t), (''y'', BStr MsgTypeResponse), (''r'', BDict ?r)]"
  have ok: "map_ok ?m" "map_ok ?r" by (simp_all add: map_ok_def)
  have d: "Decode (encodeBencode (response_msg t nid nodes token vals)) =
      Ret (BDict (sort_key fst (map (\<lambda>(k, v). (k, canon v)) ?m)))"
    using Decode_encode [OF assms(1,2)] by (simp only: response_msg_def canon.simps(4))
  have n: "CompactNodesDecode (CompactNodesEncode nodes) = nodes"
    using compact_nodes.dec_chunks [OF assms(4), of "[]"] by (simp add: CompactNodesDecode_def CompactNodesEncode_def)
  show ?thesis
    unfolding ParseKRPCResponse_def parse_msg_def string_of_bytes_of d map_err.simps go_bind.simps as_dict.simps option.case
      canon_dict_get [OF ok(1)]
    using assms(3)
    by (simp add: if_ok_def MsgTypeResponse_def MsgTypeError_def parse_body_def zero_response_def Let_def
        canon_dict_get [OF ok(2), simplified] n node_id_ok_def map_filter_strings)
qed

theorem response_roundtrip_witness:
  "ParseKRPCResponse (bytes_of (encodeBencode (response_msg ''aa'' (replicate 20 66) [] ''tk'' [''abcdef'']))) =
     Ret \<lparr>TransactionID = ''aa'', resp_Type = ''r'', resp_ID = replicate 20 66, resp_Nodes = [], resp_Values = [''abcdef''],
          resp_Token = ''tk'', ErrorCode = 0, ErrorMsg = []\<rparr>"
proof (rule response_roundtrip)
  show "bval_ok (response_msg ''aa'' (replicate 20 66) [] ''tk'' [''abcdef''])"
    by (simp add: response_msg_def map_ok_def MsgTypeResponse_def CompactNodesEncode_def)
  have "length (encodeBencode (response_msg ''aa'' (replicate 20 66) [] ''tk'' [''abcdef''])) < 200" by code_simp
  then show "go_string (encodeBencode (response_msg ''aa'' (replicate 20 66) [] ''tk'' [''abcdef'']))"
    by (simp add: go_string_def)
qed (simp_all add: node_id_ok_def)

end
