(* ===== verification/Tracker.thy ===== *)
theory Tracker
  imports Bencode Dht_Node
begin

text \<open>
  The tracker client, \<^verbatim>\<open>src/tracker/tracker.go\<close> and \<^verbatim>\<open>src/tracker/udp.go\<close>: the announce
  requests it sends and the peers it reads out of the responses. The transport is an
  argument: what an HTTP request is answered with, and what happens when a datagram is
  written to a UDP socket for the \<open>k\<close>-th time. \<open>url.Parse\<close>, \<open>net.ParseIP\<close>,
  \<open>net.SplitHostPort\<close>, name resolution and the random numbers are arguments too.
\<close>

section \<open>Peers\<close>

record Peer =
  peer_IP :: "byte list"
  peer_Port :: "16 word"

datatype tracker_error =
    Parsing_URL | Unsupported_scheme string | Http_failed | Http_status int
  | Tracker_decode bencode_error | Invalid_response_map | Tracker_failure bvalue | No_peers_field
  | Unsupported_peers_format | No_peers_available
  | Dialing | Udp_write | Udp_read | Connect_too_short nat | Connect_action "32 word" | Connect_txn
  | Announce_too_short nat | Udp_tracker_error string | Announce_action "32 word" | Announce_txn | Retries_exhausted
  | Udp_connect tracker_error | Udp_announce tracker_error

definition compact_peer :: "byte list \<Rightarrow> Peer" where
  "compact_peer c = \<lparr>peer_IP = sub c 0 4, peer_Port = Uint16 (sub c 4 6)\<rparr>"

text \<open>The loop over groups of six bytes, which three functions of the program spell out.\<close>

definition compact_peers :: "byte list \<Rightarrow> Peer list" where
  "compact_peers bs = map compact_peer (chunks 6 bs)"

definition JoinHostPort :: "string \<Rightarrow> string \<Rightarrow> string" where
  "JoinHostPort host port = (if CHR '':'' \<in> set host then ''['' @ host @ '']:'' @ port else host @ '':'' @ port)"

text \<open>
  \<open>Peer.Address\<close>. Every peer of the program has an address of four bytes, which \<open>IP.String\<close> prints
  in dotted form.
\<close>

fun dotted :: "byte list \<Rightarrow> string" where
  "dotted [] = []"
| "dotted [b] = nat_str (unat b)"
| "dotted (b # bs) = nat_str (unat b) @ ''.'' @ dotted bs"

definition Address :: "Peer \<Rightarrow> string" where
  "Address p = JoinHostPort (dotted (peer_IP p)) (Itoa (int (unat (peer_Port p))))"

section \<open>HTTP\<close>

text \<open>\<open>hex[b>>4]\<close> and \<open>hex[b&0xf]\<close> after a percent sign.\<close>

definition escapeInfoHash :: "byte list \<Rightarrow> string" where
  "escapeInfoHash infoHash =
     concat (map (\<lambda>b. [CHR ''%'', hex_char (unat (drop_bit 4 b)), hex_char (unat (b AND 0xf))]) infoHash)"

text \<open>One item of a peer list that is not compact; \<open>None\<close> where the loop continues.\<close>

definition dict_peer :: "(string \<Rightarrow> byte list option) \<Rightarrow> bvalue \<Rightarrow> Peer option" where
  "dict_peer ParseIP item =
     Option.bind (as_dict (Some item)) (\<lambda>pDict.
     Option.bind (as_string (map_get pDict ''ip'')) (\<lambda>ipStr.
     Option.bind (as_int (map_get pDict ''port'')) (\<lambda>portVal.
     Option.bind (ParseIP ipStr) (\<lambda>ip.
       if To4 ip = [] then None else Some \<lparr>peer_IP = To4 ip, peer_Port = word_of_int portVal\<rparr>))))"

definition peers_field :: "(string \<Rightarrow> byte list option) \<Rightarrow> bvalue \<Rightarrow> (tracker_error, Peer list) outcome" where
  "peers_field ParseIP peersVal =
     (case peersVal of
        BStr pVal \<Rightarrow> Ret (compact_peers (bytes_of pVal))
      | BList pVal \<Rightarrow> Ret (List.map_filter (dict_peer ParseIP) pVal)
      | _ \<Rightarrow> Err Unsupported_peers_format)"

text \<open>What the source reads and writes of a parsed URL.\<close>

record url =
  url_Scheme :: string
  url_Host :: string
  url_Path :: string
  url_RawQuery :: string

text \<open>
  The environment: \<open>url.Parse\<close>, the status and the body of the response to a URL (\<open>None\<close>
  where the request or reading the body fails), \<open>net.ParseIP\<close>, whether \<open>net.SplitHostPort\<close> accepts
  a host, the UDP socket to an address, and the random transaction ids and key.
\<close>

datatype udp_event = Write_fails | Read_times_out | Read_fails | Datagram "byte list"

type_synonym udp_conn = "nat \<Rightarrow> byte list \<Rightarrow> udp_event"

record tracker_env =
  env_Parse :: "string \<Rightarrow> url option"
  env_Get :: "url \<Rightarrow> (int \<times> byte list) option"
  env_ParseIP :: "string \<Rightarrow> byte list option"
  env_SplitHostPort_ok :: "string \<Rightarrow> bool"
  env_Dial :: "string \<Rightarrow> udp_conn option"
  env_connect_txn :: "32 word"
  env_announce_txn :: "32 word"
  env_key :: "32 word"

text \<open>\<open>params.Encode()\<close> writes the parameters sorted by name; none of their characters needs escaping.\<close>

definition announce_params :: "int \<Rightarrow> string" where
  "announce_params left =
     ''compact=1&downloaded=0&left='' @ Itoa left @ ''&peer_id=-MT1230-rT6yUi8OpLkJ&port=6881&uploaded=0''"

definition announce_query :: "byte list \<Rightarrow> int \<Rightarrow> url \<Rightarrow> url" where
  "announce_query infoHash left u =
     (let queryStr = ''info_hash='' @ escapeInfoHash infoHash @ ''&'' @ announce_params left in
      if url_RawQuery u \<noteq> [] then u\<lparr>url_RawQuery := url_RawQuery u @ ''&'' @ queryStr\<rparr>
      else u\<lparr>url_RawQuery := queryStr\<rparr>)"

definition http_response :: "(string \<Rightarrow> byte list option) \<Rightarrow> int \<Rightarrow> byte list \<Rightarrow> (tracker_error, Peer list) outcome" where
  "http_response ParseIP status bodyBytes =
     (if status \<noteq> 200 then Err (Http_status status)
      else
        go_bind (map_err Tracker_decode (Decode (string_of bodyBytes))) (\<lambda>decoded.
          case as_dict (Some decoded) of
            None \<Rightarrow> Err Invalid_response_map
          | Some respDict \<Rightarrow>
              (case map_get respDict ''failure reason'' of
                 Some failReason \<Rightarrow> Err (Tracker_failure failReason)
               | None \<Rightarrow>
                   (case map_get respDict ''peers'' of
                      None \<Rightarrow> Err No_peers_field
                    | Some peersVal \<Rightarrow>
                        go_bind (peers_field ParseIP peersVal) (\<lambda>peers.
                          if peers = [] then Err No_peers_available else Ret peers)))))"

definition getPeersHTTP :: "tracker_env \<Rightarrow> string \<Rightarrow> byte list \<Rightarrow> int \<Rightarrow> (tracker_error, Peer list) outcome" where
  "getPeersHTTP env trackerURL infoHash left =
     (case env_Parse env trackerURL of
        None \<Rightarrow> Err Parsing_URL
      | Some u \<Rightarrow>
          (case env_Get env (announce_query infoHash left u) of
             None \<Rightarrow> Err Http_failed
           | Some (status, bodyBytes) \<Rightarrow> http_response (env_ParseIP env) status bodyBytes))"

section \<open>UDP\<close>

definition udpProtocolMagic :: "64 word" where
  "udpProtocolMagic = 0x41727101980"

definition actionConnect :: "32 word" where
  "actionConnect = 0"

definition actionAnnounce :: "32 word" where
  "actionAnnounce = 1"

definition udpMaxRetries :: nat where
  "udpMaxRetries = 2"

definition connect_request :: "32 word \<Rightarrow> byte list" where
  "connect_request transactionID = PutUint64 udpProtocolMagic @ PutUint32 actionConnect @ PutUint32 transactionID"

definition announce_request :: "64 word \<Rightarrow> 32 word \<Rightarrow> 32 word \<Rightarrow> byte list \<Rightarrow> int \<Rightarrow> byte list" where
  "announce_request connectionID transactionID key infoHash left =
     PutUint64 connectionID @ PutUint32 actionAnnounce @ PutUint32 transactionID @
     go_copy (replicate 20 0) 0 infoHash @ bytes_of ''-MT1230-rT6yUi8OpLkJ'' @
     PutUint64 0 @ PutUint64 (word_of_int left) @ PutUint64 0 @ PutUint32 0 @ PutUint32 0 @
     PutUint32 key @ PutUint32 0xFFFFFFFF @ PutUint16 6881"

definition connect_response :: "32 word \<Rightarrow> byte list \<Rightarrow> (tracker_error, 64 word) outcome" where
  "connect_response transactionID resp =
     (if length resp < 16 then Err (Connect_too_short (length resp))
      else if Uint32 (sub resp 0 4) \<noteq> actionConnect then Err (Connect_action (Uint32 (sub resp 0 4)))
      else if Uint32 (sub resp 4 8) \<noteq> transactionID then Err Connect_txn
      else Ret (Uint64 (sub resp 8 16)))"

definition announce_response :: "32 word \<Rightarrow> byte list \<Rightarrow> (tracker_error, Peer list) outcome" where
  "announce_response transactionID resp =
     (let n = length resp; respAction = Uint32 (sub resp 0 4) in
      if n < 20 then Err (Announce_too_short n)
      else if respAction \<noteq> actionAnnounce then
        (if respAction = 3 \<and> n > 8 then Err (Udp_tracker_error (string_of (drop 8 resp)))
         else Err (Announce_action respAction))
      else if Uint32 (sub resp 4 8) \<noteq> transactionID then Err Announce_txn
      else Ret (compact_peers (drop 20 resp)))"

text \<open>
  The retry loop of \<open>udpConnect\<close> and \<open>udpAnnounce\<close>: \<open>limit\<close> is the size of the read buffer, \<open>k\<close>
  counts the datagrams written to the socket.
\<close>

fun udp_retry ::
    "udp_conn \<Rightarrow> nat \<Rightarrow> (byte list \<Rightarrow> (tracker_error, 'a) outcome) \<Rightarrow> byte list \<Rightarrow> nat \<Rightarrow> nat \<Rightarrow> (tracker_error, 'a) outcome \<times> nat" where
  "udp_retry conn limit parse req 0 k = (Err Retries_exhausted, k)"
| "udp_retry conn limit parse req (Suc retries) k =
     (case conn k req of
        Write_fails \<Rightarrow> (Err Udp_write, Suc k)
      | Read_times_out \<Rightarrow> udp_retry conn limit parse req retries (Suc k)
      | Read_fails \<Rightarrow> (Err Udp_read, Suc k)
      | Datagram d \<Rightarrow> (parse (take limit d), Suc k))"

definition udpConnect :: "udp_conn \<Rightarrow> 32 word \<Rightarrow> nat \<Rightarrow> (tracker_error, 64 word) outcome \<times> nat" where
  "udpConnect conn transactionID k =
     udp_retry conn 16 (connect_response transactionID) (connect_request transactionID) udpMaxRetries k"

definition udpAnnounce ::
    "udp_conn \<Rightarrow> 32 word \<Rightarrow> 32 word \<Rightarrow> 64 word \<Rightarrow> byte list \<Rightarrow> int \<Rightarrow> nat \<Rightarrow> (tracker_error, Peer list) outcome \<times> nat" where
  "udpAnnounce conn transactionID key connectionID infoHash left k =
     udp_retry conn 4096 (announce_response transactionID)
       (announce_request connectionID transactionID key infoHash left) udpMaxRetries k"

definition GetPeersUDP :: "tracker_env \<Rightarrow> string \<Rightarrow> byte list \<Rightarrow> int \<Rightarrow> (tracker_error, Peer list) outcome" where
  "GetPeersUDP env trackerURL infoHash left =
     (case env_Parse env trackerURL of
        None \<Rightarrow> Err Parsing_URL
      | Some u \<Rightarrow>
          (let host = if env_SplitHostPort_ok env (url_Host u) then url_Host u else JoinHostPort (url_Host u) ''6881'' in
           case env_Dial env host of
             None \<Rightarrow> Err Dialing
           | Some conn \<Rightarrow>
               (case udpConnect conn (env_connect_txn env) 0 of
                  (r, k) \<Rightarrow>
                    go_bind (map_err Udp_connect r) (\<lambda>connectionID.
                      map_err Udp_announce
                        (fst (udpAnnounce conn (env_announce_txn env) (env_key env) connectionID infoHash left k))))))"

text \<open>\<open>GetPeers\<close>: the scheme of the parsed URL decides.\<close>

definition GetPeers_tracker :: "tracker_env \<Rightarrow> string \<Rightarrow> byte list \<Rightarrow> int \<Rightarrow> (tracker_error, Peer list) outcome" where
  "GetPeers_tracker env trackerURL infoHash left =
     (case env_Parse env trackerURL of
        None \<Rightarrow> Err Parsing_URL
      | Some u \<Rightarrow>
          if url_Scheme u = ''http'' \<or> url_Scheme u = ''https'' then getPeersHTTP env trackerURL infoHash left
          else if url_Scheme u = ''udp'' then GetPeersUDP env trackerURL infoHash left
          else Err (Unsupported_scheme (url_Scheme u)))"

section \<open>The compact encoding\<close>

definition peer_ok :: "Peer \<Rightarrow> bool" where
  "peer_ok p \<longleftrightarrow> length (peer_IP p) = 4"

definition peer_bytes :: "Peer \<Rightarrow> byte list" where
  "peer_bytes p = peer_IP p @ PutUint16 (peer_Port p)"

interpretation peers: fixed_size 6 peer_ok peer_bytes compact_peer
  by unfold_locales (simp_all add: peer_bytes_def peer_ok_def compact_peer_def sub_def)

lemma dotted_chars: "c \<in> set (dotted ip) \<Longrightarrow> is_digit c \<or> c = CHR ''.''"
  using nat_str_digits by (induction ip rule: dotted.induct) (auto simp: list_all_iff)

lemma dotted_inject: "length a = length b \<Longrightarrow> dotted a = dotted b \<longleftrightarrow> a = b"
proof (induction a arbitrary: b rule: dotted.induct)
  case (2 x)
  then obtain y where "b = [y]" by (cases b) auto
  then show ?case by (simp add: word_unat_eq_iff)
next
  case (3 x y ys)
  have d: "CHR ''.'' \<notin> set (nat_str n)" for n by (rule digit_notin_nat_str) (simp add: is_digit_def)
  from 3 obtain x' y' ys' where b: "b = x' # y' # ys'" "length ys = length ys'" by (cases b rule: dotted.cases) auto
  then show ?case using append_sep_inject [OF d d] 3(1) [of "y' # ys'"] by (auto simp: word_unat_eq_iff)
qed auto

lemma Address_inject: "peer_ok p \<Longrightarrow> peer_ok q \<Longrightarrow> Address p = Address q \<longleftrightarrow> p = q"
proof -
  assume p: "peer_ok p" "peer_ok q"
  have c: "CHR '':'' \<notin> set (dotted ip)" for ip using dotted_chars [of "CHR '':''" ip] by (auto simp: is_digit_def)
  show ?thesis using p c append_sep_inject [OF c c] dotted_inject [of "peer_IP p" "peer_IP q"]
    by (auto simp: Address_def JoinHostPort_def peer_ok_def Itoa_def word_unat_eq_iff)
qed

lemma compact_peers_bytes:
  "list_all peer_ok ps \<Longrightarrow> length rest < 6 \<Longrightarrow> compact_peers (concat (map peer_bytes ps) @ rest) = ps"
  using peers.dec_chunks by (simp add: compact_peers_def)

lemma compact_peers_ok: "list_all peer_ok (compact_peers bs)"
  using chunks_length [of 6 _ bs] by (auto simp: compact_peers_def list_all_iff peer_ok_def compact_peer_def)

section \<open>Theorems\<close>

text \<open>A tracker's announce response as BEP 15 lays it out.\<close>

definition announce_bytes :: "32 word \<Rightarrow> 32 word \<Rightarrow> 32 word \<Rightarrow> 32 word \<Rightarrow> Peer list \<Rightarrow> byte list" where
  "announce_bytes txn interval leechers seeders ps =
     PutUint32 actionAnnounce @ PutUint32 txn @ PutUint32 interval @ PutUint32 leechers @ PutUint32 seeders @
     concat (map peer_bytes ps)"

definition connect_bytes :: "32 word \<Rightarrow> 64 word \<Rightarrow> byte list" where
  "connect_bytes txn cid = PutUint32 actionConnect @ PutUint32 txn @ PutUint64 cid"

lemma length_peer_bytes: "list_all peer_ok ps \<Longrightarrow> length (concat (map peer_bytes ps)) = 6 * length ps"
  by (induction ps) (simp_all add: peer_bytes_def peer_ok_def)

lemma sub_append_left [simp]: "length a = n \<Longrightarrow> sub (a @ b) 0 n = a"
  by (simp add: sub_def)

lemma connect_response_bytes: "connect_response txn (connect_bytes txn cid) = Ret cid"
  by (simp add: connect_response_def connect_bytes_def sub_def)

lemma announce_response_bytes:
  "list_all peer_ok ps \<Longrightarrow> announce_response txn (announce_bytes txn i l s ps) = Ret ps"
  using compact_peers_bytes [of ps "[]"] by (simp add: announce_response_def announce_bytes_def sub_def)

lemma take_connect_bytes [simp]: "take 16 (connect_bytes txn cid) = connect_bytes txn cid"
  by (simp add: connect_bytes_def)

lemma take_announce_bytes:
  "list_all peer_ok ps \<Longrightarrow> 20 + 6 * length ps \<le> 4096 \<Longrightarrow> take 4096 (announce_bytes txn i l s ps) = announce_bytes txn i l s ps"
  by (simp add: announce_bytes_def length_peer_bytes)

text \<open>
  A tracker as BEP 15 describes it: it answers a connect request with a connection id, and an
  announce request that carries this id with its peers, each under the transaction id of
  the request. Datagrams for which \<open>lost\<close> holds, and all others, are not answered.
\<close>

definition bep15_tracker :: "(nat \<Rightarrow> bool) \<Rightarrow> 64 word \<Rightarrow> (byte list \<Rightarrow> Peer list) \<Rightarrow> udp_conn" where
  "bep15_tracker lost cid swarm k req =
     (if lost k then Read_times_out
      else if length req = 16 \<and> Uint64 (sub req 0 8) = 0x41727101980 \<and> Uint32 (sub req 8 12) = 0
      then Datagram (connect_bytes (Uint32 (sub req 12 16)) cid)
      else if length req = 98 \<and> Uint64 (sub req 0 8) = cid \<and> Uint32 (sub req 8 12) = 1
      then Datagram (announce_bytes (Uint32 (sub req 12 16)) 1800 1 1 (swarm (sub req 16 36)))
      else Read_times_out)"

lemma connect_request_fields:
  "length (connect_request txn) = 16 \<and> Uint64 (sub (connect_request txn) 0 8) = 0x41727101980 \<and>
   Uint32 (sub (connect_request txn) 8 12) = 0 \<and> Uint32 (sub (connect_request txn) 12 16) = txn"
  unfolding connect_request_def by (simp add: sub_def udpProtocolMagic_def actionConnect_def)

lemma announce_request_fields:
  assumes "length infoHash = 20"
  shows "let req = announce_request cid txn key infoHash left in
     length req = 98 \<and> Uint64 (sub req 0 8) = cid \<and> Uint32 (sub req 8 12) = 1 \<and> Uint32 (sub req 12 16) = txn \<and>
     sub req 16 36 = infoHash \<and> string_of (sub req 36 56) = ''-MT1230-rT6yUi8OpLkJ'' \<and>
     Uint64 (sub req 64 72) = word_of_int left \<and> Uint32 (sub req 92 96) = - 1 \<and> Uint16 (sub req 96 98) = 6881"
proof -
  have c: "go_copy (replicate 20 0) 0 infoHash = infoHash" using assms by (simp add: go_copy_def)
  have p: "length (bytes_of ''-MT1230-rT6yUi8OpLkJ'') = 20" by simp
  show ?thesis
    unfolding announce_request_def Let_def c
    using assms p by (simp add: sub_def actionAnnounce_def)
qed

lemma udp_retry_two:
  assumes "\<And>k. \<not> lost k \<Longrightarrow> conn k req = Datagram d" and "\<And>k. lost k \<Longrightarrow> conn k req = Read_times_out"
    and "\<not> (lost k \<and> lost (Suc k))"
  shows "\<exists>k'. udp_retry conn limit parse req udpMaxRetries k = (parse (take limit d), k') \<and> (k' = Suc k \<or> k' = Suc (Suc k))"
  using assms by (cases "lost k") (auto simp: udpMaxRetries_def eval_nat_numeral)

text \<open>
  C34. An announce to a UDP tracker that follows BEP 15 returns the peers the tracker has for
  the info hash, in order, even when a datagram of each exchange is lost: the requests
  that are sent carry the fields a tracker looks at, and the responses are read as sent.
\<close>
theorem udp_announce_peers:
  assumes "env_Parse env url = Some u" and "url_Scheme u = ''udp''" and "env_SplitHostPort_ok env (url_Host u)"
    and "env_Dial env (url_Host u) = Some (bep15_tracker lost cid swarm)"
    and "\<And>k. \<not> (lost k \<and> lost (Suc k))"
    and "length infoHash = 20" and "list_all peer_ok (swarm infoHash)" and "20 + 6 * length (swarm infoHash) \<le> 4096"
  shows "GetPeers_tracker env url infoHash left = Ret (swarm infoHash)"
proof -
  let ?c = "bep15_tracker lost cid swarm"
  let ?req = "announce_request cid (env_announce_txn env) (env_key env) infoHash left"
  let ?resp = "announce_bytes (env_announce_txn env) 1800 1 1 (swarm infoHash)"
  note f = connect_request_fields [of "env_connect_txn env"]
  note g = announce_request_fields [OF assms(6), of cid "env_announce_txn env" "env_key env" left, unfolded Let_def]
  have c: "\<not> lost k \<Longrightarrow> ?c k (connect_request (env_connect_txn env)) = Datagram (connect_bytes (env_connect_txn env) cid)"
      "lost k \<Longrightarrow> ?c k (connect_request (env_connect_txn env)) = Read_times_out"
      "\<not> lost k \<Longrightarrow> ?c k ?req = Datagram ?resp" "lost k \<Longrightarrow> ?c k ?req = Read_times_out" for k
    using f g by (simp_all add: bep15_tracker_def)
  obtain k1 where 1: "udpConnect ?c (env_connect_txn env) 0 = (Ret cid, k1)"
    using udp_retry_two [where conn = ?c and lost = lost and k = 0 and limit = 16 and parse = "connect_response (env_connect_txn env)", OF c(1,2)] assms(5)
    by (auto simp: udpConnect_def connect_response_bytes)
  obtain k2 where 2: "udpAnnounce ?c (env_announce_txn env) (env_key env) cid infoHash left k1 = (Ret (swarm infoHash), k2)"
    using udp_retry_two [where conn = ?c and lost = lost and k = k1 and limit = 4096 and parse = "announce_response (env_announce_txn env)", OF c(3,4)] assms(5)
    by (auto simp: udpAnnounce_def announce_response_bytes [OF assms(7)] take_announce_bytes [OF assms(7,8)])
  show ?thesis using assms(1-4) 1 2 by (simp add: GetPeers_tracker_def GetPeersUDP_def)
qed

definition demo_env :: tracker_env where
  "demo_env = \<lparr>env_Parse = (\<lambda>s. Some \<lparr>url_Scheme = s, url_Host = ''tracker:80'', url_Path = [], url_RawQuery = []\<rparr>),
     env_Get = (\<lambda>u. Some (200, bytes_of ''d5:peers6:abcdefe'')), env_ParseIP = (\<lambda>_. None), env_SplitHostPort_ok = (\<lambda>_. True),
     env_Dial = (\<lambda>h. Some (bep15_tracker (\<lambda>k. k = 1) 99 (\<lambda>_. [\<lparr>peer_IP = [10, 0, 0, 1], peer_Port = 6881\<rparr>]))),
     env_connect_txn = 5, env_announce_txn = 7, env_key = 3\<rparr>"

theorem udp_announce_peers_witness:
  "GetPeers_tracker demo_env ''udp'' (replicate 20 7) 1000 = Ret [\<lparr>peer_IP = [10, 0, 0, 1], peer_Port = 6881\<rparr>]"
  by (rule udp_announce_peers [where u = "\<lparr>url_Scheme = ''udp'', url_Host = ''tracker:80'', url_Path = [], url_RawQuery = []\<rparr>"
        and lost = "\<lambda>k. k = 1" and cid = 99 and swarm = "\<lambda>_. [\<lparr>peer_IP = [10, 0, 0, 1], peer_Port = 6881\<rparr>]", simplified])
    (simp_all add: demo_env_def peer_ok_def)

text \<open>Percent-decoding, as a tracker does it.\<close>

fun unescape :: "string \<Rightarrow> byte list option" where
  "unescape [] = Some []"
| "unescape (p # c # d # s) =
     (if p = CHR ''%'' then Option.bind (hex_decode [c, d]) (\<lambda>bs. map_option (\<lambda>r. bs @ r) (unescape s)) else None)"
| "unescape _ = None"

text \<open>
  The info hash in an announce URL is escaped so that percent-decoding gives back its
  bytes, whatever they are.
\<close>
theorem escapeInfoHash_roundtrip: "unescape (escapeInfoHash infoHash) = Some infoHash"
proof (induction infoHash)
  case (Cons b bs)
  have "unat (drop_bit 4 b) = unat b div 16" unfolding unat_drop_bit_eq by (simp add: drop_bit_eq_div)
  moreover have "unat (b AND 0xf) = unat b mod 16"
  proof -
    have "b AND 0xf = take_bit 4 b" by (simp add: take_bit_eq_mask mask_eq_exp_minus_1)
    then have "unat (b AND 0xf) = take_bit 4 (unat b)" by (simp only: unsigned_take_bit_eq)
    then show ?thesis by (simp add: take_bit_eq_mod)
  qed
  ultimately have "hex_decode [hex_char (unat (drop_bit 4 b)), hex_char (unat (b AND 0xf))] = Some [b]"
    using hex_decode_encode [of "[b]"] by (simp add: hex_encode_def)
  then show ?case using Cons by (simp add: escapeInfoHash_def del: hex_decode.simps)
qed (simp add: escapeInfoHash_def)

lemma http_response_Ret:
  assumes "http_response ParseIP status body = Ret ps"
  shows "ps \<noteq> [] \<and> list_all peer_ok ps \<and> status = 200 \<and>
    (\<exists>respDict. Decode (string_of body) = Ret (BDict respDict) \<and> map_get respDict ''failure reason'' = None \<and>
      map_get respDict ''peers'' \<noteq> None)"
proof -
  have s: "status = 200" using assms by (simp add: http_response_def split: if_splits)
  obtain x where x: "Decode (string_of body) = Ret x" using assms by (auto simp: http_response_def split: if_splits)
  then obtain d where d: "as_dict (Some x) = Some d"
    using assms s by (cases "as_dict (Some x)") (simp_all add: http_response_def)
  have f: "map_get d ''failure reason'' = None"
    using assms s x d by (simp add: http_response_def split: option.splits)
  then obtain v where v: "map_get d ''peers'' = Some v"
    using assms s x d by (cases "map_get d ''peers''") (simp_all add: http_response_def)
  have p: "peers_field ParseIP v = Ret ps" "ps \<noteq> []"
    using assms s x d f v by (auto simp: http_response_def split: if_splits)
  have "peer_ok p" if "dict_peer ParseIP x = Some p" for p x
    using that by (auto simp: dict_peer_def peer_ok_def To4_def bind_eq_Some_conv split: if_splits)
  then have "list_all peer_ok ps"
    using p(1) compact_peers_ok
    by (auto simp: peers_field_def list_all_iff List.map_filter_def split: bvalue.splits)
  moreover have "x = BDict d" using d by (simp add: as_dict_Some)
  ultimately show ?thesis using s x f v p(2) by auto
qed

text \<open>
  Peers out of an HTTP announce are usable: a result is never empty and every peer in it
  has an IPv4 address, whether the tracker sent the compact form or dictionaries; a failed
  request, another status than 200, a failure reason or a missing peers field is always an error.
\<close>
theorem http_peers_usable:
  assumes "getPeersHTTP env url infoHash left = Ret ps"
  shows "ps \<noteq> [] \<and> list_all peer_ok ps \<and>
    (\<exists>u body respDict. env_Parse env url = Some u \<and> env_Get env (announce_query infoHash left u) = Some (200, body) \<and>
      Decode (string_of body) = Ret (BDict respDict) \<and> map_get respDict ''failure reason'' = None \<and>
      map_get respDict ''peers'' \<noteq> None)"
proof -
  obtain u status body where "env_Parse env url = Some u" "env_Get env (announce_query infoHash left u) = Some (status, body)"
    and r: "http_response (env_ParseIP env) status body = Ret ps"
    using assms by (auto simp: getPeersHTTP_def split: option.splits)
  then show ?thesis using http_response_Ret [OF r] by auto
qed

theorem http_peers_usable_witness:
  "\<exists>ps. getPeersHTTP demo_env ''http'' (replicate 20 7) 1000 = Ret ps \<and> ps \<noteq> [] \<and> list_all peer_ok ps"
proof -
  have g: "getPeersHTTP demo_env ''http'' (replicate 20 7) 1000 = Ret (compact_peers (bytes_of ''abcdef''))"
    by code_simp
  show ?thesis using http_peers_usable [OF g] g by blast
qed

end
