(* ===== verification/Dht_Lookup.thy ===== *)
theory Dht_Lookup
  imports Dht_Routing Krpc Tracker
begin

text \<open>
  The DHT client, \<^verbatim>\<open>src/dht/dht.go\<close>: bootstrapping and the iterative lookup of peers. The
  network is an argument: for the \<open>k\<close>-th query the transaction id that was drawn, whether
  the datagram could be sent, and the datagrams that arrive before the query's deadline (after
  those that earlier queries left unread in the socket). \<open>sort.Slice\<close> is an argument too.
\<close>

section \<open>The model\<close>

record net =
  net_txn :: "nat \<Rightarrow> string"
  net_send_ok :: "nat \<Rightarrow> bool"
  net_arrive :: "nat \<Rightarrow> byte list list"

record DHT =
  dht_nodeID :: NodeID
  routingTable :: RoutingTable
  inbox :: "byte list list"
  outbox :: "(byte list \<times> byte list \<times> int) list"
  queries :: nat

datatype dht_error = Dht_timeout | Dht_send_failed | Bootstrap_failed | No_nodes | No_peers_found

definition alpha :: nat where
  "alpha = 3"

definition maxIterations :: nat where
  "maxIterations = 20"

text \<open>\<open>readResponseForTransaction\<close>: other and malformed packets are skipped; a packet is cut at 4096 bytes.\<close>

fun read_response :: "string \<Rightarrow> byte list list \<Rightarrow> (dht_error, KRPCResponse) outcome \<times> byte list list" where
  "read_response txnID [] = (Err Dht_timeout, [])"
| "read_response txnID (pkt # pkts) =
     (case ParseKRPCResponse (take 4096 pkt) of
        Err _ \<Rightarrow> read_response txnID pkts
      | Panic p \<Rightarrow> (Panic p, pkts)
      | Ret resp \<Rightarrow> if TransactionID resp = txnID then (Ret resp, pkts) else read_response txnID pkts)"

text \<open>One query to an address: send what the builder makes for its transaction id, wait for the response.\<close>

definition ask :: "net \<Rightarrow> (string \<Rightarrow> byte list) \<Rightarrow> byte list \<Rightarrow> int \<Rightarrow> DHT \<Rightarrow> (dht_error, KRPCResponse) outcome \<times> DHT" where
  "ask n build ip port d =
     (let k = queries d; txnID = net_txn n k; d = d\<lparr>queries := Suc k\<rparr> in
      if \<not> net_send_ok n k then (Err Dht_send_failed, d)
      else
        (let d = d\<lparr>outbox := outbox d @ [(build txnID, ip, port)]\<rparr> in
         case read_response txnID (inbox d @ net_arrive n k) of
           (r, rest) \<Rightarrow> (r, d\<lparr>inbox := rest\<rparr>)))"

definition add_nodes :: "Node list \<Rightarrow> DHT \<Rightarrow> DHT" where
  "add_nodes ns d = d\<lparr>routingTable := fold Add_node ns (routingTable d)\<rparr>"

text \<open>\<open>Bootstrap\<close>; \<open>resolve\<close> is \<open>net.ResolveUDPAddr\<close>.\<close>

fun bootstrap_loop :: "net \<Rightarrow> (string \<Rightarrow> (byte list \<times> int) option) \<Rightarrow> string list \<Rightarrow> DHT \<Rightarrow> (dht_error, DHT) outcome" where
  "bootstrap_loop n resolve [] d = Ret d"
| "bootstrap_loop n resolve (addr # addresses) d =
     (case resolve addr of
        None \<Rightarrow> bootstrap_loop n resolve addresses d
      | Some (ip, port) \<Rightarrow>
          (case ask n (\<lambda>txnID. BuildFindNodeQuery txnID (dht_nodeID d) (dht_nodeID d)) ip port d of
             (Panic p, d) \<Rightarrow> Panic p
           | (Err e, d) \<Rightarrow> bootstrap_loop n resolve addresses d
           | (Ret resp, d) \<Rightarrow>
               bootstrap_loop n resolve addresses
                 (add_nodes (\<lparr>node_ID = resp_ID resp, node_IP = ip, node_Port = port\<rparr> # resp_Nodes resp) d)))"

definition Bootstrap :: "net \<Rightarrow> (string \<Rightarrow> (byte list \<times> int) option) \<Rightarrow> string list \<Rightarrow> DHT \<Rightarrow> (dht_error, DHT) outcome" where
  "Bootstrap n resolve addresses d =
     go_bind (bootstrap_loop n resolve addresses d) (\<lambda>d.
       if Count (routingTable d) = 0 then Err Bootstrap_failed else Ret d)"

text \<open>\<open>parsePeerValues\<close>.\<close>

definition parsePeerValues :: "string \<Rightarrow> Peer list" where
  "parsePeerValues data = compact_peers (bytes_of data)"

text \<open>The state of a lookup: the DHT, the candidates, the identifiers queried and the peers found.\<close>

record lookup =
  lk_dht :: DHT
  candidates :: "Node list"
  queried :: "NodeID list"
  allPeers :: "Peer list"
  newNodesFound :: bool

definition merge_node :: "Node \<Rightarrow> lookup \<Rightarrow> lookup" where
  "merge_node n lk =
     (let lk = lk\<lparr>lk_dht := add_nodes [n] (lk_dht lk)\<rparr> in
      if list_ex (\<lambda>c. node_ID c = node_ID n) (candidates lk) then lk
      else lk\<lparr>candidates := candidates lk @ [n], newNodesFound := True\<rparr>)"

definition query_one :: "net \<Rightarrow> byte list \<Rightarrow> Node \<Rightarrow> lookup \<Rightarrow> (dht_error, lookup) outcome" where
  "query_one n infoHash node lk =
     (let lk = lk\<lparr>queried := node_ID node # queried lk\<rparr> in
      case ask n (\<lambda>txnID. BuildGetPeersQuery txnID (dht_nodeID (lk_dht lk)) infoHash)
             (node_IP node) (node_Port node) (lk_dht lk) of
        (Panic p, d) \<Rightarrow> Panic p
      | (Err e, d) \<Rightarrow> Ret (lk\<lparr>lk_dht := d\<rparr>)
      | (Ret resp, d) \<Rightarrow>
          (let lk = lk\<lparr>lk_dht := add_nodes [\<lparr>node_ID = resp_ID resp, node_IP = node_IP node, node_Port = node_Port node\<rparr>] d,
                       allPeers := allPeers lk @ concat (map parsePeerValues (resp_Values resp))\<rparr> in
           Ret (fold merge_node (resp_Nodes resp) lk)))"

fun query_all :: "net \<Rightarrow> byte list \<Rightarrow> Node list \<Rightarrow> lookup \<Rightarrow> (dht_error, lookup) outcome" where
  "query_all n infoHash [] lk = Ret lk"
| "query_all n infoHash (node # toQuery) lk = go_bind (query_one n infoHash node lk) (query_all n infoHash toQuery)"

definition toQuery :: "lookup \<Rightarrow> Node list" where
  "toQuery lk = take alpha (filter (\<lambda>c. node_ID c \<notin> set (queried lk)) (candidates lk))"

fun lookup_loop ::
    "((Node \<Rightarrow> Node \<Rightarrow> bool) \<Rightarrow> Node list \<Rightarrow> Node list) \<Rightarrow> net \<Rightarrow> NodeID \<Rightarrow> nat \<Rightarrow> lookup \<Rightarrow> (dht_error, lookup) outcome" where
  "lookup_loop srt n target 0 lk = Ret lk"
| "lookup_loop srt n target (Suc iter) lk =
     (let q = toQuery lk in
      if q = [] then Ret lk
      else
        go_bind (query_all n target q (lk\<lparr>newNodesFound := False\<rparr>)) (\<lambda>lk.
          let lk = lk\<lparr>candidates := take 20 (srt (closer target) (candidates lk))\<rparr> in
          if \<not> newNodesFound lk \<and> length q < alpha then Ret lk
          else lookup_loop srt n target iter lk))"

definition GetPeers ::
    "((Node \<Rightarrow> Node \<Rightarrow> bool) \<Rightarrow> Node list \<Rightarrow> Node list) \<Rightarrow> net \<Rightarrow> NodeID \<Rightarrow> DHT \<Rightarrow> (dht_error, Peer list \<times> DHT) outcome" where
  "GetPeers srt n infoHash d =
     go_bind (FindClosest srt infoHash 20 (routingTable d)) (\<lambda>cands.
       if cands = [] then Err No_nodes
       else
         go_bind (lookup_loop srt n infoHash maxIterations
             \<lparr>lk_dht = d, candidates = cands, queried = [], allPeers = [], newNodesFound = False\<rparr>) (\<lambda>lk.
           if allPeers lk = [] then Err No_peers_found else Ret (allPeers lk, lk_dht lk)))"

section \<open>Invariants of a lookup\<close>

lemma decoded_ids: "n \<in> set (CompactNodesDecode bs) \<Longrightarrow> node_id_ok (node_ID n)"
  using chunks_length [of 26 _ bs]
  by (auto simp: CompactNodesDecode_def decode_node_def node_id_ok_def)

definition resp_ok :: "KRPCResponse \<Rightarrow> bool" where
  "resp_ok resp \<longleftrightarrow> node_id_ok (resp_ID resp) \<and> (\<forall>n\<in>set (resp_Nodes resp). node_id_ok (node_ID n))"

lemma resp_ok_if_ok: "(\<And>v s. resp_ok s \<Longrightarrow> resp_ok (f v s)) \<Longrightarrow> resp_ok s \<Longrightarrow> resp_ok (if_ok x f s)"
  by (simp add: if_ok_def split: option.splits)

lemma resp_ok_frame [simp]:
  "resp_ok (r\<lparr>TransactionID := t\<rparr>) = resp_ok r" "resp_ok (r\<lparr>resp_Type := t\<rparr>) = resp_ok r"
  "resp_ok (r\<lparr>ErrorMsg := t\<rparr>) = resp_ok r" "resp_ok (r\<lparr>ErrorCode := c\<rparr>) = resp_ok r"
  "resp_ok (r\<lparr>resp_Token := t\<rparr>) = resp_ok r" "resp_ok (r\<lparr>resp_Values := vs\<rparr>) = resp_ok r"
  "length i = 20 \<Longrightarrow> resp_ok r \<Longrightarrow> resp_ok (r\<lparr>resp_ID := bytes_of i\<rparr>)"
  "resp_ok r \<Longrightarrow> resp_ok (r\<lparr>resp_Nodes := CompactNodesDecode bs\<rparr>)"
  using decoded_ids by (auto simp: resp_ok_def node_id_ok_def)

lemma parse_msg_ok: "resp_ok (parse_msg msg)"
proof -
  have "resp_ok zero_response" by (simp add: resp_ok_def zero_response_def node_id_ok_def)
  moreover have "resp_ok r \<Longrightarrow> resp_ok (parse_body m r)" for m r
    unfolding parse_body_def Let_def by (intro resp_ok_if_ok) simp_all
  moreover have "resp_ok r \<Longrightarrow> resp_ok (parse_error_body e r)" for e r
    unfolding parse_error_body_def by (auto intro!: resp_ok_if_ok)
  ultimately show ?thesis unfolding parse_msg_def Let_def by (auto intro!: resp_ok_if_ok)
qed

lemma ParseKRPCResponse_ok: "ParseKRPCResponse pkt = Ret resp \<Longrightarrow> resp_ok resp"
  using parse_msg_ok by (fastforce simp: ParseKRPCResponse_def simp del: as_dict.simps split: option.splits)

lemma read_response_ok: "read_response txnID pkts = (Ret resp, rest) \<Longrightarrow> resp_ok resp \<and> TransactionID resp = txnID"
  by (induction txnID pkts rule: read_response.induct)
    (auto dest: ParseKRPCResponse_ok split: outcome.splits if_splits)

lemma ask_frame:
  "ask n build ip port d = (r, d') \<Longrightarrow>
     routingTable d' = routingTable d \<and> queries d' = Suc (queries d) \<and> dht_nodeID d' = dht_nodeID d"
  by (auto simp: ask_def Let_def split: if_splits prod.splits)

lemma ask_resp: "ask n build ip port d = (Ret resp, d') \<Longrightarrow> resp_ok resp"
  using read_response_ok by (auto simp: ask_def Let_def split: if_splits prod.splits)

lemma add_nodes_inv:
  "rt_inv (routingTable d) \<Longrightarrow> \<forall>n\<in>set ns. node_id_ok (node_ID n) \<Longrightarrow> rt_inv (routingTable (add_nodes ns d))"
proof -
  assume rt: "rt_inv (routingTable d)" and ns: "\<forall>n\<in>set ns. node_id_ok (node_ID n)"
  have "run_allowed Add_node (\<lambda>node rt. node_id_ok (node_ID node)) ns t" for t
    using ns by (induction ns arbitrary: t) auto
  then show ?thesis using routing.run_inv [OF rt] by (simp add: add_nodes_def)
qed

lemma add_nodes_frame [simp]:
  "queries (add_nodes ns d) = queries d" "dht_nodeID (add_nodes ns d) = dht_nodeID d"
  by (simp_all add: add_nodes_def)

definition lk_inv :: "lookup \<Rightarrow> bool" where
  "lk_inv lk \<longleftrightarrow> rt_inv (routingTable (lk_dht lk)) \<and> distinct (map node_ID (candidates lk)) \<and>
     distinct (queried lk) \<and> list_all peer_ok (allPeers lk)"

lemma merge_node_inv:
  "lk_inv lk \<Longrightarrow> node_id_ok (node_ID n) \<Longrightarrow> lk_inv (merge_node n lk)"
  using add_nodes_inv [of "lk_dht lk" "[n]"]
  by (auto simp: merge_node_def Let_def lk_inv_def list_ex_iff)

lemma merge_node_frame [simp]:
  "queried (merge_node n lk) = queried lk" "queries (lk_dht (merge_node n lk)) = queries (lk_dht lk)"
  "allPeers (merge_node n lk) = allPeers lk"
  by (simp_all add: merge_node_def Let_def)

lemma merge_nodes:
  assumes "lk_inv lk" and "\<forall>n\<in>set ns. node_id_ok (node_ID n)"
  shows "lk_inv (fold merge_node ns lk) \<and> queried (fold merge_node ns lk) = queried lk \<and>
    queries (lk_dht (fold merge_node ns lk)) = queries (lk_dht lk)"
  using assms by (induction ns arbitrary: lk) (auto simp: merge_node_inv)

lemma parsePeerValues_ok: "list_all peer_ok (parsePeerValues v)"
  by (simp add: parsePeerValues_def compact_peers_ok)

lemma query_one_inv:
  assumes "lk_inv lk" and "node_ID node \<notin> set (queried lk)" and "query_one n h node lk = Ret lk'"
  shows "lk_inv lk' \<and> queried lk' = node_ID node # queried lk \<and> queries (lk_dht lk') = Suc (queries (lk_dht lk))"
proof -
  let ?lk = "lk\<lparr>queried := node_ID node # queried lk\<rparr>"
  let ?b = "\<lambda>txnID. BuildGetPeersQuery txnID (dht_nodeID (lk_dht lk)) h"
  obtain r d where a: "ask n ?b (node_IP node) (node_Port node) (lk_dht lk) = (r, d)" by force
  note f = ask_frame [OF a]
  show ?thesis
  proof (cases r)
    case (Ret resp)
    let ?d = "add_nodes [\<lparr>node_ID = resp_ID resp, node_IP = node_IP node, node_Port = node_Port node\<rparr>] d"
    let ?lk2 = "?lk\<lparr>lk_dht := ?d, allPeers := allPeers lk @ concat (map parsePeerValues (resp_Values resp))\<rparr>"
    have o: "resp_ok resp" using a Ret ask_resp by blast
    have "rt_inv (routingTable ?d)" using assms(1) o f by (intro add_nodes_inv) (auto simp: lk_inv_def resp_ok_def)
    moreover have "list_all peer_ok (concat (map parsePeerValues vs))" for vs
      using parsePeerValues_ok by (auto simp: list_all_iff)
    ultimately have "lk_inv ?lk2" using assms(1,2) by (simp add: lk_inv_def)
    moreover have "lk' = fold merge_node (resp_Nodes resp) ?lk2"
      using assms(3) a Ret by (simp add: query_one_def Let_def)
    ultimately show ?thesis using merge_nodes [of ?lk2 "resp_Nodes resp"] o f by (simp add: resp_ok_def)
  next
    case (Err e)
    then show ?thesis using assms f a by (auto simp: query_one_def Let_def lk_inv_def)
  next
    case (Panic p)
    then show ?thesis using assms(3) a by (simp add: query_one_def Let_def)
  qed
qed

lemma query_all_inv:
  assumes "lk_inv lk" and "distinct (map node_ID q)" and "node_ID ` set q \<inter> set (queried lk) = {}"
    and "query_all n h q lk = Ret lk'"
  shows "lk_inv lk' \<and> queries (lk_dht lk') = queries (lk_dht lk) + length q \<and>
    queried lk' = rev (map node_ID q) @ queried lk"
  using assms
proof (induction q arbitrary: lk)
  case (Cons c q)
  then obtain lk1 where o: "query_one n h c lk = Ret lk1" "query_all n h q lk1 = Ret lk'" by auto
  then show ?case using Cons.IH [of lk1] Cons.prems query_one_inv [of lk c n h lk1] by auto
qed simp

context sort_slice
begin

lemma take_srt_distinct: "distinct (map f xs) \<Longrightarrow> distinct (map f (take k (srt xs)))"
proof -
  assume "distinct (map f xs)"
  then have "distinct (map f (srt xs))" using srt_mset [of xs] by (metis mset_eq_imp_distinct_iff mset_map)
  then show ?thesis by (simp add: take_map [symmetric])
qed

end

lemma toQuery_props:
  "lk_inv lk \<Longrightarrow> distinct (map node_ID (toQuery lk)) \<and> node_ID ` set (toQuery lk) \<inter> set (queried lk) = {} \<and>
     length (toQuery lk) \<le> 3"
proof -
  assume lk: "lk_inv lk"
  have "distinct (map node_ID (filter (\<lambda>c. node_ID c \<notin> set (queried lk)) (candidates lk)))"
    using lk by (simp add: lk_inv_def distinct_map_filter)
  then show ?thesis
    by (auto simp: toQuery_def alpha_def take_map [symmetric] dest: in_set_takeD)
qed

lemma FindClosest_take: "FindClosest srt t 20 rt = Ret (take 20 (srt (closer t) (concat (buckets rt))))"
  by (simp add: FindClosest_def Let_def go_slice_def)

lemma FindClosest_distinct:
  assumes "sort_slice (closer t) (srt (closer t))" and "rt_inv rt" and "FindClosest srt t 20 rt = (Ret cs :: ('e, _) outcome)"
  shows "distinct (map node_ID cs)"
  using sort_slice.take_srt_distinct [OF assms(1) table_distinct [OF assms(2)], of 20] assms(3) by (simp add: FindClosest_take)

lemma lookup_round:
  assumes "lookup_loop srt n t (Suc iter) lk = Ret lk'" and "toQuery lk \<noteq> []"
  obtains lk1 where "query_all n t (toQuery lk) (lk\<lparr>newNodesFound := False\<rparr>) = Ret lk1"
    and "lk' = lk1\<lparr>candidates := take 20 (srt (closer t) (candidates lk1))\<rparr> \<or>
      lookup_loop srt n t iter (lk1\<lparr>candidates := take 20 (srt (closer t) (candidates lk1))\<rparr>) = Ret lk'"
proof -
  obtain lk1 where a: "query_all n t (toQuery lk) (lk\<lparr>newNodesFound := False\<rparr>) = Ret lk1"
    using assms by (auto simp: Let_def)
  let ?lk2 = "lk1\<lparr>candidates := take 20 (srt (closer t) (candidates lk1))\<rparr>"
  have "lookup_loop srt n t (Suc iter) lk =
      (if \<not> newNodesFound lk1 \<and> length (toQuery lk) < alpha then Ret ?lk2 else lookup_loop srt n t iter ?lk2)"
    using assms(2) by (simp add: Let_def a)
  then have "lk' = ?lk2 \<or> lookup_loop srt n t iter ?lk2 = Ret lk'"
    using assms(1) by (metis outcome.inject(1))
  with that a show ?thesis .
qed

lemma lookup_loop_inv:
  assumes srt: "\<And>t. sort_slice (closer t) (srt (closer t))" and "lk_inv lk" and "lookup_loop srt n target iter lk = Ret lk'"
  shows "lk_inv lk' \<and> queries (lk_dht lk') \<le> queries (lk_dht lk) + 3 * iter \<and>
    (\<exists>qs. queried lk' = qs @ queried lk \<and> length qs = queries (lk_dht lk') - queries (lk_dht lk)) \<and>
    queries (lk_dht lk) \<le> queries (lk_dht lk')"
  using assms(2,3)
proof (induction iter arbitrary: lk)
  case (Suc iter)
  note q = toQuery_props [OF Suc.prems(1)]
  let ?q = "toQuery lk"
  show ?case
  proof (cases "?q = []")
    case True
    then show ?thesis using Suc.prems by simp
  next
    case False
    obtain lk1 where a: "query_all n target ?q (lk\<lparr>newNodesFound := False\<rparr>) = Ret lk1"
      and l: "lk' = lk1\<lparr>candidates := take 20 (srt (closer target) (candidates lk1))\<rparr> \<or>
        lookup_loop srt n target iter (lk1\<lparr>candidates := take 20 (srt (closer target) (candidates lk1))\<rparr>) = Ret lk'"
      by (rule lookup_round [OF Suc.prems(2) False])
    let ?lk2 = "lk1\<lparr>candidates := take 20 (srt (closer target) (candidates lk1))\<rparr>"
    have i: "lk_inv (lk\<lparr>newNodesFound := False\<rparr>)" using Suc.prems(1) by (simp add: lk_inv_def)
    have 1: "lk_inv lk1 \<and> queries (lk_dht lk1) = queries (lk_dht lk) + length ?q \<and> queried lk1 = rev (map node_ID ?q) @ queried lk"
      using query_all_inv [OF i _ _ a] q by auto
    have i1: "lk_inv lk1" using 1 by simp
    then have "distinct (map node_ID (candidates lk1))" by (simp add: lk_inv_def)
    then have "distinct (map node_ID (take 20 (srt (closer target) (candidates lk1))))"
      by (rule sort_slice.take_srt_distinct [OF srt])
    then have i2: "lk_inv ?lk2" using i1 by (simp add: lk_inv_def)
    from l consider (stop) "lk' = ?lk2" | (more) "lookup_loop srt n target iter ?lk2 = Ret lk'" by blast
    then show ?thesis
    proof cases
      case stop
      then show ?thesis using 1 i2 q by auto
    next
      case more
      from Suc.IH [OF i2 more] 1 q show ?thesis by auto
    qed
  qed
qed simp

lemma merge_nodes_peers [simp]: "allPeers (fold merge_node ns lk) = allPeers lk"
  by (induction ns arbitrary: lk) simp_all

lemma query_one_peers: "query_one n h node lk = Ret lk' \<Longrightarrow> \<exists>more. allPeers lk' = allPeers lk @ more"
  by (auto simp: query_one_def Let_def split: prod.splits outcome.splits)

lemma query_all_peers: "query_all n h q lk = Ret lk' \<Longrightarrow> \<exists>more. allPeers lk' = allPeers lk @ more"
  by (induction q arbitrary: lk) (auto dest!: query_one_peers, metis append.assoc)

lemma lookup_loop_peers: "lookup_loop srt n t iter lk = Ret lk' \<Longrightarrow> \<exists>more. allPeers lk' = allPeers lk @ more"
proof (induction iter arbitrary: lk)
  case (Suc iter)
  show ?case
  proof (cases "toQuery lk = []")
    case True
    then show ?thesis using Suc.prems by simp
  next
    case False
    obtain lk1 where a: "query_all n t (toQuery lk) (lk\<lparr>newNodesFound := False\<rparr>) = Ret lk1"
      and l: "lk' = lk1\<lparr>candidates := take 20 (srt (closer t) (candidates lk1))\<rparr> \<or>
        lookup_loop srt n t iter (lk1\<lparr>candidates := take 20 (srt (closer t) (candidates lk1))\<rparr>) = Ret lk'"
      by (rule lookup_round [OF Suc.prems False])
    show ?thesis using l Suc.IH query_all_peers [OF a] by fastforce
  qed
qed simp

lemma query_never_fails [simp]:
  "query_one n h node lk \<noteq> Err e" "query_all n h q lk \<noteq> Err e"
proof -
  show 1: "query_one n h node lk \<noteq> Err e" for node lk
    by (simp add: query_one_def Let_def split: prod.splits outcome.splits)
  show "query_all n h q lk \<noteq> Err e" 
  proof (induction q arbitrary: lk)
    case (Cons c q)
    then show ?case using 1 [of c lk] by (cases "query_one n h c lk") auto
  qed simp
qed

lemma lookup_never_fails [simp]: "lookup_loop srt n t iter lk \<noteq> Err e"
proof (induction iter arbitrary: lk)
  case (Suc iter)
  then show ?case using query_never_fails(2) [of n t "toQuery lk" "lk\<lparr>newNodesFound := False\<rparr>" e]
    by (cases "query_all n t (toQuery lk) (lk\<lparr>newNodesFound := False\<rparr>)") (auto simp: Let_def)
qed simp

lemma bootstrap_loop_inv:
  "rt_inv (routingTable d) \<Longrightarrow> bootstrap_loop n resolve addrs d = Ret d' \<Longrightarrow>
     rt_inv (routingTable d') \<and> queries d' \<le> queries d + length addrs"
proof (induction n resolve addrs d rule: bootstrap_loop.induct)
  case (2 n resolve addr addrs d)
  show ?case
  proof (cases "resolve addr")
    case None
    then show ?thesis using 2 by auto
  next
    case (Some a)
    obtain ip port where p: "a = (ip, port)" by force
    obtain r d1 where a: "ask n (\<lambda>txnID. BuildFindNodeQuery txnID (dht_nodeID d) (dht_nodeID d)) ip port d = (r, d1)" by force
    note f = ask_frame [OF a]
    show ?thesis
    proof (cases r)
      case (Ret resp)
      let ?d = "add_nodes (\<lparr>node_ID = resp_ID resp, node_IP = ip, node_Port = port\<rparr> # resp_Nodes resp) d1"
      have "resp_ok resp" using a Ret ask_resp by blast
      then have "rt_inv (routingTable ?d)" using f "2.prems"(1) by (intro add_nodes_inv) (auto simp: resp_ok_def)
      then show ?thesis using "2.IH"(2) [OF Some p [symmetric] a [symmetric] Ret] "2.prems"(2) f by (auto simp: Some p a Ret)
    next
      case (Err e)
      then show ?thesis using "2.IH"(3) [OF Some p [symmetric] a [symmetric] Err] "2.prems" f by (auto simp: Some p a)
    next
      case (Panic e)
      then show ?thesis using "2.prems"(2) by (simp add: Some p a)
    qed
  qed
qed simp

section \<open>Properties\<close>

text \<open>A network in which the first query is answered, with one node and one peer.\<close>

definition demo_answer :: "byte list" where
  "demo_answer = bytes_of (encodeBencode (response_msg ''aa'' (demo_id 1) [demo_node 2] ''t'' [string_of [10, 0, 0, 9, 26, 225]]))"

definition demo_net :: net where
  "demo_net = \<lparr>net_txn = (\<lambda>k. ''aa''), net_send_ok = (\<lambda>k. True), net_arrive = (\<lambda>k. if k = 0 then [demo_answer] else [])\<rparr>"

definition demo_dht :: DHT where
  "demo_dht = \<lparr>dht_nodeID = demo_id 0, routingTable = fold Add_node [demo_node 1, demo_node 2] (NewRoutingTable (demo_id 0)),
     inbox = [], outbox = [], queries = 0\<rparr>"

lemma demo_dht_inv: "rt_inv (routingTable demo_dht)"
  using demo_rt_inv by (simp add: demo_dht_def)

lemma closer_isort: "sort_slice (closer t) (isort_by (closer t))"
  by (rule closer_order.isort.sort_slice_axioms)

text \<open>
  A lookup asks each node at most once and sends at most \<open>alpha\<close> queries per round: the
  identifiers queried are pairwise different and are as many as the queries sent.
\<close>
theorem lookup_asks_once:
  assumes "\<And>t. sort_slice (closer t) (srt (closer t))" and "lk_inv lk" and "queried lk = []"
    and "lookup_loop srt n target iter lk = Ret lk'"
  shows "distinct (queried lk') \<and> queries (lk_dht lk') = queries (lk_dht lk) + length (queried lk') \<and>
    length (queried lk') \<le> 3 * iter"
proof -
  note i = lookup_loop_inv [OF assms(1,2,4)]
  then obtain qs where "queried lk' = qs @ queried lk" "length qs = queries (lk_dht lk') - queries (lk_dht lk)" by blast
  then show ?thesis using i assms(3) by (auto simp: lk_inv_def)
qed

theorem lookup_asks_once_witness:
  "\<exists>lk'. lookup_loop isort_by (demo_net\<lparr>net_send_ok := \<lambda>k. False\<rparr>) (demo_id 3) 2
      \<lparr>lk_dht = demo_dht, candidates = [demo_node 1, demo_node 2], queried = [], allPeers = [], newNodesFound = False\<rparr> = Ret lk' \<and>
     distinct (queried lk') \<and> length (queried lk') \<le> 6"
proof -
  let ?lk = "\<lparr>lk_dht = demo_dht, candidates = [demo_node 1, demo_node 2], queried = [], allPeers = [], newNodesFound = False\<rparr>"
  let ?n = "demo_net\<lparr>net_send_ok := \<lambda>k. False\<rparr>"
  have i: "lk_inv ?lk" using demo_dht_inv by (simp add: lk_inv_def demo_node_def demo_id_def)
  have "case lookup_loop isort_by ?n (demo_id 3) 2 ?lk of Ret lk \<Rightarrow> True | _ \<Rightarrow> False" by code_simp
  then obtain lk' where l: "lookup_loop isort_by ?n (demo_id 3) 2 ?lk = Ret lk'" by (auto split: outcome.splits)
  then show ?thesis using lookup_asks_once [of isort_by, OF closer_isort i _ l] by simp
qed

text \<open>
  C32. What \<open>GetPeers\<close> returns: it ends after at most 60 queries, the routing table keeps its
  invariant, and a success is never empty and holds only IPv4 endpoints.
\<close>
theorem get_peers_result:
  assumes "\<And>t. sort_slice (closer t) (srt (closer t))" and "rt_inv (routingTable d)"
    and "GetPeers srt n h d = Ret (ps, d')"
  shows "ps \<noteq> [] \<and> list_all peer_ok ps \<and> rt_inv (routingTable d') \<and> queries d' \<le> queries d + 60"
proof -
  let ?lk = "\<lambda>cs. \<lparr>lk_dht = d, candidates = cs, queried = [], allPeers = [], newNodesFound = False\<rparr>"
  obtain cs lk where f: "FindClosest srt h 20 (routingTable d) = (Ret cs :: (dht_error, Node list) outcome)"
    and l: "lookup_loop srt n h maxIterations (?lk cs) = Ret lk" "allPeers lk \<noteq> []" "ps = allPeers lk" "d' = lk_dht lk"
    using assms(3) by (auto simp: GetPeers_def split: if_splits)
  have "distinct (map node_ID cs)"
    using FindClosest_distinct [OF assms(1,2) f] by simp
  then have "lk_inv (?lk cs)" using assms(2) by (simp add: lk_inv_def)
  from lookup_loop_inv [OF assms(1) this l(1)] show ?thesis
    using l(2,3,4) by (auto simp: lk_inv_def maxIterations_def)
qed

theorem get_peers_result_witness:
  "\<exists>ps d'. GetPeers isort_by demo_net (demo_id 3) demo_dht = Ret (ps, d') \<and> list_all peer_ok ps \<and> queries d' \<le> 60"
proof -
  have "case GetPeers isort_by demo_net (demo_id 3) demo_dht of Ret r \<Rightarrow> True | _ \<Rightarrow> False" by code_simp
  then obtain r where g: "GetPeers isort_by demo_net (demo_id 3) demo_dht = Ret r" by (auto split: outcome.splits)
  obtain ps d' where "r = (ps, d')" by force
  then show ?thesis using get_peers_result [of isort_by, OF closer_isort demo_dht_inv, of demo_net "demo_id 3" ps d'] g
    by (simp add: demo_dht_def)
qed

text \<open>
  An answer is not lost: when the closest node answers the first query with peers, \<open>GetPeers\<close>
  does not fail, and these peers come first in what it returns (unless a datagram makes the
  decoder panic).
\<close>
theorem get_peers_found:
  assumes "FindClosest srt h 20 (routingTable d) = (Ret (c # cs) :: (dht_error, Node list) outcome)" and "net_send_ok n (queries d)"
    and "read_response (net_txn n (queries d)) (inbox d @ net_arrive n (queries d)) = (Ret resp, rest)"
    and "concat (map parsePeerValues (resp_Values resp)) \<noteq> []"
  shows "(\<exists>more d'. GetPeers srt n h d = Ret (concat (map parsePeerValues (resp_Values resp)) @ more, d')) \<or>
    (\<exists>p. GetPeers srt n h d = Panic p)"
proof -
  let ?found = "concat (map parsePeerValues (resp_Values resp))"
  let ?lk = "\<lparr>lk_dht = d, candidates = c # cs, queried = [], allPeers = [], newNodesFound = False\<rparr>"
  obtain q where q: "toQuery ?lk = c # q" by (simp add: toQuery_def alpha_def)
  obtain lk1 where o: "query_one n h c ?lk = Ret lk1" "allPeers lk1 = ?found"
    using assms(2,3) by (simp add: query_one_def ask_def Let_def)
  have g: "GetPeers srt n h d = go_bind (lookup_loop srt n h maxIterations ?lk)
      (\<lambda>lk. if allPeers lk = [] then Err No_peers_found else Ret (allPeers lk, lk_dht lk))"
    using assms(1) by (simp add: GetPeers_def)
  show ?thesis
  proof (cases "lookup_loop srt n h maxIterations ?lk")
    case (Ret lk)
    then have "lookup_loop srt n h (Suc 19) ?lk = Ret lk" by (simp add: maxIterations_def)
    then obtain lk2 where "query_all n h (c # q) (?lk\<lparr>newNodesFound := False\<rparr>) = Ret lk2"
      and l: "lk = lk2\<lparr>candidates := take 20 (srt (closer h) (candidates lk2))\<rparr> \<or>
        lookup_loop srt n h 19 (lk2\<lparr>candidates := take 20 (srt (closer h) (candidates lk2))\<rparr>) = Ret lk"
      using q by (metis lookup_round list.distinct(1))
    then have a: "query_all n h q lk1 = Ret lk2" using o(1) by simp
    obtain more where m: "allPeers lk2 = ?found @ more" using query_all_peers [OF a] o(2) by auto
    from l have "\<exists>more. allPeers lk = ?found @ more" using lookup_loop_peers m by fastforce
    then show ?thesis using g Ret assms(4) by auto
  qed (use g in auto)
qed

theorem get_peers_found_witness:
  "(\<exists>more d'. GetPeers isort_by demo_net (demo_id 3) demo_dht = Ret (parsePeerValues (string_of [10, 0, 0, 9, 26, 225]) @ more, d')) \<or>
    (\<exists>p. GetPeers isort_by demo_net (demo_id 3) demo_dht = Panic p)"
proof -
  let ?resp = "\<lparr>TransactionID = ''aa'', resp_Type = ''r'', resp_ID = demo_id 1, resp_Nodes = [demo_node 2],
    resp_Values = [string_of [10, 0, 0, 9, 26, 225]], resp_Token = ''t'', ErrorCode = 0, ErrorMsg = []\<rparr>"
  have r: "read_response ''aa'' [demo_answer] = (Ret ?resp, [])" by code_simp
  have f: "FindClosest isort_by (demo_id 3) 20 (routingTable demo_dht) =
      (Ret (demo_node 2 # [demo_node 1]) :: (dht_error, Node list) outcome)" by code_simp
  have p: "parsePeerValues (string_of [10, 0, 0, 9, 26, 225]) \<noteq> []" by code_simp
  show ?thesis
    using get_peers_found [OF f, of demo_net ?resp "[]"] r p by (simp add: demo_net_def demo_dht_def)
qed

text \<open>
  After a successful \<open>Bootstrap\<close> the routing table keeps its invariant and is not empty, so
  that a lookup does not fail for want of nodes; one query is sent per address at most.
\<close>
theorem bootstrap_then_lookup:
  assumes "sort_slice (closer h) (srt (closer h))" and "rt_inv (routingTable d)" and "Bootstrap n resolve addrs d = Ret d'"
  shows "rt_inv (routingTable d') \<and> queries d' \<le> queries d + length addrs \<and> 0 < Count (routingTable d') \<and>
    GetPeers srt n' h d' \<noteq> Err No_nodes"
proof -
  have b: "bootstrap_loop n resolve addrs d = Ret d'" "Count (routingTable d') \<noteq> 0"
    using assms(3) by (auto simp: Bootstrap_def split: if_splits)
  note i = bootstrap_loop_inv [OF assms(2) b(1)]
  let ?cs = "take 20 (srt (closer h) (concat (buckets (routingTable d'))))"
  have "length (srt (closer h) xs) = length xs" for xs
    by (rule mset_eq_length [OF sort_slice.srt_mset [OF assms(1)]])
  then have "length ?cs > 0" using b(2) by (simp add: Count_sum)
  then have "GetPeers srt n' h d' \<noteq> Err No_nodes"
    by (cases "lookup_loop srt n' h maxIterations \<lparr>lk_dht = d', candidates = ?cs, queried = [], allPeers = [], newNodesFound = False\<rparr>")
      (auto simp: GetPeers_def FindClosest_take)
  then show ?thesis using i b(2) by (simp add: Count_sum)
qed

theorem bootstrap_then_lookup_witness:
  "\<exists>d'. Bootstrap demo_net (\<lambda>_. None) [''router''] demo_dht = Ret d' \<and> GetPeers isort_by demo_net (demo_id 3) d' \<noteq> Err No_nodes"
proof -
  have "case Bootstrap demo_net (\<lambda>_. None) [''router''] demo_dht of Ret d \<Rightarrow> True | _ \<Rightarrow> False" by code_simp
  then obtain d' where b: "Bootstrap demo_net (\<lambda>_. None) [''router''] demo_dht = Ret d'" by (auto split: outcome.splits)
  then show ?thesis using bootstrap_then_lookup [of "demo_id 3" isort_by, OF closer_isort demo_dht_inv b] by blast
qed

end
