(* ===== verification/Wire.thy ===== *)
theory Wire
  imports Go_Codec
begin

text \<open>
  The peer wire protocol, \<^verbatim>\<open>src/peer/message.go\<close> and \<^verbatim>\<open>src/peer/handshake.go\<close>: framed
  messages and the 68-byte handshake over a connection. A connection is the bytes the
  other side still delivers before it closes, the bytes written so far and the number
  of writes that still succeed. An operation on it returns its outcome and the
  connection afterwards.
\<close>

section \<open>Connections\<close>

datatype wire_error =
    EOF | ErrUnexpectedEOF | Write_failed
  | Reading_bitfield_length wire_error | Reading_bitfield wire_error
  | Sending_handshake wire_error | Reading_handshake wire_error | Reading_incoming_handshake wire_error

record conn =
  rx :: "byte list"
  tx :: "byte list"
  tx_left :: nat

type_synonym 'a io = "conn \<Rightarrow> (wire_error, 'a) outcome \<times> conn"

text \<open>Sequencing, over any state; an error or a panic ends the sequence.\<close>

definition io_ret :: "'a \<Rightarrow> 's \<Rightarrow> ('e, 'a) outcome \<times> 's" where
  "io_ret x c = (Ret x, c)"

definition io_bind ::
    "('s \<Rightarrow> ('e, 'a) outcome \<times> 's) \<Rightarrow> ('a \<Rightarrow> 's \<Rightarrow> ('e, 'b) outcome \<times> 's) \<Rightarrow> 's \<Rightarrow> ('e, 'b) outcome \<times> 's" where
  "io_bind m f c = (case m c of (Ret x, c') \<Rightarrow> f x c' | (Err e, c') \<Rightarrow> (Err e, c') | (Panic p, c') \<Rightarrow> (Panic p, c'))"

definition io_err :: "('e \<Rightarrow> 'f) \<Rightarrow> ('s \<Rightarrow> ('e, 'a) outcome \<times> 's) \<Rightarrow> 's \<Rightarrow> ('f, 'a) outcome \<times> 's" where
  "io_err f m c = (case m c of (r, c') \<Rightarrow> (map_err f r, c'))"

definition io_lift :: "('e, 'a) outcome \<Rightarrow> 's \<Rightarrow> ('e, 'a) outcome \<times> 's" where
  "io_lift r c = (r, c)"

text \<open>\<open>io.ReadFull\<close> into a buffer of \<open>n\<close> bytes, and \<open>conn.Write\<close>.\<close>

definition ReadFull :: "nat \<Rightarrow> byte list io" where
  "ReadFull n c =
     (if n \<le> length (rx c) then (Ret (take n (rx c)), c\<lparr>rx := drop n (rx c)\<rparr>)
      else (Err (if rx c = [] then EOF else ErrUnexpectedEOF), c\<lparr>rx := []\<rparr>))"

definition Write :: "byte list \<Rightarrow> unit io" where
  "Write bs c =
     (if tx_left c = 0 then (Err Write_failed, c)
      else (Ret (), c\<lparr>tx := tx c @ bs, tx_left := tx_left c - 1\<rparr>))"

lemma io_bind_Ret_iff: "io_bind m f c = (Ret y, c') \<longleftrightarrow> (\<exists>x c1. m c = (Ret x, c1) \<and> f x c1 = (Ret y, c'))"
  by (auto simp: io_bind_def split: prod.splits outcome.splits)

lemmas io_defs = io_bind_def io_ret_def io_err_def

section \<open>Messages\<close>

definition MsgChoke :: byte where "MsgChoke = 0"
definition MsgUnchoke :: byte where "MsgUnchoke = 1"
definition MsgInterested :: byte where "MsgInterested = 2"
definition MsgNotInterested :: byte where "MsgNotInterested = 3"
definition MsgHave :: byte where "MsgHave = 4"
definition MsgBitfield :: byte where "MsgBitfield = 5"
definition MsgRequest :: byte where "MsgRequest = 6"
definition MsgPiece :: byte where "MsgPiece = 7"
definition MsgCancel :: byte where "MsgCancel = 8"
definition MsgExtension :: byte where "MsgExtension = 20"

lemmas msg_ids = MsgChoke_def MsgUnchoke_def MsgInterested_def MsgNotInterested_def MsgHave_def
  MsgBitfield_def MsgRequest_def MsgPiece_def MsgCancel_def MsgExtension_def

text \<open>
  \<open>readMessage\<close>: the id, the payload (\<open>None\<close> for the nil payload of a keepalive) and whether the
  payload lies in a buffer of \<open>MessageBufferPool\<close>, which the caller has to put back.
\<close>

definition readMessage :: "(byte \<times> byte list option \<times> bool) io" where
  "readMessage =
     io_bind (ReadFull 4) (\<lambda>lengthBuf.
       let msgLen = Uint32 lengthBuf in
       if msgLen = 0 then io_ret (0, None, False)
       else
         (let pooled = msgLen \<le> 17000 in
          io_bind (ReadFull (unat msgLen)) (\<lambda>msgBuf. io_ret (msgBuf ! 0, Some (drop 1 msgBuf), pooled))))"

definition ReadMessage :: "(byte \<times> byte list option) io" where
  "ReadMessage = io_bind readMessage (\<lambda>(mid, payload, pooled). io_ret (mid, payload))"

text \<open>The length field is \<open>uint32(1+len(payload))\<close>, which truncates a payload of 4 GiB or more.\<close>

definition frame :: "byte \<Rightarrow> byte list \<Rightarrow> byte list" where
  "frame mid payload = PutUint32 (u32 (1 + int (length payload))) @ [mid] @ payload"

definition WriteMessage :: "byte \<Rightarrow> byte list \<Rightarrow> unit io" where
  "WriteMessage mid payload = Write (frame mid payload)"

definition ReadBitfield :: "unit io" where
  "ReadBitfield =
     io_bind (io_err Reading_bitfield_length (ReadFull 4)) (\<lambda>lengthBuf.
       let msgLen = Uint32 lengthBuf in
       if msgLen > 0 then io_bind (io_err Reading_bitfield (ReadFull (unat msgLen))) (\<lambda>_. io_ret ())
       else io_ret ())"

text \<open>\<open>ParseRequest\<close>; its one caller has checked that there are twelve bytes.\<close>

definition ParseRequest :: "byte list \<Rightarrow> ('e, 32 word \<times> 32 word \<times> 32 word) outcome" where
  "ParseRequest payload =
     go_bind (go_slice payload 0 4) (\<lambda>i. go_bind (go_slice payload 4 8) (\<lambda>b.
       go_bind (go_slice payload 8 12) (\<lambda>l. Ret (Uint32 i, Uint32 b, Uint32 l))))"

section \<open>Handshake\<close>

text \<open>\<open>copy(dst[lo:hi], src)\<close>.\<close>

definition copy_into :: "nat \<Rightarrow> nat \<Rightarrow> byte list \<Rightarrow> byte list \<Rightarrow> byte list" where
  "copy_into lo hi src dst = take lo dst @ take (hi - lo) src @ drop (lo + min (hi - lo) (length src)) dst"

definition our_peerId :: "byte list" where
  "our_peerId = bytes_of ''-MT1230-rT6yUi8OpLkJ''"

definition handshake_bytes :: "byte list \<Rightarrow> bool \<Rightarrow> byte list" where
  "handshake_bytes infoHash extensions =
     (let h = (replicate 68 0)[0 := 19];
          h = copy_into 1 20 (bytes_of ''BitTorrent protocol'') h;
          h = (if extensions then h[25 := 0x10] else h);
          h = copy_into 28 48 infoHash h
      in copy_into 48 68 our_peerId h)"

definition DoHandshake :: "byte list \<Rightarrow> bool \<Rightarrow> (byte list \<times> bool) io" where
  "DoHandshake infoHash extensions =
     io_bind (io_err Sending_handshake (Write (handshake_bytes infoHash extensions))) (\<lambda>_.
       io_bind (io_err Reading_handshake (ReadFull 68)) (\<lambda>response.
         io_ret (sub response 48 68, response ! 25 AND 0x10 \<noteq> 0)))"

definition ReceiveHandshake :: "(byte list \<times> byte list) io" where
  "ReceiveHandshake =
     io_bind (io_err Reading_incoming_handshake (ReadFull 68)) (\<lambda>response.
       io_ret (sub response 28 48, sub response 48 68))"

section \<open>Framing\<close>

definition msg_ok :: "byte \<times> byte list \<Rightarrow> bool" where
  "msg_ok m \<longleftrightarrow> int (length (snd m)) + 1 < 2 ^ 32"

lemma unat_u32: "0 \<le> n \<Longrightarrow> n < 2 ^ 32 \<Longrightarrow> unat (u32 n) = nat n"
  using int_of_u32_u32 [of n] unfolding int_of_u32_def unat_eq_nat_uint by simp

lemma length_frame [simp]: "length (frame mid payload) = 5 + length payload"
  by (simp add: frame_def)

lemma readMessage_frame:
  assumes "msg_ok (mid, payload)" and "rx c = frame mid payload @ rest"
  shows "readMessage c = (Ret (mid, Some payload, length payload < 17000), c\<lparr>rx := rest\<rparr>)"
proof -
  let ?n = "1 + int (length payload)"
  let ?w = "u32 ?n"
  have n: "unat ?w = Suc (length payload)"
    using unat_u32 [of ?n] assms(1) by (simp add: msg_ok_def nat_add_distrib)
  have "?w \<noteq> 0" using n by (metis nat.distinct(1) unat_0)
  moreover have "?w \<le> 17000 \<longleftrightarrow> length payload < 17000"
    unfolding word_le_nat_alt n by (simp add: Suc_le_eq)
  moreover have "ReadFull 4 c = (Ret (PutUint32 ?w), c\<lparr>rx := mid # payload @ rest\<rparr>)"
    by (simp add: ReadFull_def assms(2) frame_def)
  moreover have "ReadFull (Suc (length payload)) (c\<lparr>rx := mid # payload @ rest\<rparr>) = (Ret (mid # payload), c\<lparr>rx := rest\<rparr>)"
    by (simp add: ReadFull_def)
  ultimately show ?thesis
    by (simp add: readMessage_def io_defs n)
qed

lemma readMessage_exact:
  assumes "readMessage c = (Ret (mid, Some payload, pooled), c')"
  shows "msg_ok (mid, payload)" and "rx c = frame mid payload @ rx c'" and "c' = c\<lparr>rx := rx c'\<rparr>"
    and "pooled = (length payload < 17000)"
proof -
  let ?b = "take 4 (rx c)" and ?r = "drop 4 (rx c)"
  let ?n = "unat (Uint32 ?b)"
  have l: "4 \<le> length (rx c)" and z: "Uint32 ?b \<noteq> 0" and m: "?n \<le> length ?r"
    and e: "mid = take ?n ?r ! 0" "payload = drop 1 (take ?n ?r)" "c' = c\<lparr>rx := drop ?n ?r\<rparr>" "pooled \<longleftrightarrow> Uint32 ?b \<le> 17000"
    using assms unfolding readMessage_def io_defs ReadFull_def Let_def
    by (auto split: if_splits)
  have p: "?n > 0" using z by (metis unat_gt_0)
  then have f: "take ?n ?r = mid # payload"
    using e(1,2) m by (cases "take ?n ?r") auto
  have n: "1 + length payload = ?n"
  proof -
    have "length (take ?n ?r) = ?n" using m by simp
    then show ?thesis unfolding f by simp
  qed
  then have w: "u32 (1 + int (length payload)) = Uint32 ?b"
  proof -
    have "1 + int (length payload) = int_of_u32 (Uint32 ?b)"
      using arg_cong [OF n, of int] by (simp add: int_of_u32_def)
    then show ?thesis by (simp only: u32_int_of_u32)
  qed
  have "unat (Uint32 ?b) < 2 ^ 32" using unsigned_less [of "Uint32 ?b", where ?'a = nat] by simp
  then show "msg_ok (mid, payload)" using n by (simp add: msg_ok_def)
  show "c' = c\<lparr>rx := rx c'\<rparr>" by (simp add: e)
  have "take ?n ?r @ drop ?n ?r = ?r" by (rule append_take_drop_id)
  then have r: "?r = mid # payload @ rx c'" unfolding f by (simp add: e(3))
  have "PutUint32 (Uint32 ?b) = ?b" using l by simp
  moreover have "rx c = ?b @ ?r" by simp
  ultimately show "rx c = frame mid payload @ rx c'"
    unfolding frame_def w r by simp
  have "Uint32 ?b \<le> 17000 \<longleftrightarrow> length payload < 17000" unfolding word_le_nat_alt n [symmetric] by (simp add: less_Suc_eq_le [symmetric])
  then show "pooled = (length payload < 17000)" by (simp add: e)
qed

definition parse_frame :: "byte list \<Rightarrow> ((byte \<times> byte list) \<times> byte list) option" where
  "parse_frame bs =
     (case readMessage \<lparr>rx = bs, tx = [], tx_left = 0\<rparr> of
        (Ret (mid, Some payload, _), c) \<Rightarrow> Some ((mid, payload), rx c)
      | _ \<Rightarrow> None)"

interpretation frames: self_delimiting msg_ok "\<lambda>m. frame (fst m) (snd m)" parse_frame
  by unfold_locales (auto simp: parse_frame_def readMessage_frame)

lemma readMessage_rx:
  "readMessage c = (r, c') \<Longrightarrow> \<exists>n. rx c' = drop n (rx c) \<and> tx c' = tx c \<and> tx_left c' = tx_left c"
  unfolding readMessage_def io_defs ReadFull_def Let_def
  by (auto split: if_splits intro: exI [of _ "length (rx c)"])

lemma readMessage_progress: "readMessage c = (Ret m, c') \<Longrightarrow> length (rx c') < length (rx c)"
  unfolding readMessage_def io_defs ReadFull_def Let_def by (auto split: if_splits)

lemma ReadMessage_progress: "ReadMessage c = (Ret m, c') \<Longrightarrow> length (rx c') < length (rx c)"
  using readMessage_progress [of c] by (auto simp: ReadMessage_def io_defs split: prod.splits outcome.splits)

lemma ReadMessage_frame:
  "msg_ok (mid, payload) \<Longrightarrow> rx c = frame mid payload @ rest \<Longrightarrow> ReadMessage c = (Ret (mid, Some payload), c\<lparr>rx := rest\<rparr>)"
  by (simp add: ReadMessage_def io_defs readMessage_frame)

text \<open>A message on the wire, or a keepalive.\<close>

definition wire_bytes :: "(byte \<times> byte list) option \<Rightarrow> byte list" where
  "wire_bytes m = (case m of None \<Rightarrow> [0, 0, 0, 0] | Some (mid, payload) \<Rightarrow> frame mid payload)"

definition wire_ok :: "(byte \<times> byte list) option \<Rightarrow> bool" where
  "wire_ok m = (case m of None \<Rightarrow> True | Some m \<Rightarrow> msg_ok m)"

lemma ReadMessage_wire:
  assumes "wire_ok m" and "rx c = wire_bytes m @ rest"
  shows "ReadMessage c = (Ret (case m of None \<Rightarrow> (0, None) | Some (mid, payload) \<Rightarrow> (mid, Some payload)), c\<lparr>rx := rest\<rparr>)"
proof (cases m)
  case None
  have "Uint32 [0, 0, 0, 0] = 0" by (simp add: Uint32_def)
  with None assms show ?thesis
    by (simp add: ReadMessage_def readMessage_def io_defs ReadFull_def wire_bytes_def)
next
  case (Some a)
  then show ?thesis using assms ReadMessage_frame [of "fst a" "snd a" c rest]
    by (simp add: wire_ok_def wire_bytes_def split: prod.splits)
qed

section \<open>The layout of the handshake\<close>

lemma copy_into_length:
  "lo \<le> hi \<Longrightarrow> hi \<le> length dst \<Longrightarrow> length (copy_into lo hi src dst) = length dst"
  by (simp add: copy_into_def)

lemma copy_into_full:
  "lo \<le> hi \<Longrightarrow> length src = hi - lo \<Longrightarrow> copy_into lo hi src dst = take lo dst @ src @ drop hi dst"
  by (simp add: copy_into_def)

definition reserved :: "bool \<Rightarrow> byte list" where
  "reserved ext = [0, 0, 0, 0, 0, if ext then 0x10 else 0, 0, 0]"

lemma handshake_layout:
  assumes "length infoHash = 20"
  shows "handshake_bytes infoHash ext = 19 # bytes_of ''BitTorrent protocol'' @ reserved ext @ infoHash @ our_peerId"
proof -
  have z: "replicate 68 (0 :: byte) = replicate 20 0 @ replicate 8 0 @ replicate 40 0"
    by (simp flip: replicate_add)
  have 8: "replicate 8 (0 :: byte) = [0, 0, 0, 0, 0, 0, 0, 0]" by (simp add: eval_nat_numeral)
  have n: "length our_peerId = 20" by (simp add: our_peerId_def)
  have l: "length (bytes_of ''BitTorrent protocol'') = 19" by simp
  let ?h = "19 # bytes_of ''BitTorrent protocol''"
  have 1: "copy_into 1 20 (bytes_of ''BitTorrent protocol'') ((replicate 68 0)[0 := 19]) = ?h @ replicate 8 0 @ replicate 40 0"
    by (simp add: copy_into_full l z) (simp add: eval_nat_numeral)
  have 2: "(if ext then (?h @ replicate 8 0 @ replicate 40 0)[25 := 0x10] else ?h @ replicate 8 0 @ replicate 40 0)
      = ?h @ reserved ext @ replicate 40 0"
    by (simp add: reserved_def 8 list_update_append eval_nat_numeral)
  have r: "length (reserved ext) = 8" by (simp add: reserved_def)
  show ?thesis
    unfolding handshake_bytes_def Let_def 1 2
    using assms by (simp add: copy_into_full n r l)
qed

lemma length_handshake [simp]: "length (handshake_bytes infoHash ext) = 68"
proof -
  have "length our_peerId = 20" by (simp add: our_peerId_def)
  then show ?thesis unfolding handshake_bytes_def Let_def by (simp add: copy_into_length)
qed

lemma ReadFull_append: "rx c = bs @ rest \<Longrightarrow> n = length bs \<Longrightarrow> ReadFull n c = (Ret bs, c\<lparr>rx := rest\<rparr>)"
  by (simp add: ReadFull_def)

lemma reserved_ext: "(19 # bytes_of ''BitTorrent protocol'' @ reserved ext @ r) ! 25 AND 0x10 \<noteq> 0 \<longleftrightarrow> ext"
proof -
  have "(19 # bytes_of ''BitTorrent protocol'' @ reserved ext @ r) ! 25 = (if ext then 0x10 else 0)"
    by (simp add: nth_append reserved_def)
  then show ?thesis by simp
qed

lemma handshake_fields:
  assumes "length infoHash = 20"
  shows "sub (handshake_bytes infoHash ext) 28 48 = infoHash" and "sub (handshake_bytes infoHash ext) 48 68 = our_peerId"
    and "handshake_bytes infoHash ext ! 25 AND 0x10 \<noteq> 0 \<longleftrightarrow> ext"
  using assms reserved_ext [of ext "infoHash @ our_peerId"]
  by (simp_all add: handshake_layout sub_def reserved_def our_peerId_def)

section \<open>Theorems\<close>

text \<open>Writing a list of messages.\<close>

fun WriteMessages :: "(byte \<times> byte list) list \<Rightarrow> unit io" where
  "WriteMessages [] = io_ret ()"
| "WriteMessages (m # ms) = io_bind (WriteMessage (fst m) (snd m)) (\<lambda>_. WriteMessages ms)"

lemma WriteMessages_tx:
  "length ms \<le> tx_left c \<Longrightarrow>
     \<exists>c'. WriteMessages ms c = (Ret (), c') \<and> tx c' = tx c @ concat (map (\<lambda>m. frame (fst m) (snd m)) ms) \<and> rx c' = rx c"
proof (induction ms arbitrary: c)
  case (Cons m ms)
  then show ?case
    using Cons.IH [of "c\<lparr>tx := tx c @ frame (fst m) (snd m), tx_left := tx_left c - 1\<rparr>"]
    by (auto simp: io_defs WriteMessage_def Write_def)
qed (simp add: io_ret_def)

text \<open>
  C22. \<open>readMessage\<close> returns an id and a payload exactly when the bytes in front of the
  connection are the frame that \<open>WriteMessage\<close> sends for them; it then consumes these bytes and
  nothing more, and reports a pooled buffer exactly for a message of at most 17000 bytes.
\<close>
theorem readMessage_reads_frames:
  "readMessage c = (Ret (mid, Some payload, pooled), c') \<longleftrightarrow>
     msg_ok (mid, payload) \<and> rx c = frame mid payload @ rx c' \<and> c' = c\<lparr>rx := rx c'\<rparr> \<and>
     pooled = (1 + length payload \<le> 17000)"
proof
  assume "readMessage c = (Ret (mid, Some payload, pooled), c')"
  from readMessage_exact [OF this] show "msg_ok (mid, payload) \<and> rx c = frame mid payload @ rx c' \<and>
      c' = c\<lparr>rx := rx c'\<rparr> \<and> pooled = (1 + length payload \<le> 17000)"
    by auto
next
  assume "msg_ok (mid, payload) \<and> rx c = frame mid payload @ rx c' \<and>
      c' = c\<lparr>rx := rx c'\<rparr> \<and> pooled = (1 + length payload \<le> 17000)"
  then show "readMessage c = (Ret (mid, Some payload, pooled), c')"
    using readMessage_frame [of mid payload c "rx c'"] by (simp add: less_eq_Suc_le)
qed

text \<open>
  \<open>readMessage\<close> never panics, whatever the other side sends: it reports a keepalive for a
  zero length, and fails exactly when the connection ends inside the length or inside the
  announced message.
\<close>
theorem readMessage_errors:
  "(\<forall>p. fst (readMessage c) \<noteq> Panic p) \<and>
   ((\<exists>e. fst (readMessage c) = Err e) \<longleftrightarrow>
      length (rx c) < 4 \<or> length (rx c) < 4 + unat (Uint32 (take 4 (rx c)))) \<and>
   (4 \<le> length (rx c) \<and> Uint32 (take 4 (rx c)) = 0 \<longleftrightarrow> fst (readMessage c) = Ret (0, None, False))"
proof -
  consider "length (rx c) < 4" | "4 \<le> length (rx c)" "Uint32 (take 4 (rx c)) = 0"
    | "4 \<le> length (rx c)" "Uint32 (take 4 (rx c)) \<noteq> 0" "unat (Uint32 (take 4 (rx c))) \<le> length (rx c) - 4"
    | "4 \<le> length (rx c)" "Uint32 (take 4 (rx c)) \<noteq> 0" "\<not> unat (Uint32 (take 4 (rx c))) \<le> length (rx c) - 4"
    by linarith
  then show ?thesis
    unfolding readMessage_def io_defs ReadFull_def Let_def by cases auto
qed

text \<open>
  Messages written one after the other on one side are read back on the other side in
  the same order, with nothing left over.
\<close>
theorem message_stream:
  assumes "list_all msg_ok ms" and "length ms \<le> tx_left a" and "tx a = []"
  shows "\<exists>a'. WriteMessages ms a = (Ret (), a') \<and> read_all parse_frame (length ms) (tx a') = Some (ms, [])"
  using WriteMessages_tx [OF assms(2)] frames.read_all_stream [OF assms(1), of "[]"] assms(3) by auto

theorem message_stream_witness:
  "\<exists>a'. WriteMessages [(2, []), (6, [0, 1])] \<lparr>rx = [], tx = [], tx_left = 2\<rparr> = (Ret (), a') \<and>
     read_all parse_frame 2 (tx a') = Some ([(2, []), (6, [0, 1])], [])"
  using message_stream [of "[(2, []), (6, [0, 1])]" "\<lparr>rx = [], tx = [], tx_left = 2\<rparr>"]
  by (simp add: msg_ok_def numeral_2_eq_2)

text \<open>
  Handshakes agree: what \<open>DoHandshake\<close> sends is read by \<open>ReceiveHandshake\<close> as the same
  info hash and our peer id, and by another \<open>DoHandshake\<close> as our peer id and the extension
  bit that was sent; both consume exactly its 68 bytes.
\<close>
theorem handshake_roundtrip:
  assumes "length infoHash = 20" and "rx c = handshake_bytes infoHash ext @ rest" and "0 < tx_left c"
  shows "ReceiveHandshake c = (Ret (infoHash, our_peerId), c\<lparr>rx := rest\<rparr>) \<and>
    DoHandshake h e c = (Ret (our_peerId, ext),
      c\<lparr>rx := rest, tx := tx c @ handshake_bytes h e, tx_left := tx_left c - 1\<rparr>)"
proof -
  let ?c = "c\<lparr>tx := tx c @ handshake_bytes h e, tx_left := tx_left c - 1\<rparr>"
  have "ReadFull 68 c = (Ret (handshake_bytes infoHash ext), c\<lparr>rx := rest\<rparr>)"
    "ReadFull 68 ?c = (Ret (handshake_bytes infoHash ext), ?c\<lparr>rx := rest\<rparr>)"
    by (rule ReadFull_append; simp add: assms(2))+
  then show ?thesis
    using assms(3) handshake_fields [OF assms(1), of ext]
    by (simp add: ReceiveHandshake_def DoHandshake_def io_defs Write_def)
qed

theorem handshake_roundtrip_witness:
  "fst (ReceiveHandshake \<lparr>rx = handshake_bytes (replicate 20 7) True, tx = [], tx_left = 1\<rparr>) = Ret (replicate 20 7, our_peerId)"
  using handshake_roundtrip [of "replicate 20 7" "\<lparr>rx = handshake_bytes (replicate 20 7) True, tx = [], tx_left = 1\<rparr>" True "[]"]
  by simp

end
