(* ===== verification/Peer_Client.thy ===== *)
theory Peer_Client
  imports Wire Bencode
begin

text \<open>
  The client side of a peer connection, \<^verbatim>\<open>src/peer/client.go\<close>: dialling, and the blocking
  operations that download one piece. The connection of a client is that of \<open>Wire\<close>: the
  bytes that arrive before the deadline in force or before the other side closes. In
  \<open>NewClient\<close>, whose loop ends when nothing arrives for 1.5 seconds, the bytes that come after
  that silence are an argument.
\<close>

section \<open>The model\<close>

record OutstandingRequest =
  or_Index :: int
  or_Begin :: int
  or_Len :: int
  or_Sent :: int

text \<open>
  \<open>Client\<close>. \<open>cl_done\<close> is the channel \<open>done\<close>: \<open>None\<close> before \<open>StartLoop\<close> makes it, then whether it is
  closed. The queue \<open>writeCh\<close> holds what the writer has still to send.
\<close>

record Client =
  cl_Conn :: conn
  cl_Closed :: bool
  cl_Address :: string
  cl_PeerID :: "byte list"
  PeerMetadataExtId :: int
  SupportsExtensions :: bool
  ExtensionHandshakeSent :: bool
  bufferedMsgs :: "(byte \<times> byte list) list"
  Choked :: bool
  LastRead :: int
  LastWrite :: int
  StallScore :: int
  OutstandingRequests :: "(string, OutstandingRequest) gomap"
  writeCh :: "byte list list"
  cl_done :: "bool option"

datatype client_error =
    Connecting | Handshaking wire_error | Peer_without_extensions | Sending_extension_handshake wire_error
  | Reading_initial wire_error | Waiting_for_unchoke wire_error | Sending_request wire_error | Reading_block wire_error
  | Sending_interested wire_error
  | Reading_extension wire_error | Decoding_extension bencode_error | Missing_m | Missing_ut_metadata
  | Sending_metadata_request wire_error | Reading_metadata wire_error | Decoding_metadata bencode_error
  | Missing_msg_type | Metadata_rejected int | Invalid_total_size int | Requesting_metadata int client_error

type_synonym 'a cio = "Client \<Rightarrow> (client_error, 'a) outcome \<times> Client"

definition on_conn :: "(wire_error \<Rightarrow> client_error) \<Rightarrow> 'a io \<Rightarrow> 'a cio" where
  "on_conn f m c = (case m (cl_Conn c) of (r, k) \<Rightarrow> (map_err f r, c\<lparr>cl_Conn := k\<rparr>))"

text \<open>\<open>make([]byte, n)\<close> panics for a negative length and for one beyond the address space of 48 bits.\<close>

definition go_make :: "int \<Rightarrow> ('e, byte list) outcome" where
  "go_make n = (if n < 0 \<or> n > 2 ^ 48 then Panic Makeslice_len else Ret (replicate (nat n) 0))"

definition extension_payload :: "byte list" where
  "extension_payload = 0 # bytes_of ''d1:md11:ut_metadatai1eee''"

definition is_extension_handshake :: "byte \<Rightarrow> byte list \<Rightarrow> bool" where
  "is_extension_handshake mid payload \<longleftrightarrow> mid = MsgExtension \<and> length payload > 1 \<and> payload ! 0 = 0"

text \<open>
  A message that arrives while the client is set up: a bitfield is dropped, the peer's
  extension handshake is read for the id of \<open>ut_metadata\<close>, everything else is buffered.
\<close>

definition on_initial :: "byte \<Rightarrow> byte list \<Rightarrow> Client \<Rightarrow> (client_error, Client) outcome" where
  "on_initial mid payload c =
     (if mid = MsgBitfield then Ret c
      else if is_extension_handshake mid payload then
        (case DecodeDict (string_of (drop 1 payload)) 0 of
           Ret ((extDict, rawValues), pos) \<Rightarrow>
             (case Option.bind (as_dict (map_get extDict ''m'')) (\<lambda>mDict. as_int (map_get mDict ''ut_metadata'')) of
                Some peerExtId \<Rightarrow> Ret (c\<lparr>PeerMetadataExtId := peerExtId\<rparr>)
              | None \<Rightarrow> Ret c)
         | Err e \<Rightarrow> Ret c
         | Panic p \<Rightarrow> Panic p)
      else Ret (c\<lparr>bufferedMsgs := bufferedMsgs c @ [(mid, payload)]\<rparr>))"

lemma on_initial_conn: "on_initial mid payload c = Ret c' \<Longrightarrow> cl_Conn c' = cl_Conn c"
  by (auto simp: on_initial_def split: if_splits outcome.splits option.splits)

text \<open>
  The loop over the initial messages. It ends when a read fails: with the timeout if more
  bytes are to come later, otherwise with an error. What was read of an incomplete message
  is lost either way.
\<close>

function init_loop :: "byte list option \<Rightarrow> unit cio" where
  "init_loop later c =
     (case ReadMessage (cl_Conn c) of
        (Err e, k) \<Rightarrow>
          (case later of
             Some bs \<Rightarrow> (Ret (), c\<lparr>cl_Conn := k\<lparr>rx := rx k @ bs\<rparr>\<rparr>)
           | None \<Rightarrow> (Err (Reading_initial e), c\<lparr>cl_Conn := k, cl_Closed := True\<rparr>))
      | (Panic p, k) \<Rightarrow> (Panic p, c\<lparr>cl_Conn := k\<rparr>)
      | (Ret (mid, None), k) \<Rightarrow> init_loop later (c\<lparr>cl_Conn := k\<rparr>)
      | (Ret (mid, Some payload), k) \<Rightarrow>
          (case on_initial mid payload (c\<lparr>cl_Conn := k\<rparr>) of
             Ret c' \<Rightarrow> init_loop later c'
           | Err e \<Rightarrow> (Err e, c\<lparr>cl_Conn := k\<rparr>)
           | Panic p \<Rightarrow> (Panic p, c\<lparr>cl_Conn := k\<rparr>)))"
  by pat_completeness auto
termination
  by (relation "measure (\<lambda>(_, c). length (rx (cl_Conn c)))")
    (auto dest!: ReadMessage_progress [OF sym] on_initial_conn)

declare init_loop.simps [simp del]

text \<open>The client a successful handshake makes; every other field has its zero value.\<close>

definition new_client :: "conn \<Rightarrow> string \<Rightarrow> byte list \<Rightarrow> bool \<Rightarrow> Client" where
  "new_client k address peerID supportsExtensions =
     \<lparr>cl_Conn = k, cl_Closed = False, cl_Address = address, cl_PeerID = peerID, PeerMetadataExtId = 0,
      SupportsExtensions = supportsExtensions, ExtensionHandshakeSent = False, bufferedMsgs = [], Choked = False,
      LastRead = 0, LastWrite = 0, StallScore = 0, OutstandingRequests = [], writeCh = [], cl_done = None\<rparr>"

definition send_extension_handshake :: "unit cio" where
  "send_extension_handshake =
     io_bind (on_conn Sending_extension_handshake (WriteMessage MsgExtension extension_payload)) (\<lambda>_ c.
       (Ret (), c\<lparr>ExtensionHandshakeSent := True\<rparr>))"

definition NewClient :: "conn option \<Rightarrow> byte list option \<Rightarrow> string \<Rightarrow> byte list \<Rightarrow> bool \<Rightarrow> (client_error, Client) outcome" where
  "NewClient dial later address infoHash extensions =
     (case dial of
        None \<Rightarrow> Err Connecting
      | Some k \<Rightarrow>
          (case DoHandshake infoHash extensions k of
             (Err e, k) \<Rightarrow> Err (Handshaking e)
           | (Panic p, k) \<Rightarrow> Panic p
           | (Ret (peerID, supportsExtensions), k) \<Rightarrow>
               if extensions \<and> \<not> supportsExtensions then Err Peer_without_extensions
               else
                 (case io_bind (if extensions \<and> supportsExtensions then send_extension_handshake else io_ret ())
                         (\<lambda>_. init_loop later) (new_client k address peerID supportsExtensions) of
                    (Ret _, c) \<Rightarrow> Ret c
                  | (Err e, c) \<Rightarrow> Err e
                  | (Panic p, c) \<Rightarrow> Panic p)))"

text \<open>\<open>Client.ReadMessage\<close>.\<close>

definition Client_ReadMessage :: "(wire_error \<Rightarrow> client_error) \<Rightarrow> (byte \<times> byte list option) cio" where
  "Client_ReadMessage f c =
     (case bufferedMsgs c of
        (mid, payload) # msgs \<Rightarrow> (Ret (mid, Some payload), c\<lparr>bufferedMsgs := msgs\<rparr>)
      | [] \<Rightarrow> on_conn f ReadMessage c)"

definition unread :: "Client \<Rightarrow> nat" where
  "unread c = length (bufferedMsgs c) + length (rx (cl_Conn c))"

lemma Client_ReadMessage_progress: "Client_ReadMessage f c = (Ret m, c') \<Longrightarrow> unread c' < unread c"
  by (auto simp: Client_ReadMessage_def on_conn_def unread_def dest!: ReadMessage_progress
      split: list.splits prod.splits)

definition SendInterested :: "unit cio" where
  "SendInterested = on_conn Sending_interested (WriteMessage MsgInterested [])"

function WaitForUnchoke :: "unit cio" where
  "WaitForUnchoke c =
     (case Client_ReadMessage Waiting_for_unchoke c of
        (Err e, c) \<Rightarrow> (Err e, c)
      | (Panic p, c) \<Rightarrow> (Panic p, c)
      | (Ret (mid, None), c) \<Rightarrow> WaitForUnchoke c
      | (Ret (mid, Some payload), c) \<Rightarrow> if mid = MsgUnchoke then (Ret (), c) else WaitForUnchoke c)"
  by pat_completeness auto
termination
  by (relation "measure unread") (auto dest!: Client_ReadMessage_progress [OF sym])

declare WaitForUnchoke.simps [simp del]

section \<open>Downloading a piece\<close>

text \<open>\<open>binary.BigEndian.Uint32(payload[4:8])\<close> and \<open>copy(pieceData[begin:], payload[8:])\<close>.\<close>

definition place_block :: "byte list \<Rightarrow> byte list \<Rightarrow> ('e, byte list) outcome" where
  "place_block payload pieceData =
     (if length payload < 8 then Panic Slice_bounds
      else
        (let begin = Uint32 (sub payload 4 8) in
         if int_of_u32 begin > int (length pieceData) then Panic Slice_bounds
         else Ret (go_copy pieceData (unat begin) (drop 8 payload))))"

function receive_blocks :: "nat \<Rightarrow> byte list \<Rightarrow> byte list cio" where
  "receive_blocks 0 pieceData c = (Ret pieceData, c)"
| "receive_blocks (Suc n) pieceData c =
     (case Client_ReadMessage Reading_block c of
        (Err e, c) \<Rightarrow> (Err e, c)
      | (Panic p, c) \<Rightarrow> (Panic p, c)
      | (Ret (mid, None), c) \<Rightarrow> receive_blocks (Suc n) pieceData c
      | (Ret (mid, Some payload), c) \<Rightarrow>
          if mid \<noteq> MsgPiece then receive_blocks (Suc n) pieceData c
          else
            (case place_block payload pieceData of
               Ret pieceData \<Rightarrow> receive_blocks n pieceData c
             | Err e \<Rightarrow> (Err e, c)
             | Panic p \<Rightarrow> (Panic p, c)))"
  by pat_completeness auto
termination
  by (relation "measure (\<lambda>(_, _, c). unread c)") (auto dest!: Client_ReadMessage_progress [OF sym])

declare receive_blocks.simps(2) [simp del]

text \<open>One request: the block \<open>i\<close> of 16 KiB, the last one shorter.\<close>

definition block_request :: "int \<Rightarrow> int \<Rightarrow> nat \<Rightarrow> byte list" where
  "block_request pieceIndex pieceLength i =
     (let offset = int i * 16384;
          len = (if offset + 16384 > pieceLength then pieceLength - offset else 16384) in
      PutUint32 (u32 pieceIndex) @ PutUint32 (u32 offset) @ PutUint32 (u32 len))"

fun send_requests :: "int \<Rightarrow> int \<Rightarrow> nat list \<Rightarrow> unit cio" where
  "send_requests pieceIndex pieceLength [] = io_ret ()"
| "send_requests pieceIndex pieceLength (i # is) =
     io_bind (on_conn Sending_request (WriteMessage MsgRequest (block_request pieceIndex pieceLength i))) (\<lambda>_.
       send_requests pieceIndex pieceLength is)"

definition DownloadPiece :: "int \<Rightarrow> int \<Rightarrow> byte list cio" where
  "DownloadPiece pieceIndex pieceLength =
     io_bind (io_lift (go_div (wrap64 (wrap64 (pieceLength + 16384) - 1)) 16384)) (\<lambda>totalBlocks.
     io_bind (io_lift (go_make pieceLength)) (\<lambda>pieceData.
     io_bind (send_requests pieceIndex pieceLength [0..<nat totalBlocks]) (\<lambda>_.
       receive_blocks (nat totalBlocks) pieceData)))"

text \<open>\<open>Close\<close>: a second call after \<open>StartLoop\<close> returns before it closes the connection again.\<close>

definition Close :: "Client \<Rightarrow> Client" where
  "Close c =
     (case cl_done c of
        Some True \<Rightarrow> c
      | Some False \<Rightarrow> c\<lparr>cl_done := Some True, cl_Closed := True\<rparr>
      | None \<Rightarrow> c\<lparr>cl_Closed := True\<rparr>)"

section \<open>Receiving blocks\<close>

fun place_all :: "byte list list \<Rightarrow> byte list \<Rightarrow> ('e, byte list) outcome" where
  "place_all [] d = Ret d"
| "place_all (b # bs) d = go_bind (place_block b d) (place_all bs)"

text \<open>The payloads of the piece messages of a stream.\<close>

definition piece_payloads :: "(byte \<times> byte list) option list \<Rightarrow> byte list list" where
  "piece_payloads ms = List.map_filter (\<lambda>m. case m of Some (mid, p) \<Rightarrow> if mid = MsgPiece then Some p else None | None \<Rightarrow> None) ms"

lemma piece_payloads_simps [simp]:
  "piece_payloads [] = []" "piece_payloads (None # ms) = piece_payloads ms"
  "piece_payloads (Some (mid, p) # ms) = (if mid = MsgPiece then p # piece_payloads ms else piece_payloads ms)"
  by (simp_all add: piece_payloads_def List.map_filter_simps)

lemma Client_ReadMessage_wire:
  assumes "bufferedMsgs c = []" and "wire_ok m" and "rx (cl_Conn c) = wire_bytes m @ rest"
  shows "Client_ReadMessage f c = (Ret (case m of None \<Rightarrow> (0, None) | Some (mid, payload) \<Rightarrow> (mid, Some payload)),
    c\<lparr>cl_Conn := (cl_Conn c)\<lparr>rx := rest\<rparr>\<rparr>)"
  using assms ReadMessage_wire [OF assms(2,3)] by (simp add: Client_ReadMessage_def on_conn_def split: option.splits)

text \<open>A client that will read the messages \<open>ms\<close>.\<close>

definition reads :: "(byte \<times> byte list) option list \<Rightarrow> Client \<Rightarrow> bool" where
  "reads ms c \<longleftrightarrow> bufferedMsgs c = [] \<and> list_all wire_ok ms \<and> (\<exists>rest. rx (cl_Conn c) = concat (map wire_bytes ms) @ rest)"

definition same_client :: "Client \<Rightarrow> Client \<Rightarrow> bool" where
  "same_client c c' \<longleftrightarrow> (\<exists>k. c' = c\<lparr>cl_Conn := k\<rparr>)"

lemma same_client_refl: "same_client c c"
  unfolding same_client_def by (rule exI [of _ "cl_Conn c"]) simp

lemma same_client_trans: "same_client c d \<Longrightarrow> same_client d e \<Longrightarrow> same_client c e"
  by (auto simp: same_client_def)

lemma reads_Cons:
  assumes "reads (m # ms) c"
  shows "\<exists>c'. Client_ReadMessage f c = (Ret (case m of None \<Rightarrow> (0, None) | Some (mid, payload) \<Rightarrow> (mid, Some payload)), c') \<and>
    reads ms c' \<and> same_client c c' \<and> tx (cl_Conn c') = tx (cl_Conn c) \<and> tx_left (cl_Conn c') = tx_left (cl_Conn c)"
proof -
  from assms obtain rest where r: "rx (cl_Conn c) = wire_bytes m @ concat (map wire_bytes ms) @ rest" "bufferedMsgs c = []"
    "list_all wire_ok ms" "wire_ok m" by (auto simp: reads_def)
  show ?thesis using Client_ReadMessage_wire [OF r(2,4,1), of f] r by (auto simp: reads_def same_client_def)
qed

lemma receive_reads:
  assumes "reads ms c" and "piece_payloads ms = ps @ qs" and "place_all ps d = (Ret d' :: (client_error, byte list) outcome)"
  shows "\<exists>c' ms'. receive_blocks (length ps) d c = (Ret d', c') \<and> reads ms' c' \<and> piece_payloads ms' = qs \<and>
    same_client c c' \<and> tx (cl_Conn c') = tx (cl_Conn c) \<and> tx_left (cl_Conn c') = tx_left (cl_Conn c)"
  using assms
proof (induction ms arbitrary: c d ps)
  case Nil
  then show ?case by (auto simp: same_client_refl)
next
  case (Cons m ms)
  obtain c1 where c1: "Client_ReadMessage Reading_block c =
      (Ret (case m of None \<Rightarrow> (0, None) | Some (mid, payload) \<Rightarrow> (mid, Some payload)), c1)" "reads ms c1"
    "same_client c c1" "tx (cl_Conn c1) = tx (cl_Conn c)" "tx_left (cl_Conn c1) = tx_left (cl_Conn c)"
    using reads_Cons [OF Cons.prems(1), of Reading_block] by blast
  note trans = same_client_trans [OF c1(3)]
  show ?case
  proof (cases ps)
    case Nil
    then show ?thesis using Cons.prems same_client_refl by auto
  next
    case (Cons b bs)
    show ?thesis
    proof (cases "\<exists>p. m = Some (MsgPiece, p)")
      case True
      then have m: "m = Some (MsgPiece, b)" "piece_payloads ms = bs @ qs" using Cons.prems(2) Cons by auto
      obtain d1 where d1: "place_block b d = (Ret d1 :: (client_error, byte list) outcome)" "place_all bs d1 = (Ret d' :: (client_error, byte list) outcome)"
        using Cons.prems(3) Cons by auto
      show ?thesis using Cons.IH [OF c1(2) m(2) d1(2)] c1(1,4,5) d1(1) trans by (fastforce simp: Cons m(1) receive_blocks.simps(2))
    next
      case False
      then have "piece_payloads ms = ps @ qs" using Cons.prems(2) by (cases m) (auto split: if_splits)
      moreover have "receive_blocks (length ps) d c = receive_blocks (length ps) d c1"
        unfolding Cons using False c1(1) by (simp, subst receive_blocks.simps(2)) (auto split: option.splits)
      ultimately show ?thesis using Cons.IH [OF c1(2) _ Cons.prems(3)] c1(4,5) trans by fastforce
    qed
  qed
qed

text \<open>The piece message for block \<open>i\<close> of \<open>data\<close>.\<close>

definition block_msg :: "32 word \<Rightarrow> byte list \<Rightarrow> nat \<Rightarrow> byte list" where
  "block_msg index data i = PutUint32 index @ PutUint32 (u32 (int (i * 16384))) @ sub data (i * 16384) (i * 16384 + 16384)"

lemma length_blk_src: "i * 16384 + length (sub data (i * 16384) (i * 16384 + 16384)) \<le> length data \<or> length data < i * 16384"
  by auto

lemma place_block_msg:
  assumes "length d = length data" and "i * 16384 < length data" and "int (length data) < 2 ^ 32"
  shows "place_block (block_msg index data i) d = Ret (go_copy d (i * 16384) (sub data (i * 16384) (i * 16384 + 16384)))"
proof -
  have u: "unat (u32 (int (i * 16384))) = i * 16384" using assms by (subst unat_u32) simp_all
  have "int_of_u32 (u32 (int (i * 16384))) \<le> int (length d)" using assms unfolding int_of_u32_unat u by simp
  then show ?thesis using u by (simp add: place_block_def block_msg_def sub_def Let_def)
qed

lemma place_all_blocks:
  assumes "\<forall>i\<in>set is. i * 16384 < length data" and "int (length data) < 2 ^ 32" and "length d = length data"
  shows "\<exists>d'. place_all (map (block_msg index data) is) d = (Ret d' :: ('e, byte list) outcome) \<and> length d' = length data \<and>
    (\<forall>j<length data. d' ! j = (if j div 16384 \<in> set is then data ! j else d ! j))"
  using assms(1,3)
proof (induction "is" arbitrary: d)
  case (Cons i "is")
  let ?src = "sub data (i * 16384) (i * 16384 + 16384)"
  let ?d = "go_copy d (i * 16384) ?src"
  have off: "i * 16384 + length ?src \<le> length d" using Cons.prems by auto
  then have l: "length ?d = length data" using Cons.prems by simp
  from Cons.IH [of ?d] Cons.prems(1) l obtain d' where
    d': "place_all (map (block_msg index data) is) ?d = (Ret d' :: ('e, byte list) outcome)" "length d' = length data"
      "\<forall>j<length data. d' ! j = (if j div 16384 \<in> set is then data ! j else ?d ! j)" by auto
  have n: "?d ! j = (if j div 16384 = i then data ! j else d ! j)" if "j < length data" for j
  proof -
    have "i * 16384 \<le> j \<and> j < i * 16384 + length ?src \<longleftrightarrow> j div 16384 = i" using that by auto
    moreover have "i * 16384 \<le> j \<Longrightarrow> j < i * 16384 + length ?src \<Longrightarrow> ?src ! (j - i * 16384) = data ! j"
      by (auto simp: sub_def)
    ultimately show ?thesis using nth_go_copy [OF off, of j] that Cons.prems(2) by auto
  qed
  have p: "place_block (block_msg index data i) d = (Ret ?d :: ('e, byte list) outcome)"
    using Cons.prems assms(2) by (intro place_block_msg) simp_all
  show ?case
    by (rule exI [of _ d']) (use d' n in \<open>auto simp: p\<close>)
qed simp

lemma send_requests_tx:
  "length is \<le> tx_left (cl_Conn c) \<Longrightarrow>
     \<exists>k. send_requests idx L is c = (Ret (), c\<lparr>cl_Conn := k\<rparr>) \<and> rx k = rx (cl_Conn c) \<and> tx_left k = tx_left (cl_Conn c) - length is \<and>
       tx k = tx (cl_Conn c) @ concat (map (\<lambda>i. frame MsgRequest (block_request idx L i)) is)"
proof (induction "is" arbitrary: c)
  case Nil
  show ?case by (rule exI [of _ "cl_Conn c"]) (simp add: io_ret_def)
next
  case (Cons i "is")
  let ?k = "(cl_Conn c)\<lparr>tx := tx (cl_Conn c) @ frame MsgRequest (block_request idx L i), tx_left := tx_left (cl_Conn c) - 1\<rparr>"
  have "length is \<le> tx_left ?k" using Cons.prems by simp
  with Cons.IH [of "c\<lparr>cl_Conn := ?k\<rparr>"] obtain k where
    "send_requests idx L is (c\<lparr>cl_Conn := ?k\<rparr>) = (Ret (), c\<lparr>cl_Conn := k\<rparr>)" "rx k = rx (cl_Conn c)"
    "tx_left k = tx_left ?k - length is" "tx k = tx ?k @ concat (map (\<lambda>i. frame MsgRequest (block_request idx L i)) is)" by auto
  then show ?case using Cons.prems by (intro exI [of _ k]) (simp add: io_bind_def on_conn_def WriteMessage_def Write_def)
qed

lemma DownloadPiece_reads:
  assumes "0 < length data" and "int (length data) < 2 ^ 32" and "ceil_div (length data) 16384 \<le> tx_left (cl_Conn c)"
    and "reads ms c" and "piece_payloads ms = ps @ qs" and "mset ps = mset (map (block_msg index data) [0..<ceil_div (length data) 16384])"
  shows "\<exists>c' ms'. DownloadPiece pieceIndex (int (length data)) c = (Ret data, c') \<and> reads ms' c' \<and> piece_payloads ms' = qs \<and>
    same_client c c' \<and> tx_left (cl_Conn c') = tx_left (cl_Conn c) - ceil_div (length data) 16384 \<and>
    tx (cl_Conn c') = tx (cl_Conn c) @
      concat (map (\<lambda>i. frame MsgRequest (block_request pieceIndex (int (length data)) i)) [0..<ceil_div (length data) 16384])"
proof -
  let ?L = "length data" and ?n = "ceil_div (length data) 16384"
  have t: "go_div (wrap64 (wrap64 (int ?L + 16384) - 1)) 16384 = (Ret (int ?n) :: (client_error, int) outcome)"
    using go_ceil_div [of 16384 ?L] assms(2) by simp
  have m: "go_make (int ?L) = (Ret (replicate ?L 0) :: (client_error, byte list) outcome)"
    using assms(2) by (simp add: go_make_def)
  obtain k where k: "send_requests pieceIndex (int ?L) [0..<?n] c = (Ret (), c\<lparr>cl_Conn := k\<rparr>)" "rx k = rx (cl_Conn c)"
    "tx_left k = tx_left (cl_Conn c) - ?n"
    "tx k = tx (cl_Conn c) @ concat (map (\<lambda>i. frame MsgRequest (block_request pieceIndex (int ?L) i)) [0..<?n])"
    using send_requests_tx [of "[0..<?n]" c] assms(3) by auto
  have len: "length ps = ?n" using mset_eq_length [OF assms(6)] by simp
  obtain "is" where i: "ps = map (block_msg index data) is" "mset is = mset [0..<?n]"
    using mset_eq_map [OF assms(6)] by blast
  have si: "set is = {0..<?n}" using i(2) by (metis mset_eq_setD set_upt)
  have lo: "\<forall>i\<in>set is. i * 16384 < ?L" using si ceil_div_lower [of 16384 _ ?L] by auto
  obtain d where d: "place_all ps (replicate ?L 0) = (Ret d :: (client_error, byte list) outcome)"
      "length d = ?L" "\<forall>j<?L. d ! j = (if j div 16384 \<in> set is then data ! j else replicate ?L 0 ! j)"
    using place_all_blocks [OF lo assms(2), of "replicate ?L 0" index] unfolding i(1) by auto
  have "j div 16384 < ?n" if "j < ?L" for j
    using that ceil_div_upper [of 16384 ?L] by (simp add: less_mult_imp_div_less)
  then have "d = data" using d(2,3) si by (intro nth_equalityI) auto
  moreover have "reads ms (c\<lparr>cl_Conn := k\<rparr>)" using assms(4) k(2) by (simp add: reads_def)
  ultimately obtain c' ms' where "receive_blocks ?n (replicate ?L 0) (c\<lparr>cl_Conn := k\<rparr>) = (Ret data, c')" "reads ms' c'" "piece_payloads ms' = qs"
    "same_client (c\<lparr>cl_Conn := k\<rparr>) c'" "tx (cl_Conn c') = tx k" "tx_left (cl_Conn c') = tx_left k"
    using receive_reads [OF _ assms(5) d(1)] len by fastforce
  then show ?thesis using k
    by (intro exI [of _ c'] exI [of _ ms']) (simp add: DownloadPiece_def io_bind_def io_lift_def t m, auto simp: same_client_def)
qed

text \<open>
  C13. A piece is assembled whatever the order of its blocks: when the peer sends the blocks of
  a piece each once, in any order and among keepalives and other messages, \<open>DownloadPiece\<close>
  returns exactly the piece, after sending one request per block, in order.
\<close>
theorem DownloadPiece_any_order:
  assumes "0 < length data" and "int (length data) < 2 ^ 32" and "ceil_div (length data) 16384 \<le> tx_left (cl_Conn c)"
    and "bufferedMsgs c = []" and "list_all wire_ok ms" and "rx (cl_Conn c) = concat (map wire_bytes ms) @ rest"
    and "mset (piece_payloads ms) = mset (map (block_msg index data) [0..<ceil_div (length data) 16384])"
  shows "\<exists>c'. DownloadPiece pieceIndex (int (length data)) c = (Ret data, c') \<and>
    tx (cl_Conn c') = tx (cl_Conn c) @
      concat (map (\<lambda>i. frame MsgRequest (block_request pieceIndex (int (length data)) i)) [0..<ceil_div (length data) 16384])"
proof -
  have "reads ms c" using assms(4-6) by (auto simp: reads_def)
  then show ?thesis
    using DownloadPiece_reads [OF assms(1-3), of ms "piece_payloads ms" "[]" index pieceIndex] assms(7) by auto
qed

definition demo_client :: "byte list \<Rightarrow> Client" where
  "demo_client bs = new_client \<lparr>rx = bs, tx = [], tx_left = 9\<rparr> ''peer'' [] False"

theorem DownloadPiece_any_order_witness:
  "\<exists>c'. DownloadPiece 0 3 (demo_client (concat (map wire_bytes [None, Some (MsgHave, [0, 0, 0, 1]), Some (MsgPiece, block_msg 0 [5, 6, 7] 0)])))
     = (Ret [5, 6, 7], c')"
proof -
  let ?ms = "[None, Some (MsgHave, [0, 0, 0, 1]), Some (MsgPiece, block_msg 0 [5, 6, 7] 0)]"
  have "ceil_div (Suc (Suc (Suc 0))) 16384 = 1" by (simp add: ceil_div_def)
  moreover have "list_all wire_ok ?ms" by (simp add: wire_ok_def msg_ok_def block_msg_def sub_def)
  moreover have "piece_payloads ?ms = [block_msg 0 [5, 6, 7] 0]" by (simp add: msg_ids)
  ultimately show ?thesis
    using DownloadPiece_any_order [of "[5, 6, 7]" "demo_client (concat (map wire_bytes ?ms))" ?ms "[]" 0 0]
    by (auto simp: demo_client_def new_client_def)
qed

text \<open>
  A piece message that is shorter than its header, or whose offset lies beyond the piece,
  makes \<open>DownloadPiece\<close> panic: any peer can end the process with one message.
\<close>
theorem bad_block_panics:
  assumes "0 < L" and "int L < 2 ^ 32" and "ceil_div L 16384 \<le> tx_left (cl_Conn c)" and "bufferedMsgs c = []"
    and "msg_ok (MsgPiece, p)" and "rx (cl_Conn c) = frame MsgPiece p @ rest"
    and "length p < 8 \<or> int L < int_of_u32 (Uint32 (sub p 4 8))"
  shows "fst (DownloadPiece pieceIndex (int L) c) = Panic Slice_bounds"
proof -
  have t: "go_div (wrap64 (wrap64 (int L + 16384) - 1)) 16384 = (Ret (int (ceil_div L 16384)) :: (client_error, int) outcome)"
    using go_ceil_div [of 16384 L] assms(2) by simp
  have m: "go_make (int L) = (Ret (replicate L 0) :: (client_error, byte list) outcome)"
    using assms(2) by (simp add: go_make_def)
  obtain n where n: "ceil_div L 16384 = Suc n" using ceil_div_pos [of 16384 L] assms(1) by (auto simp: gr0_conv_Suc)
  obtain k where k: "send_requests pieceIndex (int L) [0..<ceil_div L 16384] c = (Ret (), c\<lparr>cl_Conn := k\<rparr>)" "rx k = rx (cl_Conn c)"
    using send_requests_tx [of "[0..<ceil_div L 16384]" c] assms(3) by auto
  have "Client_ReadMessage Reading_block (c\<lparr>cl_Conn := k\<rparr>) = (Ret (MsgPiece, Some p), c\<lparr>cl_Conn := k\<lparr>rx := rest\<rparr>\<rparr>)"
    using Client_ReadMessage_wire [of "c\<lparr>cl_Conn := k\<rparr>" "Some (MsgPiece, p)" rest] assms(4-6) k(2)
    by (simp add: wire_ok_def wire_bytes_def)
  moreover have "place_block p (replicate L 0) = (Panic Slice_bounds :: (client_error, byte list) outcome)"
    using assms(7) by (auto simp: place_block_def Let_def)
  ultimately have "receive_blocks (Suc n) (replicate L 0) (c\<lparr>cl_Conn := k\<rparr>) = (Panic Slice_bounds, c\<lparr>cl_Conn := k\<lparr>rx := rest\<rparr>\<rparr>)"
    by (simp add: receive_blocks.simps(2))
  then show ?thesis using k(1) by (simp add: DownloadPiece_def io_bind_def io_lift_def t m n nat_add_distrib del: upt_Suc)
qed

theorem bad_block_panics_witness:
  "fst (DownloadPiece 0 3 (demo_client (frame MsgPiece [1, 2]))) = Panic Slice_bounds"
  using bad_block_panics [of 3 "demo_client (frame MsgPiece [1, 2])" "[1, 2]" "[]" 0]
  by (simp add: demo_client_def new_client_def ceil_div_def msg_ok_def)

section \<open>Setting up a client\<close>

text \<open>What is buffered of the messages that arrive at first.\<close>

definition kept_initial :: "(byte \<times> byte list) option list \<Rightarrow> (byte \<times> byte list) list" where
  "kept_initial ms = List.map_filter (\<lambda>m. case m of
     Some (mid, p) \<Rightarrow> if mid \<noteq> MsgBitfield \<and> \<not> is_extension_handshake mid p then Some (mid, p) else None
   | None \<Rightarrow> None) ms"

lemma kept_initial_simps [simp]:
  "kept_initial [] = []" "kept_initial (None # ms) = kept_initial ms"
  "kept_initial (Some (mid, p) # ms) =
     (if mid \<noteq> MsgBitfield \<and> \<not> is_extension_handshake mid p then (mid, p) # kept_initial ms else kept_initial ms)"
  by (simp_all add: kept_initial_def List.map_filter_simps)

lemma kept_no_bitfield: "MsgBitfield \<notin> fst ` set (kept_initial ms)"
proof (induction ms)
  case (Cons m ms)
  then show ?case by (cases m) (auto split: if_splits intro: rev_image_eqI)
qed simp

lemma init_loop_stream:
  assumes "list_all wire_ok ms" and "rx (cl_Conn c) = concat (map wire_bytes ms)"
    and "init_loop (Some later) c = (Ret (), c')"
  shows "bufferedMsgs c' = bufferedMsgs c @ kept_initial ms \<and> rx (cl_Conn c') = later"
  using assms
proof (induction ms arbitrary: c)
  case Nil
  then have "ReadMessage (cl_Conn c) = (Err EOF, (cl_Conn c)\<lparr>rx := []\<rparr>)"
    by (simp add: ReadMessage_def readMessage_def io_defs ReadFull_def)
  then show ?case using Nil.prems(3) by (subst (asm) init_loop.simps) auto
next
  case (Cons m ms)
  let ?k = "(cl_Conn c)\<lparr>rx := concat (map wire_bytes ms)\<rparr>"
  have r: "ReadMessage (cl_Conn c) = (Ret (case m of None \<Rightarrow> (0, None) | Some (mid, payload) \<Rightarrow> (mid, Some payload)), ?k)"
    using Cons.prems by (intro ReadMessage_wire) simp_all
  show ?case
  proof (cases m)
    case None
    then have "init_loop (Some later) (c\<lparr>cl_Conn := ?k\<rparr>) = (Ret (), c')"
      using Cons.prems(3) r by (subst (asm) init_loop.simps) simp
    then show ?thesis using Cons.IH [of "c\<lparr>cl_Conn := ?k\<rparr>"] Cons.prems(1) None by simp
  next
    case (Some a)
    obtain mid p where a: "a = (mid, p)" by force
    have "\<exists>c1. on_initial mid p (c\<lparr>cl_Conn := ?k\<rparr>) = Ret c1 \<and> init_loop (Some later) c1 = (Ret (), c')"
      using Cons.prems(3) r Some a by (subst (asm) init_loop.simps) (auto split: outcome.splits)
    then obtain c1 where c1: "on_initial mid p (c\<lparr>cl_Conn := ?k\<rparr>) = Ret c1" "init_loop (Some later) c1 = (Ret (), c')" by blast
    have "bufferedMsgs c1 = bufferedMsgs c @ kept_initial [m]" "cl_Conn c1 = ?k"
      using c1(1) by (auto simp: on_initial_def Some a split: if_splits outcome.splits option.splits)
    then show ?thesis using Cons.IH [of c1] Cons.prems(1) c1(2) by (auto simp: Some a)
  qed
qed

lemma send_extension_frame:
  "send_extension_handshake c = (r, c') \<Longrightarrow> rx (cl_Conn c') = rx (cl_Conn c) \<and> bufferedMsgs c' = bufferedMsgs c"
  by (auto simp: send_extension_handshake_def io_bind_def on_conn_def WriteMessage_def Write_def split: if_splits)

text \<open>
  C18. A new client has lost the bitfield: of the messages a peer sends after its handshake and
  before it falls silent, \<open>NewClient\<close> keeps all but the bitfield and the extension handshake,
  in order; so neither the client nor anyone it later forwards messages to can know
  from it which pieces the peer has.
\<close>
theorem NewClient_drops_bitfield:
  assumes "length response = 68" and "list_all wire_ok ms" and "rx k = response @ concat (map wire_bytes ms)"
    and "NewClient (Some k) (Some later) address infoHash extensions = Ret c"
  shows "bufferedMsgs c = kept_initial ms \<and> rx (cl_Conn c) = later \<and> MsgBitfield \<notin> fst ` set (bufferedMsgs c)"
proof -
  obtain pid ext k' where h: "DoHandshake infoHash extensions k = (Ret (pid, ext), k')" and g: "extensions \<longrightarrow> ext"
    using assms(4) by (auto simp: NewClient_def split: prod.splits outcome.splits if_splits)
  have k': "rx k' = concat (map wire_bytes ms)"
    using h assms(1,3) by (auto simp: DoHandshake_def io_defs Write_def ReadFull_def split: if_splits)
  let ?c = "new_client k' address pid ext"
  have "io_bind (if extensions \<and> ext then send_extension_handshake else io_ret ()) (\<lambda>_. init_loop (Some later)) ?c = (Ret (), c)"
    using assms(4) h g by (auto simp: NewClient_def split: prod.splits outcome.splits if_splits)
  then obtain c1 where c1: "(if extensions \<and> ext then send_extension_handshake else io_ret ()) ?c = (Ret (), c1)"
    "init_loop (Some later) c1 = (Ret (), c)"
    unfolding io_bind_Ret_iff by auto
  have "rx (cl_Conn c1) = rx k' \<and> bufferedMsgs c1 = []"
    using c1(1) send_extension_frame [of ?c "Ret ()" c1] by (auto simp: io_ret_def new_client_def split: if_splits)
  then have "bufferedMsgs c = kept_initial ms" "rx (cl_Conn c) = later"
    using init_loop_stream [OF assms(2) _ c1(2)] k' by auto
  then show ?thesis using kept_no_bitfield [of ms] by simp
qed

theorem NewClient_drops_bitfield_witness:
  "\<exists>c. NewClient (Some \<lparr>rx = replicate 68 0 @ concat (map wire_bytes [Some (MsgBitfield, [255]), Some (MsgUnchoke, [])]),
        tx = [], tx_left = 3\<rparr>) (Some []) ''peer'' (replicate 20 1) False = Ret c \<and> bufferedMsgs c = [(MsgUnchoke, [])]"
proof -
  let ?ms = "[Some (MsgBitfield, [255]), Some (MsgUnchoke, [])]"
  let ?k = "\<lparr>rx = replicate 68 0 @ concat (map wire_bytes ?ms), tx = [], tx_left = 3\<rparr>"
  have "case NewClient (Some ?k) (Some []) ''peer'' (replicate 20 1) False of Ret c \<Rightarrow> True | _ \<Rightarrow> False" by code_simp
  then obtain c where c: "NewClient (Some ?k) (Some []) ''peer'' (replicate 20 1) False = Ret c" by (auto split: outcome.splits)
  have "list_all wire_ok ?ms" by (simp add: wire_ok_def msg_ok_def)
  with c show ?thesis using NewClient_drops_bitfield [of "replicate 68 0" ?ms ?k "[]" "''peer''" "replicate 20 1" False c]
    by (simp add: msg_ids is_extension_handshake_def)
qed

end
