(* ===== verification/Pipeline.thy ===== *)
theory Pipeline
  imports Peer_Client
begin

text \<open>
  The asynchronous side of a client, \<^verbatim>\<open>src/peer/pipeline.go\<close>: the reader, writer and ticker loops
  and the queueing of requests. One iteration of a loop is one step; the steps of the three
  goroutines and the calls of the manager interleave in any order. What a step sends on
  the manager's channel is part of its result. The clock (in nanoseconds), the traversal
  order of a map, the buffer that \<open>sync.Pool\<close> hands out and the choice of a \<open>select\<close> with two
  ready cases are arguments. Channels are unbounded: a send that would block is one that
  happens later.
\<close>

section \<open>The model\<close>

definition second :: int where
  "second = 1000000000"

record PeerMessage =
  pm_Address :: string
  pm_ID :: byte
  pm_Payload :: "byte list"
  pm_PBuf :: "nat option"

definition MsgClosed :: byte where "MsgClosed = 0xFF"
definition MsgTimeout :: byte where "MsgTimeout = 0xFE"

definition is_done :: "Client \<Rightarrow> bool" where
  "is_done c \<longleftrightarrow> cl_done c = Some True"

text \<open>\<open>StartLoop\<close>: the buffered messages go to the manager first.\<close>

definition StartLoop :: "int \<Rightarrow> Client \<Rightarrow> Client \<times> PeerMessage list" where
  "StartLoop now c =
     (c\<lparr>LastRead := now, LastWrite := now, OutstandingRequests := [], writeCh := [], cl_done := Some False,
        Choked := True, bufferedMsgs := []\<rparr>,
      map (\<lambda>(mid, payload). \<lparr>pm_Address = cl_Address c, pm_ID = mid, pm_Payload = payload, pm_PBuf = None\<rparr>) (bufferedMsgs c))"

text \<open>\<open>fmt.Sprintf("%d_%d", index, begin)\<close>.\<close>

definition req_key :: "int \<Rightarrow> int \<Rightarrow> string" where
  "req_key index begin = Itoa index @ ''_'' @ Itoa begin"

text \<open>Queueing. Once \<open>done\<close> is closed the connection is closed too, and nothing queued is sent.\<close>

definition enqueue :: "byte list \<Rightarrow> Client \<Rightarrow> Client" where
  "enqueue msg c = (if is_done c then c else c\<lparr>writeCh := writeCh c @ [msg]\<rparr>)"

definition QueueMessage :: "byte \<Rightarrow> byte list \<Rightarrow> Client \<Rightarrow> Client" where
  "QueueMessage mid payload c = enqueue (frame mid payload) c"

definition QueueKeepalive :: "Client \<Rightarrow> Client" where
  "QueueKeepalive c = enqueue (replicate 4 0) c"

definition range_payload :: "int \<Rightarrow> int \<Rightarrow> int \<Rightarrow> byte list" where
  "range_payload index begin len = PutUint32 (u32 index) @ PutUint32 (u32 begin) @ PutUint32 (u32 len)"

definition QueueRequest :: "int \<Rightarrow> int \<Rightarrow> int \<Rightarrow> int \<Rightarrow> Client \<Rightarrow> Client" where
  "QueueRequest now index begin len c =
     QueueMessage MsgRequest (range_payload index begin len)
       (c\<lparr>OutstandingRequests :=
            map_put (req_key index begin) \<lparr>or_Index = index, or_Begin = begin, or_Len = len, or_Sent = now\<rparr>
              (OutstandingRequests c)\<rparr>)"

definition QueueCancel :: "int \<Rightarrow> int \<Rightarrow> int \<Rightarrow> Client \<Rightarrow> Client" where
  "QueueCancel index begin len c = QueueMessage MsgCancel (range_payload index begin len) c"

definition GetOutstandingCount :: "Client \<Rightarrow> nat" where
  "GetOutstandingCount c = length (OutstandingRequests c)"

text \<open>What the reader does to the state of the client for a message.\<close>

definition read_state :: "byte \<Rightarrow> byte list \<Rightarrow> Client \<Rightarrow> Client" where
  "read_state mid payload c =
     (if mid = MsgChoke then c\<lparr>Choked := True\<rparr>
      else if mid = MsgUnchoke then c\<lparr>Choked := False\<rparr>
      else if mid = MsgPiece then
        (if length payload \<ge> 8 then
           c\<lparr>OutstandingRequests :=
               map_del (req_key (int_of_u32 (Uint32 (sub payload 0 4))) (int_of_u32 (Uint32 (sub payload 4 8)))) (OutstandingRequests c)\<rparr>
         else c)
      else c)"

text \<open>
  One iteration of \<open>readLoop\<close>: the client, what is sent to the manager, the buffers put back
  and whether the loop goes on. \<open>sel_done\<close> tells which case the \<open>select\<close> takes when \<open>done\<close> is
  closed; \<open>err_text\<close> is \<open>err.Error()\<close>.
\<close>

definition read_step ::
    "(wire_error \<Rightarrow> byte list) \<Rightarrow> int \<Rightarrow> bool \<Rightarrow> nat \<Rightarrow> Client \<Rightarrow> Client \<times> PeerMessage list \<times> nat list \<times> bool" where
  "read_step err_text now sel_done buf c =
     (case readMessage (cl_Conn c) of
        (Ret (mid, None, pooled), k) \<Rightarrow> (c\<lparr>cl_Conn := k, LastRead := now\<rparr>, [], [], True)
      | (Ret (mid, Some payload, pooled), k) \<Rightarrow>
          (let c = read_state mid payload (c\<lparr>cl_Conn := k, LastRead := now\<rparr>) in
           if sel_done \<and> is_done c then (Close c, [], (if pooled then [buf] else []), False)
           else (c, [\<lparr>pm_Address = cl_Address c, pm_ID = mid, pm_Payload = payload,
                      pm_PBuf = (if pooled then Some buf else None)\<rparr>], [], True))
      | (Err e, k) \<Rightarrow>
          (let c = c\<lparr>cl_Conn := k\<rparr> in
           (Close c,
            (if sel_done \<and> is_done c then []
             else [\<lparr>pm_Address = cl_Address c, pm_ID = MsgClosed, pm_Payload = err_text e, pm_PBuf = None\<rparr>]), [], False))
      | (Panic p, k) \<Rightarrow> (c, [], [], False))"

text \<open>One iteration of \<open>writeLoop\<close>.\<close>

definition write_step :: "int \<Rightarrow> Client \<Rightarrow> Client" where
  "write_step now c =
     (if is_done c then c
      else
        (case writeCh c of
           [] \<Rightarrow> c
         | msg # msgs \<Rightarrow>
             (case Write msg (cl_Conn c) of
                (Ret _, k) \<Rightarrow> c\<lparr>cl_Conn := k, writeCh := msgs, LastWrite := now\<rparr>
              | (_, k) \<Rightarrow> Close (c\<lparr>cl_Conn := k, writeCh := msgs\<rparr>))))"

text \<open>One tick; \<open>order\<close> enumerates \<open>OutstandingRequests\<close>.\<close>

definition stalled_requests :: "int \<Rightarrow> (string \<times> OutstandingRequest) list \<Rightarrow> OutstandingRequest list" where
  "stalled_requests now order = map snd (filter (\<lambda>(key, req). now - or_Sent req > 15 * second) order)"

definition timeout_msg :: "string \<Rightarrow> OutstandingRequest \<Rightarrow> PeerMessage" where
  "timeout_msg address req =
     \<lparr>pm_Address = address, pm_ID = MsgTimeout,
      pm_Payload = PutUint32 (u32 (or_Index req)) @ PutUint32 (u32 (or_Begin req)), pm_PBuf = None\<rparr>"

definition cancel_all :: "OutstandingRequest list \<Rightarrow> Client \<Rightarrow> Client" where
  "cancel_all stalled c = fold (\<lambda>req. QueueCancel (or_Index req) (or_Begin req) (or_Len req)) stalled c"

definition tick_step :: "int \<Rightarrow> (string \<times> OutstandingRequest) list \<Rightarrow> Client \<Rightarrow> Client \<times> PeerMessage list" where
  "tick_step now order c =
     (if is_done c then (c, [])
      else if now - LastRead c > 120 * second then (Close c, [])
      else
        (let c = (if now - LastWrite c > 120 * second then QueueKeepalive c else c);
             stalled = stalled_requests now order;
             c = c\<lparr>OutstandingRequests := filter (\<lambda>(key, req). \<not> now - or_Sent req > 15 * second) (OutstandingRequests c)\<rparr> in
         if stalled = [] then (c, [])
         else
           (let c = c\<lparr>StallScore := StallScore c + int (length stalled)\<rparr>;
                tooManyStalls = StallScore c > 3;
                c = cancel_all stalled c;
                msgs = map (timeout_msg (cl_Address c)) stalled in
            (if tooManyStalls then Close c else c, msgs))))"

text \<open>The steps of the three loops and the calls of the manager, by name.\<close>

datatype client_op =
    C_Read int bool nat | C_Write int | C_Tick int "(string \<times> OutstandingRequest) list"
  | C_Request int int int int | C_Message byte "byte list" | C_Close

fun client_step :: "(wire_error \<Rightarrow> byte list) \<Rightarrow> client_op \<Rightarrow> Client \<Rightarrow> Client" where
  "client_step et (C_Read now sel buf) c = fst (read_step et now sel buf c)"
| "client_step et (C_Write now) c = write_step now c"
| "client_step et (C_Tick now order) c = fst (tick_step now order c)"
| "client_step et (C_Request now i b l) c = QueueRequest now i b l c"
| "client_step et (C_Message mid p) c = QueueMessage mid p c"
| "client_step et C_Close c = Close c"

section \<open>Keys\<close>

lemma req_key_inject [simp]: "req_key i b = req_key j d \<longleftrightarrow> i = j \<and> b = d"
  using append_sep_inject [of "CHR ''_''" "Itoa i" "Itoa j" "Itoa b" "Itoa d"] by (simp add: req_key_def)

section \<open>The invariant\<close>

definition client_inv :: "Client \<Rightarrow> bool" where
  "client_inv c \<longleftrightarrow> cl_done c \<noteq> None \<and> map_ok (OutstandingRequests c) \<and> (is_done c \<longrightarrow> cl_Closed c) \<and>
     (\<forall>(k, r)\<in>set (OutstandingRequests c). k = req_key (or_Index r) (or_Begin r))"

lemma Close_simps [simp]:
  "OutstandingRequests (Close c) = OutstandingRequests c" "cl_Conn (Close c) = cl_Conn c" "Choked (Close c) = Choked c"
  "writeCh (Close c) = writeCh c" "StallScore (Close c) = StallScore c" "cl_Address (Close c) = cl_Address c"
  by (simp_all add: Close_def split: option.splits bool.splits)

lemma is_done_Close [simp]: "cl_done c \<noteq> None \<Longrightarrow> is_done (Close c)" "is_done c \<Longrightarrow> Close c = c"
  by (auto simp: Close_def is_done_def split: option.splits bool.splits)

lemma enqueue_simps [simp]:
  "OutstandingRequests (enqueue m c) = OutstandingRequests c" "cl_Conn (enqueue m c) = cl_Conn c"
  "cl_done (enqueue m c) = cl_done c" "cl_Closed (enqueue m c) = cl_Closed c" "StallScore (enqueue m c) = StallScore c"
  "cl_Address (enqueue m c) = cl_Address c" "Choked (enqueue m c) = Choked c" "is_done (enqueue m c) = is_done c"
  by (simp_all add: enqueue_def is_done_def)

lemmas queue_defs = QueueMessage_def QueueKeepalive_def QueueCancel_def QueueRequest_def

lemma cancel_all_simps [simp]:
  "OutstandingRequests (cancel_all rs c) = OutstandingRequests c" "cl_Conn (cancel_all rs c) = cl_Conn c"
  "cl_done (cancel_all rs c) = cl_done c" "cl_Closed (cancel_all rs c) = cl_Closed c" "StallScore (cancel_all rs c) = StallScore c"
  "cl_Address (cancel_all rs c) = cl_Address c" "is_done (cancel_all rs c) = is_done c"
  unfolding cancel_all_def by (induction rs arbitrary: c) (simp_all add: queue_defs is_done_def)

lemma read_state_simps [simp]:
  "cl_Conn (read_state m p c) = cl_Conn c" "cl_done (read_state m p c) = cl_done c" "cl_Closed (read_state m p c) = cl_Closed c"
  "cl_Address (read_state m p c) = cl_Address c" "is_done (read_state m p c) = is_done c"
  by (simp_all add: read_state_def is_done_def)

lemma client_inv_read_state: "client_inv c \<Longrightarrow> client_inv (read_state m p c)"
  unfolding client_inv_def read_state_simps
  by (auto simp: read_state_def map_del_def map_ok_def distinct_map_filter)

lemma client_inv_Close: "client_inv c \<Longrightarrow> client_inv (Close c)"
  by (auto simp: client_inv_def Close_def is_done_def split: option.splits bool.splits)

lemma client_inv_enqueue: "client_inv (enqueue m c) = client_inv c"
  by (simp add: client_inv_def)

lemma map_put_entries: "\<forall>(k', r')\<in>set m. P k' r' \<Longrightarrow> P k r \<Longrightarrow> \<forall>(k', r')\<in>set (map_put k r m). P k' r'"
  by (induction m) (auto split: if_splits)

lemma client_inv_cong:
  "client_inv c \<Longrightarrow> OutstandingRequests c' = OutstandingRequests c \<Longrightarrow> cl_done c' = cl_done c \<Longrightarrow> cl_Closed c' = cl_Closed c \<Longrightarrow> client_inv c'"
  by (simp add: client_inv_def is_done_def)

lemma client_inv_tick: "client_inv c \<Longrightarrow> client_inv (fst (tick_step now order c))"
proof -
  assume c: "client_inv c"
  have e: "client_inv (cancel_all rs x) = client_inv x" for rs x
    by (simp add: client_inv_def)
  let ?f = "\<lambda>x. x\<lparr>OutstandingRequests := filter (\<lambda>(key, req). \<not> now - or_Sent req > 15 * second) (OutstandingRequests x)\<rparr>"
  have "client_inv x \<Longrightarrow> client_inv (?f x)" "client_inv x \<Longrightarrow> client_inv (x\<lparr>StallScore := n\<rparr>)" for x n
    by (auto simp: client_inv_def map_ok_def distinct_map_filter is_done_def)
  then show ?thesis
    using c client_inv_Close by (simp add: tick_step_def Let_def e QueueKeepalive_def client_inv_enqueue)
qed

lemma client_step_inv: "client_inv c \<Longrightarrow> client_inv (client_step et op c)"
proof (cases op)
  case (C_Read now sel buf)
  assume c: "client_inv c"
  have k: "client_inv (c\<lparr>cl_Conn := k\<rparr>)" "client_inv (c\<lparr>cl_Conn := k, LastRead := now\<rparr>)" for k
    using c by (auto intro: client_inv_cong)
  then show ?thesis
    using C_Read c client_inv_Close client_inv_read_state
    by (auto simp: read_step_def Let_def split: prod.splits outcome.splits option.splits)
next
  case (C_Write now)
  assume c: "client_inv c"
  then have "client_inv (c\<lparr>cl_Conn := k, writeCh := m, LastWrite := now\<rparr>)" "client_inv (c\<lparr>cl_Conn := k, writeCh := m\<rparr>)" for k m
    by (auto intro: client_inv_cong)
  then show ?thesis using c client_inv_Close C_Write by (auto simp: write_step_def split: list.splits prod.splits outcome.splits)
next
  case (C_Request now i b l)
  assume c: "client_inv c"
  let ?r = "\<lparr>or_Index = i, or_Begin = b, or_Len = l, or_Sent = now\<rparr>"
  have "client_inv (c\<lparr>OutstandingRequests := map_put (req_key i b) ?r (OutstandingRequests c)\<rparr>)"
    using c map_put_entries [of "OutstandingRequests c" "\<lambda>k r. k = req_key (or_Index r) (or_Begin r)" "req_key i b" ?r]
    by (auto simp: client_inv_def is_done_def)
  then show ?thesis by (simp add: C_Request queue_defs client_inv_enqueue)
qed (simp_all add: client_inv_tick client_inv_Close QueueMessage_def client_inv_enqueue)

interpretation client: component "\<lambda>c. \<exists>now c0. c = fst (StartLoop now c0)" "client_step et" "\<lambda>op c. True" client_inv
proof
  show "client_inv c" if "\<exists>now c0. c = fst (StartLoop now c0)" for c
    using that by (auto simp: StartLoop_def client_inv_def is_done_def)
qed (rule client_step_inv)

lemma StartLoop_inv: "client_inv (fst (StartLoop now c))"
  by (rule client.init_inv) blast

lemma readMessage_tx: "readMessage k = (r, k') \<Longrightarrow> tx k' = tx k"
  using readMessage_rx by blast

lemma done_step:
  "is_done c \<Longrightarrow> is_done (client_step et op c) \<and> tx (cl_Conn (client_step et op c)) = tx (cl_Conn c)"
proof (cases op)
  case (C_Read now sel buf)
  assume d: "is_done c"
  obtain r k where r: "readMessage (cl_Conn c) = (r, k)" by force
  have "is_done (c\<lparr>cl_Conn := k\<rparr>)" "is_done (c\<lparr>cl_Conn := k, LastRead := now\<rparr>)" using d by (simp_all add: is_done_def)
  then show ?thesis using C_Read d readMessage_tx [OF r] by (auto simp: read_step_def r Let_def split: outcome.splits option.splits)
qed (auto simp: write_step_def tick_step_def queue_defs is_done_def enqueue_def Close_def)

lemma done_run:
  "is_done c \<Longrightarrow> is_done (fold (client_step et) ops c) \<and> tx (cl_Conn (fold (client_step et) ops c)) = tx (cl_Conn c)"
proof (induction ops arbitrary: c)
  case (Cons op ops)
  then show ?case using done_step [of c et op] by auto
qed simp

text \<open>
  C17. However the reader, the writer, the ticker and the manager interleave after \<open>StartLoop\<close>, the
  outstanding requests hold one entry per piece and offset, under their own key; and once
  the client is closed it stays closed, with its connection, and writes nothing more.
\<close>
theorem client_invariant:
  "client_inv (fold (client_step et) ops (fst (StartLoop now c))) \<and>
   (is_done (fold (client_step et) ops (fst (StartLoop now c))) \<longrightarrow>
      is_done (fold (client_step et) ops' (fold (client_step et) ops (fst (StartLoop now c)))) \<and>
      tx (cl_Conn (fold (client_step et) ops' (fold (client_step et) ops (fst (StartLoop now c))))) =
        tx (cl_Conn (fold (client_step et) ops (fst (StartLoop now c)))))"
proof -
  have "client_inv (fold (client_step et) ops (fst (StartLoop now c)))"
    by (rule client.run_inv [OF StartLoop_inv]) simp
  then show ?thesis using done_run by blast
qed

theorem client_invariant_witness:
  "is_done (fold (client_step (\<lambda>_. [])) [C_Request 5 0 0 3, C_Close] (fst (StartLoop 0 (demo_client [])))) \<and>
   is_done (fold (client_step (\<lambda>_. [])) [C_Write 6] (fold (client_step (\<lambda>_. [])) [C_Request 5 0 0 3, C_Close] (fst (StartLoop 0 (demo_client [])))))"
proof -
  have d: "is_done (fold (client_step (\<lambda>_. [])) [C_Request 5 0 0 3, C_Close] (fst (StartLoop 0 (demo_client []))))" by code_simp
  show ?thesis
    using client_invariant [of "\<lambda>_. []" "[C_Request 5 0 0 3, C_Close]" 0 "demo_client []" "[C_Write 6]"] d by blast
qed

section \<open>The stall monitor\<close>

text \<open>The block that a timeout message names.\<close>

definition sentinel_req :: "PeerMessage \<Rightarrow> int \<times> int" where
  "sentinel_req m = (int_of_u32 (Uint32 (sub (pm_Payload m) 0 4)), int_of_u32 (Uint32 (sub (pm_Payload m) 4 8)))"

definition req_bounds :: "string \<times> OutstandingRequest \<Rightarrow> bool" where
  "req_bounds e \<longleftrightarrow> 0 \<le> or_Index (snd e) \<and> or_Index (snd e) < 2 ^ 32 \<and> 0 \<le> or_Begin (snd e) \<and> or_Begin (snd e) < 2 ^ 32"

lemma sentinel_timeout:
  "req_bounds (k, r) \<Longrightarrow> sentinel_req (timeout_msg a r) = (or_Index r, or_Begin r)"
  by (simp add: sentinel_req_def timeout_msg_def sub_def req_bounds_def)

lemma mset_filter_order: "range_order m es \<Longrightarrow> mset (filter P es) = mset (filter P m)"
  by (simp add: range_order_def mset_filter)

text \<open>
  A tick of an open client that has heard from its peer reports exactly the requests that
  are more than 15 seconds old, each once and under the piece and offset it was made for,
  stops tracking them and no others, and closes the client exactly when it has then seen
  more than three stalled requests in all.
\<close>
theorem stall_monitor_exact:
  assumes "range_order (OutstandingRequests c) order" and "client_inv c" and "\<not> is_done c" and "now - LastRead c \<le> 120 * second"
    and "list_all req_bounds (OutstandingRequests c)" and "tick_step now order c = (c', msgs)"
  shows "mset (map sentinel_req msgs) =
      mset (map (\<lambda>(k, r). (or_Index r, or_Begin r)) (filter (\<lambda>(k, r). now - or_Sent r > 15 * second) (OutstandingRequests c))) \<and>
    list_all (\<lambda>m. pm_ID m = MsgTimeout \<and> pm_Address m = cl_Address c) msgs \<and>
    OutstandingRequests c' = filter (\<lambda>(k, r). \<not> now - or_Sent r > 15 * second) (OutstandingRequests c) \<and>
    StallScore c' = StallScore c + int (length msgs) \<and> (is_done c' \<longleftrightarrow> msgs \<noteq> [] \<and> StallScore c' > 3)"
proof -
  let ?P = "\<lambda>(k, r). now - or_Sent r > 15 * second" and ?st = "stalled_requests now order"
  let ?c = "if now - LastWrite c > 120 * second then QueueKeepalive c else c"
  have c: "OutstandingRequests ?c = OutstandingRequests c" "StallScore ?c = StallScore c" "cl_Address ?c = cl_Address c"
      "is_done ?c = is_done c" "cl_done ?c = cl_done c" by (simp_all add: QueueKeepalive_def)
  have n: "cl_done c \<noteq> None" using assms(2) by (simp add: client_inv_def)
  define c2 where c2: "c2 = ?c\<lparr>OutstandingRequests := filter (\<lambda>(key, req). \<not> now - or_Sent req > 15 * second) (OutstandingRequests ?c)\<rparr>"
  define c3 where c3: "c3 = cancel_all ?st (c2\<lparr>StallScore := StallScore c2 + int (length ?st)\<rparr>)"
  have t: "(c', msgs) = (if ?st = [] then (c2, []) else (if StallScore c3 > 3 then Close c3 else c3, map (timeout_msg (cl_Address c3)) ?st))"
    unfolding assms(6) [symmetric] c3 c2 using assms(3,4) by (simp add: tick_step_def Let_def)
  have a2: "StallScore c2 = StallScore c" "is_done c2 = is_done c" "cl_Address c2 = cl_Address c" "cl_done c2 = cl_done c"
      "OutstandingRequests c2 = filter (\<lambda>(key, req). \<not> now - or_Sent req > 15 * second) (OutstandingRequests c)"
    using c by (simp_all add: c2 is_done_def)
  have a3: "StallScore c3 = StallScore c + int (length ?st)" "is_done c3 = is_done c" "cl_Address c3 = cl_Address c"
      "cl_done c3 = cl_done c" "OutstandingRequests c3 = OutstandingRequests c2"
    using a2 by (simp_all add: c3 is_done_def)
  have m: "msgs = map (timeout_msg (cl_Address c)) ?st" using t a3(3) by (cases "?st = []") simp_all
  have b: "list_all req_bounds order" using assms(5) range_order_set [OF assms(1)] by (simp add: list_all_iff)
  have "map sentinel_req msgs = map (\<lambda>(k, r). (or_Index r, or_Begin r)) (filter ?P order)"
    unfolding m stalled_requests_def map_map comp_def
    by (rule map_cong [OF refl]) (use b in \<open>auto simp: list_all_iff intro!: sentinel_timeout\<close>)
  then have "mset (map sentinel_req msgs) = mset (map (\<lambda>(k, r). (or_Index r, or_Begin r)) (filter ?P (OutstandingRequests c)))"
    by (simp only: mset_map mset_filter_order [OF assms(1), of ?P])
  moreover have "list_all (\<lambda>m. pm_ID m = MsgTimeout \<and> pm_Address m = cl_Address c) msgs"
    by (simp add: m list_all_iff timeout_msg_def)
  moreover have "OutstandingRequests c' = filter (\<lambda>(k, r). \<not> now - or_Sent r > 15 * second) (OutstandingRequests c)"
    using t a2(5) a3(5) by (cases "?st = []") auto
  moreover have "StallScore c' = StallScore c + int (length msgs)" using t a2(1) a3(1) m by (cases "?st = []") auto
  moreover have "is_done c' \<longleftrightarrow> msgs \<noteq> [] \<and> StallScore c' > 3"
    using t a2 a3 m n assms(3) by (cases "?st = []") auto
  ultimately show ?thesis by blast
qed

theorem stall_monitor_exact_witness:
  "mset (map sentinel_req (snd (tick_step (20 * second) (OutstandingRequests (QueueRequest 1 4 16384 100 (fst (StartLoop 0 (demo_client [])))))
     (QueueRequest 1 4 16384 100 (fst (StartLoop 0 (demo_client []))))))) = {#(4, 16384)#}"
proof -
  let ?c = "QueueRequest 1 4 16384 100 (fst (StartLoop 0 (demo_client [])))"
  have inv: "client_inv ?c" using client_step_inv [OF StartLoop_inv, of "\<lambda>_. []" "C_Request 1 4 16384 100"] by simp
  have o: "OutstandingRequests ?c = [(req_key 4 16384, \<lparr>or_Index = 4, or_Begin = 16384, or_Len = 100, or_Sent = 1\<rparr>)]"
    "\<not> is_done ?c" "LastRead ?c = 0"
    by (simp_all add: queue_defs StartLoop_def enqueue_def is_done_def)
  obtain c' msgs where t: "tick_step (20 * second) (OutstandingRequests ?c) ?c = (c', msgs)" by force
  from stall_monitor_exact [OF range_order_refl inv o(2) _ _ t] o t show ?thesis
    by (simp add: second_def req_bounds_def)
qed

section \<open>The reader\<close>

fun read_run :: "(wire_error \<Rightarrow> byte list) \<Rightarrow> int \<Rightarrow> nat list \<Rightarrow> Client \<Rightarrow> Client \<times> PeerMessage list" where
  "read_run et now [] c = (c, [])"
| "read_run et now (buf # bufs) c =
     (case read_step et now False buf c of
        (c, msgs, puts, goes_on) \<Rightarrow>
          if goes_on then (case read_run et now bufs c of (c, msgs') \<Rightarrow> (c, msgs @ msgs')) else (c, msgs))"

definition choke_after :: "bool \<Rightarrow> byte \<times> byte list \<Rightarrow> bool" where
  "choke_after ch m = (if fst m = MsgChoke then True else if fst m = MsgUnchoke then False else ch)"

text \<open>The block a message delivers.\<close>

definition delivers :: "int \<Rightarrow> int \<Rightarrow> byte \<times> byte list \<Rightarrow> bool" where
  "delivers index begin m \<longleftrightarrow> fst m = MsgPiece \<and> length (snd m) \<ge> 8 \<and>
     int_of_u32 (Uint32 (sub (snd m) 0 4)) = index \<and> int_of_u32 (Uint32 (sub (snd m) 4 8)) = begin"

lemma read_state_effect:
  "Choked (read_state mid p c) = choke_after (Choked c) (mid, p) \<and>
   map_get (OutstandingRequests (read_state mid p c)) (req_key i b) =
     (if delivers i b (mid, p) then None else map_get (OutstandingRequests c) (req_key i b))"
  by (auto simp: read_state_def choke_after_def delivers_def msg_ids)

lemma readMessage_wire:
  assumes "wire_ok m" and "rx c = wire_bytes m @ rest"
  shows "\<exists>pooled. readMessage c = (Ret (case m of None \<Rightarrow> (0, None, False) | Some (mid, payload) \<Rightarrow> (mid, Some payload, pooled)), c\<lparr>rx := rest\<rparr>)"
proof (cases m)
  case None
  have "Uint32 [0, 0, 0, 0] = 0" by (simp add: Uint32_def)
  with None assms show ?thesis
    by (simp add: readMessage_def io_defs ReadFull_def wire_bytes_def)
next
  case (Some a)
  then show ?thesis using assms readMessage_frame [of "fst a" "snd a" c rest]
    by (simp add: wire_ok_def wire_bytes_def split: prod.splits)
qed

text \<open>
  The reader forwards to the manager the messages of the peer, every one and in order, and
  meanwhile keeps the choke state that the last choke or unchoke message left and tracks
  exactly the requests that were not answered by a block.
\<close>
theorem reader_delivers:
  assumes "list_all wire_ok ms" and "rx (cl_Conn c) = concat (map wire_bytes ms) @ rest" and "length bufs = length ms"
    and "read_run et now bufs c = (c', out)"
  shows "map (\<lambda>m. (pm_ID m, pm_Payload m)) out = List.map_filter id ms \<and>
    Choked c' = foldl choke_after (Choked c) (List.map_filter id ms) \<and>
    map_get (OutstandingRequests c') (req_key i b) =
      (if list_ex (delivers i b) (List.map_filter id ms) then None else map_get (OutstandingRequests c) (req_key i b))"
  using assms
proof (induction ms arbitrary: c bufs out)
  case Nil
  then show ?case by (simp add: List.map_filter_simps)
next
  case (Cons m ms)
  then obtain buf bufs' where bufs: "bufs = buf # bufs'" "length bufs' = length ms" by (cases bufs) auto
  let ?k = "(cl_Conn c)\<lparr>rx := concat (map wire_bytes ms) @ rest\<rparr>"
  obtain pooled where r: "readMessage (cl_Conn c) =
      (Ret (case m of None \<Rightarrow> (0, None, False) | Some (mid, payload) \<Rightarrow> (mid, Some payload, pooled)), ?k)"
    using readMessage_wire [of m "cl_Conn c" "concat (map wire_bytes ms) @ rest"] Cons.prems by auto
  show ?case
  proof (cases m)
    case None
    let ?c = "c\<lparr>cl_Conn := ?k, LastRead := now\<rparr>"
    have "read_run et now bufs' ?c = (c', out)"
      using Cons.prems(4) r None by (auto simp: bufs read_step_def split: prod.splits)
    then show ?thesis using Cons.IH [of ?c bufs' out] Cons.prems(1) bufs(2) None by (simp add: List.map_filter_simps)
  next
    case (Some a)
    obtain mid p where a: "a = (mid, p)" by force
    let ?c = "read_state mid p (c\<lparr>cl_Conn := ?k, LastRead := now\<rparr>)"
    obtain out' where o: "read_run et now bufs' ?c = (c', out')"
      "out = \<lparr>pm_Address = cl_Address c, pm_ID = mid, pm_Payload = p, pm_PBuf = (if pooled then Some buf else None)\<rparr> # out'"
      using Cons.prems(4) r Some a by (auto simp: bufs read_step_def Let_def split: prod.splits)
    show ?thesis
      using Cons.IH [of ?c bufs' out'] Cons.prems(1) bufs(2) o Some a
        read_state_effect [of mid p "c\<lparr>cl_Conn := ?k, LastRead := now\<rparr>" i b]
      by (simp add: List.map_filter_simps)
  qed
qed

theorem reader_delivers_witness:
  "\<exists>c' out. read_run (\<lambda>_. []) 7 [0, 1, 2] (demo_client (concat (map wire_bytes [Some (MsgUnchoke, []), None, Some (MsgHave, [0, 0, 0, 1])]) @ [])) = (c', out) \<and>
     map (\<lambda>m. (pm_ID m, pm_Payload m)) out = [(MsgUnchoke, []), (MsgHave, [0, 0, 0, 1])] \<and> \<not> Choked c'"
proof -
  let ?ms = "[Some (MsgUnchoke, []), None, Some (MsgHave, [0, 0, 0, 1])]"
  let ?c = "demo_client (concat (map wire_bytes ?ms) @ [])"
  obtain c' out where r: "read_run (\<lambda>_. []) 7 [0, 1, 2] ?c = (c', out)" by force
  have "list_all wire_ok ?ms" by (simp add: wire_ok_def msg_ok_def)
  from reader_delivers [OF this _ _ r, of "[]"] r show ?thesis
    by (simp add: demo_client_def new_client_def List.map_filter_simps choke_after_def msg_ids)
qed

end
