(* ===== verification/Manager.thy ===== *)
theory Manager
  imports Pipeline Picker_Props
begin

text \<open>
  The torrent manager, \<^verbatim>\<open>src/download/manager.go\<close>: it collects the blocks that the peers send,
  verifies pieces, hands them to the storage loop and keeps the peers busy with requests.
  The event loop is one goroutine; only the loops of the clients run beside it. Channels
  carry what was sent on them, in order. SHA-1, \<open>sort.Slice\<close>, the clock and the traversal
  order of maps are arguments. Buffers of \<open>MessageBufferPool\<close> are numbers, and \<open>puts\<close> lists
  those that were put back.
\<close>

section \<open>The model\<close>

record BlockBuffer =
  bb_Data :: "byte list"
  bb_PBuf :: "nat option"

record TorrentManager =
  tm_Pieces :: string
  tm_Length :: int
  tm_PieceLength :: int
  tm_Picker :: PiecePicker
  activePeers :: "(string, Client) gomap"
  InMessages :: "PeerMessage list"
  storageCh :: "(int \<times> byte list) list"
  doneCh :: bool
  pieceBufs :: "(int, (int, BlockBuffer) gomap) gomap"
  puts :: "nat list"
  disconnects :: "string list"

definition NewTorrentManager :: "string \<Rightarrow> int \<Rightarrow> int \<Rightarrow> ('e, TorrentManager) outcome" where
  "NewTorrentManager pcs len pieceLength =
     go_bind (NewPiecePicker len pieceLength) (\<lambda>picker.
       Ret \<lparr>tm_Pieces = pcs, tm_Length = len, tm_PieceLength = pieceLength, tm_Picker = picker, activePeers = [],
            InMessages = [], storageCh = [], doneCh = False, pieceBufs = [], puts = [], disconnects = []\<rparr>)"

definition AddPeer :: "int \<Rightarrow> Client \<Rightarrow> TorrentManager \<Rightarrow> TorrentManager" where
  "AddPeer now client tm =
     (case StartLoop now client of
        (client, msgs) \<Rightarrow>
          tm\<lparr>activePeers := map_put (cl_Address client) (QueueMessage MsgInterested [] client) (activePeers tm),
             tm_Picker := RegisterPeer (cl_Address client) (tm_Picker tm),
             InMessages := InMessages tm @ msgs\<rparr>)"

text \<open>The removed client is closed; nothing refers to it any more.\<close>

definition RemovePeer :: "string \<Rightarrow> TorrentManager \<Rightarrow> TorrentManager" where
  "RemovePeer peerAddr tm =
     (case map_get (activePeers tm) peerAddr of
        None \<Rightarrow> tm
      | Some client \<Rightarrow>
          tm\<lparr>activePeers := map_del peerAddr (activePeers tm), tm_Picker := UnregisterPeer peerAddr (tm_Picker tm)\<rparr>)"

text \<open>The length of a piece, as \<open>verifyAndWritePiece\<close> and \<open>revertPiece\<close> compute it.\<close>

definition piece_length :: "int \<Rightarrow> TorrentManager \<Rightarrow> ('e, int) outcome" where
  "piece_length index tm =
     go_bind (go_div (wrap64 (wrap64 (tm_Length tm + tm_PieceLength tm) - 1)) (tm_PieceLength tm)) (\<lambda>totalPieces.
       Ret (if index = wrap64 (totalPieces - 1) then wrap64 (tm_Length tm - wrap64 (index * tm_PieceLength tm)) else tm_PieceLength tm))"

definition num_blocks :: "int \<Rightarrow> ('e, int) outcome" where
  "num_blocks pieceLen = go_div (wrap64 (wrap64 (pieceLen + 16384) - 1)) 16384"

definition pbufs :: "BlockBuffer \<Rightarrow> nat list" where
  "pbufs bb = (case bb_PBuf bb of None \<Rightarrow> [] | Some x \<Rightarrow> [x])"

definition revertPiece :: "int \<Rightarrow> TorrentManager \<Rightarrow> ('e, TorrentManager) outcome" where
  "revertPiece index tm =
     (let tm = (case map_get (pieceBufs tm) index of
                  Some blocks \<Rightarrow> tm\<lparr>puts := puts tm @ concat (map (pbufs \<circ> snd) blocks), pieceBufs := map_del index (pieceBufs tm)\<rparr>
                | None \<Rightarrow> tm) in
      go_bind (piece_length index tm) (\<lambda>pieceLen.
      go_bind (num_blocks pieceLen) (\<lambda>numBlocks.
        Ret (tm\<lparr>tm_Picker := fold (\<lambda>b. MarkFailed index (int b * 16384)) [0..<nat numBlocks] (tm_Picker tm)\<rparr>))))"

text \<open>The loop that copies the blocks into the piece; it stops at a block that is missing.\<close>

fun copy_blocks :: "(int, BlockBuffer) gomap \<Rightarrow> nat list \<Rightarrow> byte list \<Rightarrow> nat list \<Rightarrow> byte list option \<times> nat list" where
  "copy_blocks blocks [] pieceData ps = (Some pieceData, ps)"
| "copy_blocks blocks (b # bs) pieceData ps =
     (case map_get blocks (int b * 16384) of
        None \<Rightarrow> (None, ps)
      | Some blockBuf \<Rightarrow> copy_blocks blocks bs (go_copy pieceData (b * 16384) (bb_Data blockBuf)) (ps @ pbufs blockBuf))"

definition verifyAndWritePiece :: "(byte list \<Rightarrow> byte list) \<Rightarrow> int \<Rightarrow> TorrentManager \<Rightarrow> ('e, TorrentManager) outcome" where
  "verifyAndWritePiece sha1_Sum index tm =
     (case map_get (pieceBufs tm) index of
        None \<Rightarrow> Ret tm
      | Some blocks \<Rightarrow>
          go_bind (piece_length index tm) (\<lambda>pieceLen.
          go_bind (go_make pieceLen) (\<lambda>pieceData.
          go_bind (num_blocks pieceLen) (\<lambda>numBlocks.
            case copy_blocks blocks [0..<nat numBlocks] pieceData (puts tm) of
              (None, ps) \<Rightarrow> revertPiece index (tm\<lparr>puts := ps\<rparr>)
            | (Some pieceData, ps) \<Rightarrow>
                go_bind (go_slice (tm_Pieces tm) (wrap64 (index * 20)) (wrap64 ((index + 1) * 20))) (\<lambda>expectedHash.
                  if string_of (sha1_Sum pieceData) \<noteq> expectedHash then revertPiece index (tm\<lparr>puts := ps\<rparr>)
                  else Ret (tm\<lparr>puts := ps, storageCh := storageCh tm @ [(index, pieceData)],
                               pieceBufs := map_del index (pieceBufs tm)\<rparr>))))))"

definition store_block :: "int \<Rightarrow> int \<Rightarrow> BlockBuffer \<Rightarrow> TorrentManager \<Rightarrow> TorrentManager" where
  "store_block index begin buf tm =
     (let blocks = (case map_get (pieceBufs tm) index of None \<Rightarrow> [] | Some blocks \<Rightarrow> blocks) in
      tm\<lparr>pieceBufs := map_put index (map_put begin buf blocks) (pieceBufs tm)\<rparr>)"

definition handle_piece :: "(byte list \<Rightarrow> byte list) \<Rightarrow> PeerMessage \<Rightarrow> TorrentManager \<Rightarrow> ('e, TorrentManager) outcome" where
  "handle_piece sha1_Sum msg tm =
     (if length (pm_Payload msg) < 8 then Ret tm
      else
        (let index = int_of_u32 (Uint32 (sub (pm_Payload msg) 0 4));
             begin = int_of_u32 (Uint32 (sub (pm_Payload msg) 4 8));
             tm = store_block index begin \<lparr>bb_Data = drop 8 (pm_Payload msg), bb_PBuf = pm_PBuf msg\<rparr> tm in
         case MarkCompleted index begin (pm_Address msg) (tm_Picker tm) of
           ((_, pieceDone, torrentDone), picker) \<Rightarrow>
             (let tm = tm\<lparr>tm_Picker := picker\<rparr> in
              go_bind (if pieceDone then verifyAndWritePiece sha1_Sum index tm else Ret tm) (\<lambda>tm.
                if torrentDone then (if doneCh tm then Panic Close_of_closed_channel else Ret (tm\<lparr>doneCh := True\<rparr>))
                else Ret tm))))"

definition handleMessage :: "(byte list \<Rightarrow> byte list) \<Rightarrow> PeerMessage \<Rightarrow> TorrentManager \<Rightarrow> ('e, TorrentManager) outcome" where
  "handleMessage sha1_Sum msg tm =
     (if pm_ID msg = MsgClosed then
        (let tm = RemovePeer (pm_Address msg) tm in Ret (tm\<lparr>disconnects := disconnects tm @ [pm_Address msg]\<rparr>))
      else if pm_ID msg = MsgTimeout then
        (if length (pm_Payload msg) \<ge> 8 then
           Ret (tm\<lparr>tm_Picker := MarkFailed (int_of_u32 (Uint32 (sub (pm_Payload msg) 0 4)))
                     (int_of_u32 (Uint32 (sub (pm_Payload msg) 4 8))) (tm_Picker tm)\<rparr>)
         else Ret tm)
      else if pm_ID msg = MsgBitfield then
        Ret (tm\<lparr>tm_Picker := UpdatePeerBitfield (pm_Address msg) (pm_Payload msg) (tm_Picker tm)\<rparr>)
      else if pm_ID msg = MsgHave then
        (if length (pm_Payload msg) \<ge> 4 then
           Ret (tm\<lparr>tm_Picker := UpdatePeerHave (pm_Address msg) (int_of_u32 (Uint32 (sub (pm_Payload msg) 0 4))) (tm_Picker tm)\<rparr>)
         else Ret tm)
      else if pm_ID msg = MsgPiece then handle_piece sha1_Sum msg tm
      else Ret tm)"

text \<open>
  The loop of \<open>pipelineRequests\<close> for one client. \<open>env k\<close> is what the goroutines of the client did to
  it before the \<open>k\<close>-th round and \<open>clock k\<close> the time of that round; the picker is used by the
  manager alone. The value is \<open>None\<close> when the loop does not end.
\<close>

partial_function (option) pipeline_loop ::
    "(candidatePiece list \<Rightarrow> candidatePiece list) \<Rightarrow> (nat \<Rightarrow> int) \<Rightarrow> (nat \<Rightarrow> Client \<Rightarrow> Client) \<Rightarrow> nat \<Rightarrow> Client \<Rightarrow> PiecePicker
       \<Rightarrow> (Client \<times> PiecePicker \<times> nat) option" where
  "pipeline_loop srt clock env k c p =
     (let c = env k c in
      if GetOutstandingCount c < 5 then
        (case NextBlock srt (clock k) (cl_Address c) p of
           (None, p) \<Rightarrow> Some (c, p, Suc k)
         | (Some block, p) \<Rightarrow>
             pipeline_loop srt clock env (Suc k) (QueueRequest (clock k) (blk_index block) (blk_begin block) (blk_length block) c) p)
      else Some (c, p, Suc k))"

text \<open>\<open>pipelineRequests\<close>; \<open>order\<close> lists the addresses of \<open>activePeers\<close>.\<close>

fun pipelineRequests ::
    "(candidatePiece list \<Rightarrow> candidatePiece list) \<Rightarrow> (nat \<Rightarrow> int) \<Rightarrow> (nat \<Rightarrow> Client \<Rightarrow> Client) \<Rightarrow> nat \<Rightarrow> string list \<Rightarrow> TorrentManager
       \<Rightarrow> TorrentManager option" where
  "pipelineRequests srt clock env k [] tm = Some tm"
| "pipelineRequests srt clock env k (a # order) tm =
     (case map_get (activePeers tm) a of
        None \<Rightarrow> pipelineRequests srt clock env k order tm
      | Some client \<Rightarrow>
          if Choked client then pipelineRequests srt clock env k order tm
          else
            (case pipeline_loop srt clock env k client (tm_Picker tm) of
               None \<Rightarrow> None
             | Some (client, picker, k) \<Rightarrow>
                 pipelineRequests srt clock env k order
                   (tm\<lparr>activePeers := map_put a client (activePeers tm), tm_Picker := picker\<rparr>)))"

text \<open>
  One round of the loop of \<open>Start\<close> that does not end it: a tick or a message, and then the
  requests. \<open>None\<close> stands for a round that does not end.
\<close>

datatype manager_event = Ev_Tick int | Ev_Message PeerMessage

definition on_event :: "(byte list \<Rightarrow> byte list) \<Rightarrow> manager_event \<Rightarrow> TorrentManager \<Rightarrow> ('e, TorrentManager) outcome" where
  "on_event sha1_Sum ev tm =
     (case ev of
        Ev_Tick now \<Rightarrow> Ret (tm\<lparr>tm_Picker := snd (GetStalledRequests now (15 * second) (tm_Picker tm))\<rparr>)
      | Ev_Message msg \<Rightarrow>
          go_bind (handleMessage sha1_Sum msg tm) (\<lambda>tm.
            Ret (if pm_ID msg \<noteq> MsgPiece then tm\<lparr>puts := puts tm @ (case pm_PBuf msg of None \<Rightarrow> [] | Some x \<Rightarrow> [x])\<rparr> else tm)))"

definition manager_round ::
    "(candidatePiece list \<Rightarrow> candidatePiece list) \<Rightarrow> (byte list \<Rightarrow> byte list) \<Rightarrow> (nat \<Rightarrow> int) \<Rightarrow> (nat \<Rightarrow> Client \<Rightarrow> Client) \<Rightarrow> string list
       \<Rightarrow> manager_event \<Rightarrow> TorrentManager \<Rightarrow> ('e, TorrentManager) outcome option" where
  "manager_round srt sha1_Sum clock env order ev tm =
     (case on_event sha1_Sum ev tm of
        Ret tm \<Rightarrow> map_option Ret (pipelineRequests srt clock env 0 order tm)
      | Err e \<Rightarrow> Some (Err e)
      | Panic p \<Rightarrow> Some (Panic p))"

text \<open>
  \<open>storageLoop\<close>: \<open>file.WriteAt\<close> extends the file where it is too short; a write that fails is only
  logged. \<open>write_ok k\<close> tells whether the \<open>k\<close>-th write succeeds.
\<close>

definition WriteAt :: "byte list \<Rightarrow> int \<Rightarrow> byte list \<Rightarrow> byte list" where
  "WriteAt file offset data =
     (let off = nat offset; padded = file @ replicate (off + length data - length file) 0 in
      take off padded @ data @ drop (off + length data) padded)"

fun storageLoop :: "(nat \<Rightarrow> bool) \<Rightarrow> int \<Rightarrow> nat \<Rightarrow> (int \<times> byte list) list \<Rightarrow> byte list \<Rightarrow> byte list" where
  "storageLoop write_ok pieceLength k [] file = file"
| "storageLoop write_ok pieceLength k ((index, data) # pws) file =
     storageLoop write_ok pieceLength (Suc k) pws
       (if write_ok k then WriteAt file (wrap64 (index * pieceLength)) data else file)"

text \<open>\<open>file.Truncate\<close> on the file that \<open>Start\<close> opens.\<close>

definition Truncate :: "nat \<Rightarrow> byte list \<Rightarrow> byte list" where
  "Truncate n file = take n file @ replicate (n - length file) 0"

definition ActivePeersCount :: "TorrentManager \<Rightarrow> int" where
  "ActivePeersCount tm = int (length (activePeers tm))"

section \<open>The invariant\<close>

text \<open>
  A manager of a torrent of \<open>L\<close> bytes in pieces of \<open>N\<close> bytes: the picker has its invariant and the
  blocks of that torrent, and every piece on its way to the storage has the length and
  the hash the torrent lists for it.
\<close>

definition listed_hash :: "TorrentManager \<Rightarrow> nat \<Rightarrow> string" where
  "listed_hash tm i = sub (tm_Pieces tm) (i * 20) (Suc i * 20)"

definition stored_ok :: "(byte list \<Rightarrow> byte list) \<Rightarrow> TorrentManager \<Rightarrow> int \<times> byte list \<Rightarrow> bool" where
  "stored_ok sha1_Sum tm pw \<longleftrightarrow> 0 \<le> fst pw \<and> nat (fst pw) < ceil_div (nat (tm_Length tm)) (nat (tm_PieceLength tm)) \<and>
     length (snd pw) = piece_len (nat (tm_Length tm)) (nat (tm_PieceLength tm)) (nat (fst pw)) \<and>
     string_of (sha1_Sum (snd pw)) = listed_hash tm (nat (fst pw))"

definition manager_inv :: "(byte list \<Rightarrow> byte list) \<Rightarrow> nat \<Rightarrow> nat \<Rightarrow> TorrentManager \<Rightarrow> bool" where
  "manager_inv sha1_Sum L N tm \<longleftrightarrow>
     tm_Length tm = int L \<and> tm_PieceLength tm = int N \<and> 0 < N \<and> int L + int N \<le> 2 ^ 63 \<and> N \<le> 2 ^ 48 \<and>
     picker_inv (tm_Picker tm) \<and> map geom (pieces (tm_Picker tm)) = map geom (pieces (fresh_picker L N)) \<and>
     (\<forall>pw\<in>set (storageCh tm). stored_ok sha1_Sum tm pw) \<and>
     (doneCh tm \<longrightarrow> IsCompleted (tm_Picker tm)) \<and>
     set (map fst (activePeers tm)) = set (map fst (peerPieces (tm_Picker tm))) \<and> map_ok (activePeers tm) \<and>
     20 * ceil_div L N \<le> length (tm_Pieces tm)"

end
