(* ===== verification/Manager_Inv.thy ===== *)
theory Manager_Inv
  imports Manager
begin

text \<open>
  The invariant of the torrent manager: every operation keeps it and none panics. The states
  the manager reaches are an inductive relation over its rounds, the peers it is given and
  the steps of its clients.
\<close>

section \<open>Completed pieces\<close>

lemma MarkFailed_completed:
  assumes "picker_inv p" and "0 \<le> i" and "i < int (length (pieces p))" and "pc_completed (pieces p ! nat i)"
  shows "MarkFailed i begin p = p"
proof -
  have ok: "piece_ok (nat i) (pieces p ! nat i)" using assms by (simp add: picker_ok_def blocks_inv_def)
  have "blk_state (pc_blocks (pieces p ! nat i) ! b) \<noteq> BlockPending" if "find_begin begin (pieces p ! nat i) = Some b" for b
  proof -
    have "b < length (pc_blocks (pieces p ! nat i))" using that by (auto simp: find_begin_def find_Some_iff)
    then show ?thesis using ok assms(4) by (auto simp: piece_ok_def list_all_iff)
  qed
  then show ?thesis using assms(2,3) by (auto simp: MarkFailed_def Let_def split: option.splits)
qed

lemma fold_MarkFailed_completed:
  assumes "picker_inv p" and "0 \<le> i" and "i < int (length (pieces p))" and "pc_completed (pieces p ! nat i)"
  shows "fold (\<lambda>b. MarkFailed i (int b * 16384)) bs p = p"
  by (induction bs) (simp_all add: MarkFailed_completed [OF assms])

lemma MarkCompleted_result:
  assumes "picker_inv p" and "MarkCompleted i begin a p = ((x, pieceDone, torrentDone), p')"
  shows "pieceDone \<Longrightarrow> 0 \<le> i \<and> i < int (length (pieces p)) \<and> pc_completed (pieces p' ! nat i) \<and> \<not> pc_completed (pieces p ! nat i)"
    and "torrentDone \<Longrightarrow> IsCompleted p' \<and> \<not> IsCompleted p" and "peerPieces p' = peerPieces p"
    and "IsCompleted p \<Longrightarrow> p' = p"
proof -
  show "pieceDone \<Longrightarrow> 0 \<le> i \<and> i < int (length (pieces p)) \<and> pc_completed (pieces p' ! nat i) \<and> \<not> pc_completed (pieces p ! nat i)"
    "peerPieces p' = peerPieces p"
    using assms(2) open_slot_Some [of i "begin" p]
    by (auto simp: MarkCompleted_eq Let_def flag_piece_def finish_def update_block_def split: option.splits if_splits)
  show c: "IsCompleted p \<Longrightarrow> p' = p"
    using assms open_slot_all_completed [of p i "begin"] by (auto simp: IsCompleted_all MarkCompleted_eq)
  show "torrentDone \<Longrightarrow> IsCompleted p' \<and> \<not> IsCompleted p"
  proof
    assume t: "torrentDone"
    then show "IsCompleted p'" using assms(2) by (auto simp: MarkCompleted_eq Let_def IsCompleted_def finish_def split: option.splits)
    show "\<not> IsCompleted p" using t assms(2) open_slot_all_completed [OF assms(1), of i "begin"] IsCompleted_all [OF assms(1)]
      by (auto simp: MarkCompleted_eq)
  qed
qed

section \<open>The geometry of the torrent\<close>

lemma manager_invD:
  assumes "manager_inv sha1 L N tm"
  shows "tm_Length tm = int L" "tm_PieceLength tm = int N" "0 < N" "int L + int N \<le> 2 ^ 63" "int N \<le> 2 ^ 48"
    "picker_inv (tm_Picker tm)" "length (pieces (tm_Picker tm)) = ceil_div L N" "20 * ceil_div L N \<le> length (tm_Pieces tm)"
  using assms geom_same [of "tm_Picker tm" "fresh_picker L N"] by (auto simp: manager_inv_def fresh_picker_def)

definition torrent_dims :: "nat \<Rightarrow> nat \<Rightarrow> TorrentManager \<Rightarrow> bool" where
  "torrent_dims L N tm \<longleftrightarrow> tm_Length tm = int L \<and> tm_PieceLength tm = int N \<and> 0 < N \<and> int L + int N \<le> 2 ^ 63 \<and> int N \<le> 2 ^ 48 \<and>
     20 * ceil_div L N \<le> length (tm_Pieces tm)"

lemma piece_length_eq:
  assumes "torrent_dims L N tm" and "i < ceil_div L N"
  shows "piece_length (int i) tm = Ret (int (piece_len L N i))"
proof -
  have d: "tm_Length tm = int L" "tm_PieceLength tm = int N" "0 < N" "int L + int N \<le> 2 ^ 63"
    using assms(1) by (simp_all add: torrent_dims_def)
  have c: "int (ceil_div L N) < 2 ^ 63"
  proof -
    have "(ceil_div L N - 1) * N < L" using assms(2) d(3) by (intro ceil_div_lower) simp_all
    moreover have "ceil_div L N - 1 \<le> (ceil_div L N - 1) * N" using d(3) by simp
    ultimately have "ceil_div L N - 1 < L" by linarith
    then show ?thesis using d(3,4) assms(2) by linarith
  qed
  have w: "wrap64 (int (ceil_div L N) - 1) = int (ceil_div L N) - 1" using c assms(2) by (intro wrap64_nonneg) simp_all
  have iN: "i * N < L" using assms(2) d(3) by (rule ceil_div_lower [rotated])
  have m: "wrap64 (int i * int N) = int i * int N"
    using iN d(3,4) by (intro wrap64_nonneg) (simp_all flip: of_nat_mult)
  have s: "wrap64 (int L - int i * int N) = int (L - i * N)"
    using iN d(3,4) by (subst wrap64_nonneg) (simp_all flip: of_nat_mult add: of_nat_diff)
  have e: "int i = int (ceil_div L N) - 1 \<longleftrightarrow> Suc i = ceil_div L N" using assms(2) by linarith
  show ?thesis
    unfolding piece_length_def d(1,2) go_ceil_div [OF d(3,4)] go_bind.simps w e piece_len_def
    by (simp add: m s)
qed

lemma num_blocks_eq:
  assumes "int len \<le> 2 ^ 62"
  shows "num_blocks (int len) = Ret (int (ceil_div len 16384))"
  using go_ceil_div [of 16384 len] assms by (simp add: num_blocks_def)

lemma copy_blocks_length:
  "copy_blocks blocks bs d ps = (Some d', ps') \<Longrightarrow> \<forall>b\<in>set bs. b * 16384 \<le> length d \<Longrightarrow> length d' = length d"
  by (induction bs arbitrary: d ps) (auto split: option.splits)

section \<open>Verifying a piece\<close>

definition drop_buffers :: "int \<Rightarrow> TorrentManager \<Rightarrow> TorrentManager" where
  "drop_buffers index tm = (case map_get (pieceBufs tm) index of
     Some blocks \<Rightarrow> tm\<lparr>puts := puts tm @ concat (map (pbufs \<circ> snd) blocks), pieceBufs := map_del index (pieceBufs tm)\<rparr>
   | None \<Rightarrow> tm)"

lemma drop_buffers_shape: "\<exists>ps bufs. drop_buffers i tm = tm\<lparr>puts := ps, pieceBufs := bufs\<rparr>"
proof (cases "map_get (pieceBufs tm) i")
  case None
  then show ?thesis by (intro exI [of _ "puts tm"] exI [of _ "pieceBufs tm"]) (simp add: drop_buffers_def)
next
  case (Some blocks)
  then show ?thesis by (auto simp: drop_buffers_def)
qed

lemma small_piece: "torrent_dims L N tm \<Longrightarrow> i < ceil_div L N \<Longrightarrow> int (piece_len L N i) \<le> 2 ^ 48"
  using piece_len_bounds(2) [of N i L] by (auto simp: torrent_dims_def)

lemma revertPiece_eq:
  assumes "torrent_dims L N tm" and "i < ceil_div L N" and "picker_inv (tm_Picker tm)"
    and "i < length (pieces (tm_Picker tm))" and "pc_completed (pieces (tm_Picker tm) ! i)"
  shows "revertPiece (int i) tm = (Ret (drop_buffers (int i) tm) :: ('e, TorrentManager) outcome)"
proof -
  obtain ps bufs where d: "drop_buffers (int i) tm = tm\<lparr>puts := ps, pieceBufs := bufs\<rparr>" using drop_buffers_shape by blast
  have t: "torrent_dims L N (tm\<lparr>puts := ps, pieceBufs := bufs\<rparr>)" using assms(1) by (simp add: torrent_dims_def)
  have n: "num_blocks (int (piece_len L N i)) = (Ret (int (ceil_div (piece_len L N i) 16384)) :: ('e, int) outcome)"
    using small_piece [OF assms(1,2)] by (intro num_blocks_eq) simp
  have "fold (\<lambda>b. MarkFailed (int i) (int b * 16384)) bs (tm_Picker tm) = tm_Picker tm" for bs
    using assms(3-5) by (intro fold_MarkFailed_completed) simp_all
  then show ?thesis
    unfolding revertPiece_def drop_buffers_def [symmetric] Let_def
    by (simp add: d piece_length_eq [OF t assms(2)] n)
qed

lemma verify_result:
  assumes "torrent_dims L N tm" and "i < ceil_div L N" and "picker_inv (tm_Picker tm)"
    and "i < length (pieces (tm_Picker tm))" and "pc_completed (pieces (tm_Picker tm) ! i)" and "i < 2 ^ 32"
  shows "\<exists>ps bufs st. verifyAndWritePiece sha1 (int i) tm =
      (Ret (tm\<lparr>puts := ps, storageCh := storageCh tm @ st, pieceBufs := bufs\<rparr>) :: ('e, TorrentManager) outcome) \<and>
    (st = [] \<or> (\<exists>d. st = [(int i, d)] \<and> length d = piece_len L N i \<and> string_of (sha1 d) = listed_hash tm i))"
proof (cases "map_get (pieceBufs tm) (int i)")
  case None
  then show ?thesis by (intro exI [of _ "puts tm"] exI [of _ "pieceBufs tm"] exI [of _ "[]"]) (simp add: verifyAndWritePiece_def)
next
  case (Some blocks)
  let ?len = "piece_len L N i"
  let ?bs = "[0..<ceil_div ?len 16384]"
  have n: "num_blocks (int ?len) = (Ret (int (ceil_div ?len 16384)) :: ('e, int) outcome)"
    using small_piece [OF assms(1,2)] by (intro num_blocks_eq) simp
  have m: "go_make (int ?len) = (Ret (replicate ?len 0) :: ('e, byte list) outcome)"
    using small_piece [OF assms(1,2)] by (simp add: go_make_def)
  have rev: "\<exists>ps' bufs. revertPiece (int i) (tm\<lparr>puts := ps\<rparr>) = (Ret (tm\<lparr>puts := ps', storageCh := storageCh tm @ [], pieceBufs := bufs\<rparr>) :: ('e, _) outcome)" for ps
  proof -
    have "torrent_dims L N (tm\<lparr>puts := ps\<rparr>)" using assms(1) by (simp add: torrent_dims_def)
    from revertPiece_eq [where ?'e = 'e, OF this assms(2)] assms(3-5) drop_buffers_shape [of "int i" "tm\<lparr>puts := ps\<rparr>"] show ?thesis by auto
  qed
  have w: "wrap64 (int i * 20) = int (i * 20)" "wrap64 ((int i + 1) * 20) = int (Suc i * 20)"
    using assms(6) by (simp_all add: wrap64_nonneg)
  have h: "go_slice (tm_Pieces tm) (wrap64 (int i * 20)) (wrap64 ((int i + 1) * 20)) = (Ret (listed_hash tm i) :: ('e, string) outcome)"
    unfolding w listed_hash_def using assms(1,2) by (intro go_slice_nat) (auto simp: torrent_dims_def)
  obtain r ps where c: "copy_blocks blocks ?bs (replicate ?len 0) (puts tm) = (r, ps)" by force
  have v: "verifyAndWritePiece sha1 (int i) tm =
      (case r of None \<Rightarrow> revertPiece (int i) (tm\<lparr>puts := ps\<rparr>)
       | Some d \<Rightarrow> if string_of (sha1 d) \<noteq> listed_hash tm i then revertPiece (int i) (tm\<lparr>puts := ps\<rparr>)
           else (Ret (tm\<lparr>puts := ps, storageCh := storageCh tm @ [(int i, d)], pieceBufs := map_del (int i) (pieceBufs tm)\<rparr>) :: ('e, TorrentManager) outcome))"
    unfolding verifyAndWritePiece_def Some option.case piece_length_eq [OF assms(1,2)] go_bind.simps m n nat_int c prod.case h
    by (cases r) simp_all
  show ?thesis
  proof (cases r)
    case None
    obtain ps' bufs where "revertPiece (int i) (tm\<lparr>puts := ps\<rparr>) =
        (Ret (tm\<lparr>puts := ps', storageCh := storageCh tm @ [], pieceBufs := bufs\<rparr>) :: ('e, _) outcome)" using rev by blast
    with c None show ?thesis
      by (intro exI [of _ ps'] exI [of _ bufs] exI [of _ "[]"])
        (simp add: v)
  next
    case S: (Some d)
    have lo: "\<forall>b\<in>set ?bs. b * 16384 \<le> ?len" using ceil_div_lower [of 16384 _ ?len] by (auto intro: less_imp_le)
    have "length d = ?len"
      using copy_blocks_length [of blocks ?bs "replicate ?len 0" "puts tm" d ps] c S lo by simp
    moreover obtain ps' bufs where r: "revertPiece (int i) (tm\<lparr>puts := ps\<rparr>) =
        (Ret (tm\<lparr>puts := ps', storageCh := storageCh tm @ [], pieceBufs := bufs\<rparr>) :: ('e, _) outcome)" using rev by blast
    ultimately show ?thesis
    proof (cases "string_of (sha1 d) = listed_hash tm i")
      case True
      with \<open>length d = ?len\<close> c S show ?thesis
        by (intro exI [of _ ps] exI [of _ "map_del (int i) (pieceBufs tm)"] exI [of _ "[(int i, d)]"])
          (simp add: v)
    next
      case False
      with r c S show ?thesis
        by (intro exI [of _ ps'] exI [of _ bufs] exI [of _ "[]"])
          (simp add: v)
    qed
  qed
qed

section \<open>Messages\<close>

text \<open>An operation that leaves the torrent and the storage as they are and moves the picker keeps the invariant.\<close>

lemma manager_inv_picker:
  assumes "manager_inv sha1 L N tm" and "picker_inv p" and "map geom (pieces p) = map geom (pieces (tm_Picker tm))"
    and "IsCompleted (tm_Picker tm) \<Longrightarrow> IsCompleted p" and "fst ` set (peerPieces p) = fst ` set (peerPieces (tm_Picker tm))"
  shows "manager_inv sha1 L N (tm\<lparr>tm_Picker := p\<rparr>)"
proof -
  have "stored_ok sha1 (tm\<lparr>tm_Picker := p\<rparr>) = stored_ok sha1 tm" by (simp add: stored_ok_def listed_hash_def fun_eq_iff)
  then show ?thesis using assms by (simp add: manager_inv_def)
qed

lemma manager_inv_frame [simp]:
  "manager_inv sha1 L N (tm\<lparr>puts := ps\<rparr>) = manager_inv sha1 L N tm"
  "manager_inv sha1 L N (tm\<lparr>pieceBufs := bufs\<rparr>) = manager_inv sha1 L N tm"
  "manager_inv sha1 L N (tm\<lparr>disconnects := ds\<rparr>) = manager_inv sha1 L N tm"
  "manager_inv sha1 L N (tm\<lparr>InMessages := ms\<rparr>) = manager_inv sha1 L N tm"
  by (simp_all add: manager_inv_def stored_ok_def listed_hash_def)

lemma manager_inv_dims: "manager_inv sha1 L N tm \<Longrightarrow> torrent_dims L N tm"
  by (simp add: manager_inv_def torrent_dims_def)

lemma fst_map_del: "fst ` set (map_del k m) = fst ` set m - {k}"
  by (auto simp: map_del_def)

lemma peerPieces_reclaim [simp]: "peerPieces (reclaim sel p) = peerPieces p"
  by (simp add: reclaim_def)

lemma IsCompleted_reclaim: "IsCompleted (reclaim sel p) = IsCompleted p"
  by (simp add: IsCompleted_def reclaim_def)

lemma UnregisterPeer_frame:
  "IsCompleted (UnregisterPeer a p) = IsCompleted p" "map geom (pieces (UnregisterPeer a p)) = map geom (pieces p)"
  "fst ` set (peerPieces (UnregisterPeer a p)) = fst ` set (peerPieces p) - {a}"
proof -
  have "IsCompleted (p\<lparr>availability := x, peerPieces := y\<rparr>) = IsCompleted p" for x y by (simp add: IsCompleted_def)
  then show "IsCompleted (UnregisterPeer a p) = IsCompleted p"
    by (simp add: UnregisterPeer_def IsCompleted_reclaim split: option.splits)
qed (auto simp: UnregisterPeer_def geom_reclaim fst_map_del map_get_None_iff split: option.splits)

lemma RemovePeer_inv: "manager_inv sha1 L N tm \<Longrightarrow> manager_inv sha1 L N (RemovePeer a tm)"
proof (cases "map_get (activePeers tm) a")
  case (Some c)
  assume i: "manager_inv sha1 L N tm"
  have "stored_ok sha1 (tm\<lparr>activePeers := x, tm_Picker := y\<rparr>) = stored_ok sha1 tm" for x y
    by (simp add: stored_ok_def listed_hash_def fun_eq_iff)
  then show ?thesis
    using i UnregisterPeer_inv [of False "tm_Picker tm" a]
    by (simp add: RemovePeer_def Some manager_inv_def UnregisterPeer_frame fst_map_del)
qed (simp add: RemovePeer_def)

lemma fst_map_put_old: "map_get m k = Some v \<Longrightarrow> fst ` set (map_put k w m) = fst ` set m"
  by (metis fst_conv fst_map_put image_eqI insert_absorb map_get_in)

lemma UpdatePeer_frame:
  "IsCompleted (UpdatePeerHave a i p) = IsCompleted p" "IsCompleted (UpdatePeerBitfield a bf p) = IsCompleted p"
  "fst ` set (peerPieces (UpdatePeerHave a i p)) = fst ` set (peerPieces p)"
  "fst ` set (peerPieces (UpdatePeerBitfield a bf p)) = fst ` set (peerPieces p)"
  by (simp_all add: UpdatePeerHave_def UpdatePeerBitfield_def IsCompleted_def Let_def fst_map_put_old split: option.splits)

lemma MarkFailed_frame:
  "IsCompleted (MarkFailed i b p) = IsCompleted p" "peerPieces (MarkFailed i b p) = peerPieces p"
  by (simp_all add: MarkFailed_def IsCompleted_def Let_def split: option.splits)

text \<open>The storage gets new pieces only of those that were not completed before.\<close>

definition new_pieces :: "TorrentManager \<Rightarrow> TorrentManager \<Rightarrow> bool" where
  "new_pieces tm tm' \<longleftrightarrow> (\<exists>st. storageCh tm' = storageCh tm @ st \<and> (\<forall>pw\<in>set st. \<not> pc_completed (pieces (tm_Picker tm) ! nat (fst pw))))"

lemma new_pieces_same: "storageCh tm' = storageCh tm \<Longrightarrow> new_pieces tm tm'"
  by (simp add: new_pieces_def)

lemma handle_piece_inv:
  assumes i: "manager_inv sha1 L N tm"
  shows "\<exists>tm'. handle_piece sha1 msg tm = (Ret tm' :: ('e, TorrentManager) outcome) \<and> manager_inv sha1 L N tm' \<and>
    tm_Picker tm' = (if length (pm_Payload msg) < 8 then tm_Picker tm
      else snd (MarkCompleted (int_of_u32 (Uint32 (sub (pm_Payload msg) 0 4))) (int_of_u32 (Uint32 (sub (pm_Payload msg) 4 8)))
        (pm_Address msg) (tm_Picker tm))) \<and> new_pieces tm tm'"
proof (cases "length (pm_Payload msg) < 8")
  case True
  then show ?thesis using i by (simp add: handle_piece_def new_pieces_same)
next
  case False
  let ?w = "Uint32 (sub (pm_Payload msg) 0 4)" and ?b = "int_of_u32 (Uint32 (sub (pm_Payload msg) 4 8))"
  define n where "n = unat ?w"
  have n: "int_of_u32 ?w = int n" "n < 2 ^ 32"
    using unsigned_less [of ?w, where ?'a = nat] by (simp_all only: n_def int_of_u32_unat) simp
  let ?tm = "store_block (int n) ?b \<lparr>bb_Data = drop 8 (pm_Payload msg), bb_PBuf = pm_PBuf msg\<rparr> tm"
  obtain x pd td p where m: "MarkCompleted (int n) ?b (pm_Address msg) (tm_Picker ?tm) = ((x, pd, td), p)"
    by (metis prod.collapse)
  have i1: "manager_inv sha1 L N ?tm" using i by (simp add: store_block_def Let_def)
  note inv = manager_invD [OF i1]
  note r = MarkCompleted_result [OF inv(6) m]
  have p: "picker_inv p" "map geom (pieces p) = map geom (pieces (tm_Picker ?tm))"
    using MarkCompleted_inv [OF inv(6)] geom_MarkCompleted m by (metis snd_conv)+
  let ?tm2 = "?tm\<lparr>tm_Picker := p\<rparr>"
  have i2: "manager_inv sha1 L N ?tm2"
    using i1 p r(3,4) by (intro manager_inv_picker) auto
  have v: "\<exists>tm3. (if pd then verifyAndWritePiece sha1 (int n) ?tm2 else Ret ?tm2) = (Ret tm3 :: ('e, TorrentManager) outcome) \<and>
      manager_inv sha1 L N tm3 \<and> tm_Picker tm3 = p \<and> doneCh tm3 = doneCh ?tm \<and> new_pieces tm tm3"
  proof (cases pd)
    case True
    have k: "n < ceil_div L N" "n < length (pieces p)" "pc_completed (pieces p ! n)" "n < 2 ^ 32"
      using r(1) [OF True] inv(7) geom_same [OF p(2)] n(2) by auto
    obtain ps bufs st where v: "verifyAndWritePiece sha1 (int (n)) ?tm2 =
        (Ret (?tm2\<lparr>puts := ps, storageCh := storageCh ?tm2 @ st, pieceBufs := bufs\<rparr>) :: ('e, TorrentManager) outcome)"
      and st: "st = [] \<or> (\<exists>d. st = [(int (n), d)] \<and> length d = piece_len L N (n) \<and> string_of (sha1 d) = listed_hash ?tm2 (n))"
      using verify_result [where ?'e = 'e, OF manager_inv_dims [OF i2] k(1), of sha1] k p(1) by auto
    have "\<forall>pw\<in>set st. stored_ok sha1 ?tm2 pw" using st k(1) inv(1,2) by (auto simp: stored_ok_def)
    moreover have "stored_ok sha1 (?tm2\<lparr>puts := ps, storageCh := x, pieceBufs := bufs\<rparr>) = stored_ok sha1 ?tm2" for x
      by (simp add: stored_ok_def listed_hash_def fun_eq_iff)
    ultimately have "manager_inv sha1 L N (?tm2\<lparr>puts := ps, storageCh := storageCh ?tm2 @ st, pieceBufs := bufs\<rparr>)"
      using i2 by (auto simp: manager_inv_def)
    moreover have "\<forall>pw\<in>set st. \<not> pc_completed (pieces (tm_Picker tm) ! nat (fst pw))"
      using st r(1) [OF True] by (auto simp: store_block_def Let_def)
    ultimately show ?thesis using True v by (auto simp: new_pieces_def store_block_def Let_def)
  qed (use i2 in \<open>simp add: new_pieces_def store_block_def Let_def\<close>)
  then obtain tm3 where t: "(if pd then verifyAndWritePiece sha1 (int n) ?tm2 else Ret ?tm2) = (Ret tm3 :: ('e, TorrentManager) outcome)"
      "manager_inv sha1 L N tm3" "tm_Picker tm3 = p" "doneCh tm3 = doneCh ?tm" "new_pieces tm tm3" by blast
  have "\<not> doneCh tm3" "IsCompleted p" if td using that r(2) i1 t(4) by (auto simp: manager_inv_def)
  moreover have "manager_inv sha1 L N (tm3\<lparr>doneCh := True\<rparr>)" if td
    using that t(2,3) r(2) by (auto simp: manager_inv_def stored_ok_def listed_hash_def)
  moreover have "p = snd (MarkCompleted (int n) ?b (pm_Address msg) (tm_Picker tm))" using m by (simp add: store_block_def Let_def)
  moreover have "new_pieces tm (tm3\<lparr>doneCh := True\<rparr>)" using t(5) by (simp add: new_pieces_def)
  moreover have "handle_piece sha1 msg tm = (Ret (if td then tm3\<lparr>doneCh := True\<rparr> else tm3) :: ('e, TorrentManager) outcome)"
    using False m t(1) calculation(1) by (simp add: handle_piece_def Let_def n(1))
  ultimately show ?thesis using t False n(1) by auto
qed

text \<open>The picker is only ever changed by its own operations.\<close>

definition drives :: "(candidatePiece list \<Rightarrow> candidatePiece list) \<Rightarrow> PiecePicker \<Rightarrow> PiecePicker \<Rightarrow> bool" where
  "drives srt p q \<longleftrightarrow> (\<exists>ops. q = fold (picker_step srt) ops p)"

lemma drives_refl [simp]: "drives srt p p"
  by (auto simp: drives_def intro: exI [of _ "[]"])

lemma drives_op: "drives srt p (picker_step srt op p)"
  by (auto simp: drives_def intro: exI [of _ "[op]"])

lemma drives_trans: "drives srt p q \<Longrightarrow> drives srt q r \<Longrightarrow> drives srt p r"
  unfolding drives_def by (metis fold_append o_apply)

lemma drives_simps [simp]:
  "drives srt p (MarkFailed i b p)" "drives srt p (UpdatePeerBitfield a bf p)" "drives srt p (UpdatePeerHave a i p)"
  "drives srt p (UnregisterPeer a p)" "drives srt p (snd (MarkCompleted i b a p))" "drives srt p (snd (GetStalledRequests now t p))"
  "drives srt p (snd (NextBlock srt now a p))"
  using drives_op [of srt p "Op_MarkFailed i b"] drives_op [of srt p "Op_UpdatePeerBitfield a bf"] drives_op [of srt p "Op_UpdatePeerHave a i"]
    drives_op [of srt p "Op_UnregisterPeer a"] drives_op [of srt p "Op_MarkCompleted i b a"] drives_op [of srt p "Op_GetStalledRequests now t"]
    drives_op [of srt p "Op_NextBlock now a"] by simp_all

text \<open>What holds of a manager before and after a step.\<close>

definition good_step :: "(candidatePiece list \<Rightarrow> candidatePiece list) \<Rightarrow> (byte list \<Rightarrow> byte list) \<Rightarrow> nat \<Rightarrow> nat \<Rightarrow> TorrentManager \<Rightarrow> TorrentManager \<Rightarrow> bool" where
  "good_step srt sha1 L N tm tm' \<longleftrightarrow> manager_inv sha1 L N tm' \<and> drives srt (tm_Picker tm) (tm_Picker tm') \<and> new_pieces tm tm'"

lemma good_step_picker:
  "manager_inv sha1 L N (tm\<lparr>tm_Picker := p\<rparr>) \<Longrightarrow> drives srt (tm_Picker tm) p \<Longrightarrow> good_step srt sha1 L N tm (tm\<lparr>tm_Picker := p\<rparr>)"
  by (simp add: good_step_def new_pieces_same)

lemma handleMessage_step:
  assumes i: "manager_inv sha1 L N tm"
  shows "\<exists>tm'. handleMessage sha1 msg tm = (Ret tm' :: ('e, TorrentManager) outcome) \<and> good_step srt sha1 L N tm tm'"
proof -
  note p = manager_invD(6) [OF i]
  have "manager_inv sha1 L N (tm\<lparr>tm_Picker := MarkFailed x y (tm_Picker tm)\<rparr>)" for x y
    using p by (intro manager_inv_picker [OF i] MarkFailed_inv) (simp_all add: MarkFailed_frame geom_MarkFailed)
  moreover have "manager_inv sha1 L N (tm\<lparr>tm_Picker := UpdatePeerBitfield a bf (tm_Picker tm)\<rparr>)" for a bf
    using p by (intro manager_inv_picker [OF i] UpdatePeerBitfield_inv) (simp_all add: UpdatePeer_frame)
  moreover have "manager_inv sha1 L N (tm\<lparr>tm_Picker := UpdatePeerHave a x (tm_Picker tm)\<rparr>)" for a x
    using p by (intro manager_inv_picker [OF i] UpdatePeerHave_inv) (simp_all add: UpdatePeer_frame)
  moreover have "good_step srt sha1 L N tm ((RemovePeer a tm)\<lparr>disconnects := d\<rparr>)" for a d
    using RemovePeer_inv [OF i, of a]
    by (auto simp: good_step_def RemovePeer_def new_pieces_same split: option.splits)
  moreover have "good_step srt sha1 L N tm tm" using i by (simp add: good_step_def new_pieces_same)
  moreover obtain tm' where "handle_piece sha1 msg tm = (Ret tm' :: ('e, TorrentManager) outcome)" "good_step srt sha1 L N tm tm'"
    using handle_piece_inv [OF i, where ?'e = 'e, of msg] by (auto simp: good_step_def)
  ultimately show ?thesis by (simp add: handleMessage_def Let_def good_step_picker)
qed

lemma on_event_step:
  assumes i: "manager_inv sha1 L N tm"
  shows "\<exists>tm'. on_event sha1 ev tm = (Ret tm' :: ('e, TorrentManager) outcome) \<and> good_step srt sha1 L N tm tm'"
proof (cases ev)
  case (Ev_Tick now)
  have "manager_inv sha1 L N (tm\<lparr>tm_Picker := snd (GetStalledRequests now t (tm_Picker tm))\<rparr>)" for t
    using manager_invD(6) [OF i] GetStalledRequests_inv
    by (intro manager_inv_picker [OF i]) (simp_all add: GetStalledRequests_def Let_def IsCompleted_reclaim geom_reclaim)
  then show ?thesis by (simp add: on_event_def Ev_Tick good_step_picker)
next
  case (Ev_Message msg)
  obtain tm' where t: "handleMessage sha1 msg tm = (Ret tm' :: ('e, TorrentManager) outcome)" "good_step srt sha1 L N tm tm'"
    using handleMessage_step [OF i] by blast
  then have "good_step srt sha1 L N tm (tm'\<lparr>puts := ps\<rparr>)" for ps by (simp add: good_step_def new_pieces_def)
  then show ?thesis using t by (simp add: on_event_def Ev_Message)
qed

section \<open>Requests\<close>

text \<open>What a call of \<open>NextBlock\<close> leaves as it is.\<close>

definition same_progress :: "PiecePicker \<Rightarrow> PiecePicker \<Rightarrow> bool" where
  "same_progress p q \<longleftrightarrow> map geom (pieces q) = map geom (pieces p) \<and> peerPieces q = peerPieces p \<and>
     completed q = completed p \<and> totalBlocks q = totalBlocks p"

lemma same_progress_trans: "same_progress p q \<Longrightarrow> same_progress q r \<Longrightarrow> same_progress p r"
  by (simp add: same_progress_def)

context rarest_first
begin

lemma NextBlock_progress:
  assumes "NextBlock srt now a p = (r, q)"
  shows "same_progress p q"
proof -
  have "map geom (pieces q) = map geom (pieces p)" using geom_NextBlock [of now a p] assms by simp
  moreover have "peerPieces q = peerPieces p \<and> completed q = completed p \<and> totalBlocks q = totalBlocks p"
    using assms by (cases rule: NextBlock_cases) (auto simp: request_def touch_def enter_endGame_def)
  ultimately show ?thesis by (simp add: same_progress_def)
qed

end

lemma pipeline_loop_inv:
  assumes "pipeline_loop srt clock env k c p = Some r"
  shows "rarest_first srt \<longrightarrow> picker_inv p \<longrightarrow> picker_inv (fst (snd r)) \<and> same_progress p (fst (snd r)) \<and> drives srt p (fst (snd r))"
proof (rule pipeline_loop.raw_induct [OF _ assms, where P = "\<lambda>srt clock env k c p r. rarest_first srt \<longrightarrow> picker_inv p \<longrightarrow>
      picker_inv (fst (snd r)) \<and> same_progress p (fst (snd r)) \<and> drives srt p (fst (snd r))"], intro impI)
  fix rec srt clock env k c p r
  assume IH: "\<And>srt clock env k c p r. rec srt clock env k c p = Some r \<Longrightarrow>
      rarest_first srt \<longrightarrow> picker_inv p \<longrightarrow> picker_inv (fst (snd r)) \<and> same_progress p (fst (snd r)) \<and> drives srt p (fst (snd r))"
    and body: "(let c = env k c in if GetOutstandingCount c < 5
        then case NextBlock srt (clock k) (cl_Address c) p of (None, p) \<Rightarrow> Some (c, p, Suc k)
          | (Some block, p) \<Rightarrow> rec srt clock env (Suc k) (QueueRequest (clock k) (blk_index block) (blk_begin block) (blk_length block) c) p
        else Some (c, p, Suc k)) = Some r"
    and rf: "rarest_first srt" and p: "picker_inv p"
  obtain x q where n: "NextBlock srt (clock k) (cl_Address (env k c)) p = (x, q)" by force
  have q: "picker_inv q" "same_progress p q" "drives srt p q"
    using rarest_first.NextBlock_inv [OF rf p, of "clock k" "cl_Address (env k c)"] rarest_first.NextBlock_progress [OF rf n] n
      drives_simps(7) [of srt p "clock k" "cl_Address (env k c)"] by simp_all
  show "picker_inv (fst (snd r)) \<and> same_progress p (fst (snd r)) \<and> drives srt p (fst (snd r))"
  proof (cases "GetOutstandingCount (env k c) < 5")
    case True
    show ?thesis
    proof (cases x)
      case None
      then show ?thesis using body True n q by auto
    next
      case (Some b)
      then have "rec srt clock env (Suc k) (QueueRequest (clock k) (blk_index b) (blk_begin b) (blk_length b) (env k c)) q = Some r"
        using body True n by simp
      from IH [OF this] rf q show ?thesis using same_progress_trans drives_trans by blast
    qed
  next
    case False
    then show ?thesis using body p by (auto simp: Let_def same_progress_def)
  qed
qed

lemma manager_inv_progress:
  "manager_inv sha1 L N tm \<Longrightarrow> picker_inv p \<Longrightarrow> same_progress (tm_Picker tm) p \<Longrightarrow> manager_inv sha1 L N (tm\<lparr>tm_Picker := p\<rparr>)"
  by (rule manager_inv_picker) (simp_all add: same_progress_def IsCompleted_def)

lemma manager_inv_client:
  "manager_inv sha1 L N tm \<Longrightarrow> map_get (activePeers tm) a = Some c \<Longrightarrow> manager_inv sha1 L N (tm\<lparr>activePeers := map_put a c' (activePeers tm)\<rparr>)"
proof -
  have "stored_ok sha1 (tm\<lparr>activePeers := x\<rparr>) = stored_ok sha1 tm" for x by (simp add: stored_ok_def listed_hash_def fun_eq_iff)
  then show "manager_inv sha1 L N tm \<Longrightarrow> map_get (activePeers tm) a = Some c \<Longrightarrow> ?thesis"
    by (simp add: manager_inv_def fst_map_put_old)
qed

lemma pipelineRequests_step:
  assumes "rarest_first srt" and "manager_inv sha1 L N tm" and "pipelineRequests srt clock env k order tm = Some tm'"
  shows "manager_inv sha1 L N tm' \<and> drives srt (tm_Picker tm) (tm_Picker tm') \<and> storageCh tm' = storageCh tm"
  using assms(2,3)
proof (induction order arbitrary: k tm)
  case (Cons a order)
  show ?case
  proof (cases "map_get (activePeers tm) a")
    case (Some c)
    show ?thesis
    proof (cases "Choked c")
      case False
      then obtain c' p k' where l: "pipeline_loop srt clock env k c (tm_Picker tm) = Some (c', p, k')"
        and r: "pipelineRequests srt clock env k' order (tm\<lparr>activePeers := map_put a c' (activePeers tm), tm_Picker := p\<rparr>) = Some tm'"
        using Cons.prems(2) Some by (auto split: option.splits prod.splits)
      have p: "picker_inv p" "same_progress (tm_Picker tm) p" "drives srt (tm_Picker tm) p"
        using pipeline_loop_inv [OF l] assms(1) manager_invD(6) [OF Cons.prems(1)] by auto
      have "manager_inv sha1 L N ((tm\<lparr>activePeers := map_put a c' (activePeers tm)\<rparr>)\<lparr>tm_Picker := p\<rparr>)"
        by (rule manager_inv_progress [OF manager_inv_client [OF Cons.prems(1) Some] p(1)]) (simp add: p(2))
      then show ?thesis using Cons.IH [OF _ r] drives_trans [OF p(3)] by auto
    qed (use Cons Some in auto)
  qed (use Cons in auto)
qed simp

lemma AddPeer_inv:
  assumes "manager_inv sha1 L N tm"
  shows "manager_inv sha1 L N (AddPeer now c tm)"
proof -
  have a: "cl_Address (fst (StartLoop now c)) = cl_Address c" by (simp add: StartLoop_def)
  have "picker_inv (RegisterPeer (cl_Address c) (tm_Picker tm))"
    using manager_invD(6) [OF assms(1)] by (rule RegisterPeer_inv) simp
  moreover have "IsCompleted (RegisterPeer (cl_Address c) (tm_Picker tm)) = IsCompleted (tm_Picker tm)"
    "fst ` set (peerPieces (RegisterPeer (cl_Address c) (tm_Picker tm))) = insert (cl_Address c) (fst ` set (peerPieces (tm_Picker tm)))"
    by (simp_all add: RegisterPeer_def IsCompleted_def fst_map_put)
  moreover have "stored_ok sha1 (tm\<lparr>activePeers := x, tm_Picker := y, InMessages := z\<rparr>) = stored_ok sha1 tm" for x y z
    by (simp add: stored_ok_def listed_hash_def fun_eq_iff)
  moreover obtain c' msgs where "StartLoop now c = (c', msgs)" "cl_Address c' = cl_Address c" using a by (metis prod.collapse)
  ultimately show ?thesis
    using assms(1) by (simp add: AddPeer_def manager_inv_def fst_map_put)
qed

lemma NewTorrentManager_inv:
  assumes "0 < N" and "int L + int N \<le> 2 ^ 63" and "N \<le> 2 ^ 48" and "20 * ceil_div L N \<le> length pcs"
  shows "\<exists>tm. NewTorrentManager pcs (int L) (int N) = (Ret tm :: ('e, TorrentManager) outcome) \<and> manager_inv sha1 L N tm"
  using NewPiecePicker_fresh [OF assms(1,2), where ?'a = 'e] fresh_picker_inv [OF assms(1), of False L] assms
  by (simp add: NewTorrentManager_def manager_inv_def fresh_picker_def)

section \<open>What a round leaves alone\<close>

text \<open>No round adds an active peer, and none changes the list of hashes.\<close>

lemma revert_frame: "revertPiece i tm = Ret tm' \<Longrightarrow> activePeers tm' = activePeers tm \<and> tm_Pieces tm' = tm_Pieces tm"
  by (auto simp: revertPiece_def Let_def go_bind_Ret_iff split: option.splits)

lemma verify_frame: "verifyAndWritePiece sha1 i tm = (Ret tm' :: ('e, TorrentManager) outcome) \<Longrightarrow> activePeers tm' = activePeers tm \<and> tm_Pieces tm' = tm_Pieces tm"
proof (cases "map_get (pieceBufs tm) i")
  case (Some blocks)
  assume "verifyAndWritePiece sha1 i tm = (Ret tm' :: ('e, TorrentManager) outcome)"
  then obtain d0 n where b: "(case copy_blocks blocks [0..<nat n] d0 (puts tm) of
        (None, ps) \<Rightarrow> revertPiece i (tm\<lparr>puts := ps\<rparr>)
      | (Some d, ps) \<Rightarrow> go_bind (go_slice (tm_Pieces tm) (wrap64 (i * 20)) (wrap64 ((i + 1) * 20))) (\<lambda>h.
           if string_of (sha1 d) \<noteq> h then revertPiece i (tm\<lparr>puts := ps\<rparr>)
           else Ret (tm\<lparr>puts := ps, storageCh := storageCh tm @ [(i, d)], pieceBufs := map_del i (pieceBufs tm)\<rparr>))) = (Ret tm' :: ('e, TorrentManager) outcome)"
    unfolding verifyAndWritePiece_def Some option.case go_bind_Ret_iff by (elim exE conjE) blast
  obtain r ps where "copy_blocks blocks [0..<nat n] d0 (puts tm) = (r, ps)" by force
  note v = b [unfolded this prod.case]
  show ?thesis
  proof (cases r)
    case None
    then show ?thesis using v revert_frame [of i "tm\<lparr>puts := ps\<rparr>" tm'] by simp
  next
    case (Some d)
    then show ?thesis using v revert_frame [of i "tm\<lparr>puts := ps\<rparr>" tm'] by (auto simp: go_bind_Ret_iff split: if_splits)
  qed
qed (simp add: verifyAndWritePiece_def)

lemma handle_piece_frame: "handle_piece sha1 msg tm = Ret tm' \<Longrightarrow> activePeers tm' = activePeers tm \<and> tm_Pieces tm' = tm_Pieces tm"
  by (auto simp: handle_piece_def Let_def store_block_def go_bind_Ret_iff split: prod.splits if_splits dest!: verify_frame)

lemma handleMessage_frame: "handleMessage sha1 msg tm = Ret tm' \<Longrightarrow> length (activePeers tm') \<le> length (activePeers tm) \<and> tm_Pieces tm' = tm_Pieces tm"
  by (auto simp: handleMessage_def Let_def RemovePeer_def length_map_del split: if_splits option.splits dest: handle_piece_frame)

lemma on_event_frame: "on_event sha1 ev tm = Ret tm' \<Longrightarrow> length (activePeers tm') \<le> length (activePeers tm) \<and> tm_Pieces tm' = tm_Pieces tm"
  by (auto simp: on_event_def go_bind_Ret_iff split: manager_event.splits dest!: handleMessage_frame)

lemma pipelineRequests_frame:
  "pipelineRequests srt clock env k order tm = Some tm' \<Longrightarrow> length (activePeers tm') = length (activePeers tm) \<and> tm_Pieces tm' = tm_Pieces tm"
  by (induction order arbitrary: k tm) (auto simp: length_map_put split: option.splits if_splits prod.splits)

lemma manager_round_frame:
  assumes "manager_round srt sha1 clock env order ev tm = Some (Ret tm' :: ('e, TorrentManager) outcome)"
  shows "length (activePeers tm') \<le> length (activePeers tm) \<and> tm_Pieces tm' = tm_Pieces tm"
proof -
  obtain tm1 where "on_event sha1 ev tm = (Ret tm1 :: ('e, TorrentManager) outcome)" "pipelineRequests srt clock env 0 order tm1 = Some tm'"
    using assms by (auto simp: manager_round_def split: outcome.splits)
  then show ?thesis using on_event_frame pipelineRequests_frame by metis
qed

section \<open>Reachable states\<close>

text \<open>
  The steps of the system: rounds of the event loop on any event, a change
  of what waits in the channel (which is up to the peers), peers that are added, also
  under an address that is in use, and steps of the clients' own goroutines, in any order.
\<close>

inductive manager_next ::
    "(candidatePiece list \<Rightarrow> candidatePiece list) \<Rightarrow> (byte list \<Rightarrow> byte list) \<Rightarrow> TorrentManager \<Rightarrow> TorrentManager \<Rightarrow> bool"
  for srt sha1 where
  round: "manager_round srt sha1 clock env order ev tm = Some (Ret tm' :: (unit, TorrentManager) outcome) \<Longrightarrow> manager_next srt sha1 tm tm'"
| arrive: "manager_next srt sha1 tm (tm\<lparr>InMessages := ms\<rparr>)"
| add: "manager_next srt sha1 tm (AddPeer now c tm)"
| client: "map_get (activePeers tm) a = Some c \<Longrightarrow>
    manager_next srt sha1 tm (tm\<lparr>activePeers := map_put a (client_step et op c) (activePeers tm), InMessages := InMessages tm @ msgs\<rparr>)"

inductive manager_reach ::
    "(candidatePiece list \<Rightarrow> candidatePiece list) \<Rightarrow> (byte list \<Rightarrow> byte list) \<Rightarrow> string \<Rightarrow> nat \<Rightarrow> nat \<Rightarrow> TorrentManager \<Rightarrow> bool"
  for srt sha1 pcs L N where
  start: "NewTorrentManager pcs (int L) (int N) = (Ret tm :: (unit, TorrentManager) outcome) \<Longrightarrow> manager_reach srt sha1 pcs L N tm"
| step: "manager_reach srt sha1 pcs L N tm \<Longrightarrow> manager_next srt sha1 tm tm' \<Longrightarrow> manager_reach srt sha1 pcs L N tm'"

inductive_cases manager_nextE: "manager_next srt sha1 tm tm'"

lemma AddPeer_step:
  assumes "manager_inv sha1 L N tm"
  shows "good_step srt sha1 L N tm (AddPeer now c tm)"
proof -
  have "drives srt (tm_Picker tm) (RegisterPeer (cl_Address c) (tm_Picker tm))"
    using drives_op [of srt "tm_Picker tm" "Op_RegisterPeer (cl_Address c)"] by simp
  then show ?thesis
    using AddPeer_inv [OF assms, of now] by (simp add: good_step_def AddPeer_def StartLoop_def new_pieces_same)
qed

lemma manager_next_step:
  assumes "rarest_first srt" and "manager_inv sha1 L N tm" and "manager_next srt sha1 tm tm'"
  shows "good_step srt sha1 L N tm tm'"
  using assms(3)
proof cases
  case (round clock env order ev)
  obtain tm1 where o: "on_event sha1 ev tm = (Ret tm1 :: (unit, TorrentManager) outcome)" "good_step srt sha1 L N tm tm1"
    using on_event_step [OF assms(2)] by blast
  then have "pipelineRequests srt clock env 0 order tm1 = Some tm'" using round by (auto simp: manager_round_def)
  from pipelineRequests_step [OF assms(1) _ this] o(2) show ?thesis
    using drives_trans by (auto simp: good_step_def new_pieces_def)
next
  case (arrive ms)
  then show ?thesis using assms(2) by (simp add: good_step_def new_pieces_same)
next
  case (add c now)
  then show ?thesis using AddPeer_step [OF assms(2)] by simp
next
  case (client a c et op msgs)
  have "manager_inv sha1 L N tm'"
    using manager_inv_client [OF assms(2) client(2)] manager_inv_frame(4) unfolding client(1) by fastforce
  then show ?thesis by (simp add: good_step_def client(1) new_pieces_same)
qed

lemma manager_reach_inv:
  assumes "rarest_first srt" and "0 < N" and "int L + int N \<le> 2 ^ 63" and "N \<le> 2 ^ 48" and "20 * ceil_div L N \<le> length pcs"
    and "manager_reach srt sha1 pcs L N tm"
  shows "manager_inv sha1 L N tm"
  using assms(6)
proof induction
  case (start tm)
  then show ?case using NewTorrentManager_inv [where ?'e = unit, OF assms(2-5), of sha1] by auto
next
  case (step tm tm')
  then show ?case using manager_next_step [OF assms(1)] by (auto simp: good_step_def)
qed

lemma manager_next_pieces: "manager_next srt sha1 tm tm' \<Longrightarrow> tm_Pieces tm' = tm_Pieces tm"
  by (erule manager_nextE) (auto simp: AddPeer_def dest: manager_round_frame split: prod.splits)

lemma manager_reach_pieces: "manager_reach srt sha1 pcs L N tm \<Longrightarrow> tm_Pieces tm = pcs"
  by (induction rule: manager_reach.induct) (auto simp: NewTorrentManager_def go_bind_Ret_iff dest: manager_next_pieces)

section \<open>Completed pieces stay as they are\<close>

lemma completed_blocks:
  assumes "picker_inv p" and "i < length (pieces p)"
  shows "pc_completed (pieces p ! i) \<longleftrightarrow> (\<forall>b. slot_ok p (i, b) \<longrightarrow> blk_state (block_at (i, b) p) = BlockCompleted)"
proof -
  have "piece_ok i (pieces p ! i)" using assms by (simp add: picker_ok_def blocks_inv_def)
  then show ?thesis using assms(2) by (auto simp: piece_ok_def slot_ok_def block_at_def list_all_length)
qed

lemma drives_completed:
  assumes "rarest_first srt" and "picker_inv p" and "drives srt p q" and "i < length (pieces p)" and "pc_completed (pieces p ! i)"
  shows "pc_completed (pieces q ! i)"
proof -
  obtain ops where o: "q = fold (picker_step srt) ops p"
    using assms(3) by (auto simp: drives_def)
  have g: "map geom (pieces q) = map geom (pieces p)" unfolding o by (rule rarest_first.geom_run [OF assms(1)])
  have "blk_state (block_at (i, b) q) = BlockCompleted" if "slot_ok q (i, b)" for b
    using rarest_first.completed_stays [OF assms(1,2), of "(i, b)"] that slot_ok_geom [OF g] completed_blocks [OF assms(2,4)] assms(5) o
    by simp
  then show ?thesis
    using completed_blocks [of q i] rarest_first.picker_run_inv [OF assms(1,2)] geom_same [OF g] assms(4) o by simp
qed

text \<open>A completed piece that is not in the storage never gets there.\<close>

lemma lost_piece:
  assumes "rarest_first srt" and "manager_inv sha1 L N tm" and "i < ceil_div L N" and "pc_completed (pieces (tm_Picker tm) ! i)"
    and "int i \<notin> fst ` set (storageCh tm)" and "(manager_next srt sha1)\<^sup>*\<^sup>* tm tm'"
  shows "manager_inv sha1 L N tm' \<and> pc_completed (pieces (tm_Picker tm') ! i) \<and> int i \<notin> fst ` set (storageCh tm')"
  using assms(6)
proof induction
  case base
  then show ?case using assms(2,4,5) by simp
next
  case (step x y)
  have g: "manager_inv sha1 L N y" "drives srt (tm_Picker x) (tm_Picker y)" "new_pieces x y"
    using manager_next_step [OF assms(1) _ step.hyps(2)] step.IH by (auto simp: good_step_def)
  have "i < length (pieces (tm_Picker x))" using manager_invD(7) step.IH assms(3) by metis
  then have "pc_completed (pieces (tm_Picker y) ! i)"
    using drives_completed [OF assms(1) _ g(2)] manager_invD(6) step.IH by blast
  moreover have "int i \<notin> fst ` set (storageCh y)"
    using g(3) step.IH unfolding new_pieces_def by force
  ultimately show ?case using g(1) by blast
qed

end
