(* ===== verification/Manager_Correct.thy ===== *)
theory Manager_Correct
  imports Manager_Inv Picker_Correct
begin

text \<open>
  What the torrent manager guarantees, and where it does not do what it is meant to: the
  theorems about \<^verbatim>\<open>src/download/manager.go\<close>, each with a concrete run on the torrent of
  three bytes in two pieces that the piece picker's theorems use.
\<close>

section \<open>A small torrent\<close>

definition toy_sha1 :: "byte list \<Rightarrow> byte list" where
  "toy_sha1 d = take 20 (d @ replicate 20 0)"

definition demo_pieces :: string where
  "demo_pieces = string_of (toy_sha1 [1, 2]) @ string_of (toy_sha1 [3])"

definition demo_manager :: TorrentManager where
  "demo_manager = \<lparr>tm_Pieces = demo_pieces, tm_Length = 3, tm_PieceLength = 2, tm_Picker = demo_picker, activePeers = [],
     InMessages = [], storageCh = [], doneCh = False, pieceBufs = [], puts = [], disconnects = []\<rparr>"

definition piece_msg :: "32 word \<Rightarrow> 32 word \<Rightarrow> byte list \<Rightarrow> nat \<Rightarrow> PeerMessage" where
  "piece_msg index begin d buf =
     \<lparr>pm_Address = ''a'', pm_ID = MsgPiece, pm_Payload = PutUint32 index @ PutUint32 begin @ d, pm_PBuf = Some buf\<rparr>"

lemma demo_manager_new: "NewTorrentManager demo_pieces 3 2 = (Ret demo_manager :: (unit, TorrentManager) outcome)"
  by (simp add: NewTorrentManager_def demo_new demo_manager_def)

lemma demo_dims: "20 * ceil_div 3 2 \<le> length demo_pieces" "(2 :: nat) \<le> 2 ^ 48"
  by (simp_all add: ceil_div_def demo_pieces_def toy_sha1_def string_of_def)

lemma demo_reach: "manager_reach srt sha1 demo_pieces 3 2 demo_manager"
  by (rule manager_reach.start) (simp add: demo_manager_new)

section \<open>Safety\<close>

text \<open>
  C4. For a torrent whose list of hashes is complete, in every state the manager reaches,
  whatever the peers send: every piece handed to the storage has the length and the SHA-1
  the torrent lists, the completion channel is closed only when all blocks are there, and
  no message makes the manager panic.
\<close>
theorem manager_safe:
  assumes "rarest_first srt" and "0 < N" and "int L + int N \<le> 2 ^ 63" and "N \<le> 2 ^ 48" and "20 * ceil_div L N \<le> length pcs"
    and "manager_reach srt sha1 pcs L N tm"
  shows "(\<forall>i d. (i, d) \<in> set (storageCh tm) \<longrightarrow> 0 \<le> i \<and> length d = piece_len L N (nat i) \<and>
      string_of (sha1 d) = sub pcs (nat i * 20) (Suc (nat i) * 20)) \<and>
    (doneCh tm \<longrightarrow> IsCompleted (tm_Picker tm)) \<and> (\<forall>p. handleMessage sha1 msg tm \<noteq> (Panic p :: ('e, TorrentManager) outcome))"
proof -
  have i: "manager_inv sha1 L N tm" by (rule manager_reach_inv [OF assms])
  then have "\<forall>i d. (i, d) \<in> set (storageCh tm) \<longrightarrow> stored_ok sha1 tm (i, d)" by (simp add: manager_inv_def)
  moreover have "doneCh tm \<longrightarrow> IsCompleted (tm_Picker tm)" using i by (simp add: manager_inv_def)
  moreover obtain tm' where "handleMessage sha1 msg tm = (Ret tm' :: ('e, TorrentManager) outcome)"
    using handleMessage_step [OF i] by blast
  ultimately show ?thesis using manager_invD(1,2) [OF i] manager_reach_pieces [OF assms(6)] by (simp add: stored_ok_def listed_hash_def)
qed

text \<open>The first round of a run: the second piece arrives, and is verified and stored.\<close>

definition demo_round :: "PeerMessage \<Rightarrow> (unit, TorrentManager) outcome option" where
  "demo_round msg = manager_round (isort_by rarer) toy_sha1 (\<lambda>_. 0) (\<lambda>_ c. c) [] (Ev_Message msg) demo_manager"

lemma demo_stored:
  "\<exists>tm. manager_reach (isort_by rarer) toy_sha1 demo_pieces 3 2 tm \<and> storageCh tm = [(1, [3])] \<and> tm_PieceLength tm = 2"
proof -
  have "case demo_round (piece_msg 1 0 [3] 7) of Some (Ret tm) \<Rightarrow> storageCh tm = [(1, [3])] \<and> tm_PieceLength tm = 2 | _ \<Rightarrow> False"
    by code_simp
  then obtain tm where "demo_round (piece_msg 1 0 [3] 7) = Some (Ret tm)" "storageCh tm = [(1, [3])]" "tm_PieceLength tm = 2"
    by (auto split: option.splits outcome.splits)
  then show ?thesis using manager_reach.step [OF demo_reach manager_next.round] unfolding demo_round_def by blast
qed

theorem manager_safe_witness:
  "\<exists>tm. manager_reach (isort_by rarer) toy_sha1 demo_pieces 3 2 tm \<and> storageCh tm = [(1, [3])] \<and>
     string_of (toy_sha1 [3]) = sub demo_pieces 20 40 \<and>
     handleMessage toy_sha1 (piece_msg 0 0 [8] 7) tm \<noteq> (Panic Slice_bounds :: (unit, TorrentManager) outcome)"
proof -
  obtain tm where t: "manager_reach (isort_by rarer) toy_sha1 demo_pieces 3 2 tm" "storageCh tm = [(1, [3])]"
    using demo_stored by blast
  have "string_of (toy_sha1 [3]) = sub demo_pieces 20 40 \<and>
      handleMessage toy_sha1 (piece_msg 0 0 [8] 7) tm \<noteq> (Panic Slice_bounds :: (unit, TorrentManager) outcome)"
    using manager_safe [where ?'e = unit, OF isort_rarest.rarest_first_axioms _ _ demo_dims(2,1) t(1), of "piece_msg 0 0 [8] 7"] t by simp
  then show ?thesis using t by blast
qed

section \<open>The file\<close>

lemma WriteAt_inside:
  "off + length d \<le> length file \<Longrightarrow> WriteAt file (int off) d = take off file @ d @ drop (off + length d) file"
  by (simp add: WriteAt_def)

lemma sub_WriteAt_same: "off + length d \<le> length file \<Longrightarrow> sub (WriteAt file (int off) d) off (off + length d) = d"
  by (simp add: WriteAt_inside sub_def)

lemma sub_WriteAt_other:
  assumes "off + length d \<le> length file" and "hi \<le> off \<or> off + length d \<le> lo"
  shows "sub (WriteAt file (int off) d) lo hi = sub file lo hi"
proof (cases "hi \<le> off")
  case True
  then show ?thesis using assms(1) by (cases "lo \<le> hi") (simp_all add: WriteAt_inside sub_def drop_take min_def)
next
  case False
  then have "off + length d \<le> lo" using assms(2) by simp
  then show ?thesis using assms(1) by (simp add: WriteAt_inside sub_def)
qed

lemma pieces_disjoint:
  assumes "0 < N" and "i < ceil_div L N" and "j < ceil_div L N" and "i \<noteq> j"
  shows "j * N + piece_len L N j \<le> i * N \<or> i * N + piece_len L N i \<le> j * N"
proof -
  have "Suc i * N \<le> j * N \<or> Suc j * N \<le> i * N" using assms(4) by (metis Suc_leI linorder_neqE_nat mult_le_mono1)
  then show ?thesis using piece_len_bounds(2) [OF assms(1,2)] piece_len_bounds(2) [OF assms(1,3)] by auto
qed

lemma storageLoop_pieces:
  assumes N: "0 < N" "int L + int N \<le> 2 ^ 63" and "length fl = L"
    and "\<forall>(i, d)\<in>set pws. 0 \<le> i \<and> nat i < ceil_div L N \<and> length d = piece_len L N (nat i) \<and> P (nat i) d"
    and "\<forall>j\<in>Done. j < ceil_div L N \<and> P j (sub fl (j * N) (j * N + piece_len L N j))"
  shows "length (storageLoop (\<lambda>_. True) (int N) k pws fl) = L \<and>
    (\<forall>j\<in>Done \<union> (nat \<circ> fst) ` set pws. P j (sub (storageLoop (\<lambda>_. True) (int N) k pws fl) (j * N) (j * N + piece_len L N j)))"
  using assms(3-)
proof (induction pws arbitrary: fl Done k)
  case (Cons pw pws)
  obtain z d where z: "pw = (z, d)" by force
  define i where "i = nat z"
  have pw: "pw = (int i, d)" and i: "i < ceil_div L N" "length d = piece_len L N i" "P i d"
    using Cons.prems(2) z by (auto simp: i_def)
  have b: "i * N + length d \<le> length fl" using piece_len_bounds(3) [OF N(1) i(1)] i(2) Cons.prems(1) by simp
  have w: "wrap64 (int i * int N) = int (i * N)" using b N Cons.prems(1) by (subst wrap64_nonneg) (simp_all flip: of_nat_mult)
  let ?f = "WriteAt fl (int (i * N)) d"
  have "length ?f = L" using WriteAt_inside [OF b] b Cons.prems(1) by (simp del: of_nat_mult)
  moreover have "P j (sub ?f (j * N) (j * N + piece_len L N j))" if "j \<in> insert i Done" for j
  proof (cases "j = i")
    case True
    then show ?thesis using sub_WriteAt_same [OF b] i by simp
  next
    case False
    with that have "j < ceil_div L N" "P j (sub fl (j * N) (j * N + piece_len L N j))" using Cons.prems(3) by auto
    then show ?thesis
      using pieces_disjoint [OF N(1) i(1) _ False [symmetric]] i(2) sub_WriteAt_other [OF b] by simp
  qed
  ultimately show ?case
    using Cons.IH [of ?f "insert i Done" "Suc k"] Cons.prems(2,3) i(1) by (auto simp: pw w simp del: of_nat_mult)
qed simp

text \<open>Any of the pieces that were handed to the storage, in any order.\<close>

lemma stored_file:
  assumes "rarest_first srt" and "0 < N" and "int L + int N \<le> 2 ^ 63" and "N \<le> 2 ^ 48" and "20 * ceil_div L N \<le> length pcs"
    and "manager_reach srt sha1 pcs L N tm" and "set pws \<subseteq> set (storageCh tm)"
  shows "length (storageLoop (\<lambda>_. True) (tm_PieceLength tm) 0 pws (Truncate L old)) = L \<and> (\<forall>i d. (i, d) \<in> set pws \<longrightarrow>
    string_of (sha1 (sub (storageLoop (\<lambda>_. True) (tm_PieceLength tm) 0 pws (Truncate L old)) (nat i * N) (nat i * N + piece_len L N (nat i)))) =
      sub pcs (nat i * 20) (Suc (nat i) * 20))"
proof -
  let ?P = "\<lambda>i d. string_of (sha1 d) = listed_hash tm i"
  have i: "manager_inv sha1 L N tm" by (rule manager_reach_inv [OF assms(1-6)])
  have "\<forall>(i, d)\<in>set pws. 0 \<le> i \<and> nat i < ceil_div L N \<and> length d = piece_len L N (nat i) \<and> ?P (nat i) d"
    using i manager_invD(1,2) [OF i] assms(7) by (fastforce simp: manager_inv_def stored_ok_def)
  moreover have "length (Truncate L old) = L" by (simp add: Truncate_def)
  moreover define fl where "fl = storageLoop (\<lambda>_. True) (tm_PieceLength tm) 0 pws (Truncate L old)"
  ultimately have "length fl = L \<and> (\<forall>j\<in>{} \<union> (nat \<circ> fst) ` set pws. ?P j (sub fl (j * N) (j * N + piece_len L N j)))"
    unfolding fl_def manager_invD(2) [OF i] by (intro storageLoop_pieces [OF assms(2,3)]) simp_all
  then show ?thesis unfolding fl_def [symmetric] listed_hash_def manager_reach_pieces [OF assms(6)] by force
qed

text \<open>
  C5. The storage loop writes what was verified: when every write succeeds, the file has the
  length of the torrent and, for every piece that was handed to the storage, the bytes at
  the place of the piece have the SHA-1 that the torrent lists for it.
\<close>
theorem file_verified:
  assumes "rarest_first srt" and "0 < N" and "int L + int N \<le> 2 ^ 63" and "N \<le> 2 ^ 48" and "20 * ceil_div L N \<le> length pcs"
    and "manager_reach srt sha1 pcs L N tm"
    and "file = storageLoop (\<lambda>_. True) (tm_PieceLength tm) 0 (storageCh tm) (Truncate L old)"
  shows "length file = L \<and> (\<forall>i d. (i, d) \<in> set (storageCh tm) \<longrightarrow>
    string_of (sha1 (sub file (nat i * N) (nat i * N + piece_len L N (nat i)))) = sub pcs (nat i * 20) (Suc (nat i) * 20))"
  using stored_file [OF assms(1-6), of "storageCh tm" old] unfolding assms(7) by blast

theorem file_verified_witness:
  "\<exists>(tm :: TorrentManager) file. storageCh tm = [(1, [3])] \<and> file = storageLoop (\<lambda>_. True) (tm_PieceLength tm) 0 (storageCh tm) (Truncate 3 [9]) \<and>
     length file = 3 \<and> string_of (toy_sha1 (sub file 2 (2 + piece_len 3 2 1))) = sub demo_pieces 20 40"
proof -
  obtain tm where t: "manager_reach (isort_by rarer) toy_sha1 demo_pieces 3 2 tm" "storageCh tm = [(1, [3])]"
    using demo_stored by blast
  let ?f = "storageLoop (\<lambda>_. True) (tm_PieceLength tm) 0 (storageCh tm) (Truncate 3 [9])"
  have "length ?f = 3 \<and> string_of (toy_sha1 (sub ?f 2 (2 + piece_len 3 2 1))) = sub demo_pieces 20 40"
    using file_verified [OF isort_rarest.rarest_first_axioms _ _ demo_dims(2,1) t(1) refl, of "[9]"] t(2) by simp
  then show ?thesis using t(2) by blast
qed

section \<open>A piece that fails its check\<close>

text \<open>
  C9. A piece whose last block arrives but which does not pass verification is lost for good,
  although the log says that its blocks are queued again: it stays completed, so that no
  block of it is requested again, and in no later state of the system is it stored.
  The torrent is still reported as complete once the other pieces are there.
\<close>
theorem failed_piece_is_lost:
  assumes "rarest_first srt" and "0 < N" and "int L + int N \<le> 2 ^ 63" and "N \<le> 2 ^ 48" and "20 * ceil_div L N \<le> length pcs"
    and "manager_reach srt sha1 pcs L N tm" and "int i \<notin> fst ` set (storageCh tm)"
    and "pm_ID msg = MsgPiece" and "8 \<le> length (pm_Payload msg)" and "int_of_u32 (Uint32 (sub (pm_Payload msg) 0 4)) = int i"
    and "MarkCompleted (int i) (int_of_u32 (Uint32 (sub (pm_Payload msg) 4 8))) (pm_Address msg) (tm_Picker tm) = ((x, True, td), p)"
    and "handleMessage sha1 msg tm = (Ret tm1 :: (unit, TorrentManager) outcome)" and "storageCh tm1 = storageCh tm"
    and "(manager_next srt sha1)\<^sup>*\<^sup>* tm1 tm2"
  shows "tm_Picker tm1 = p \<and> (td \<longrightarrow> doneCh tm1) \<and> pc_completed (pieces (tm_Picker tm2) ! i) \<and> int i \<notin> fst ` set (storageCh tm2)"
proof -
  have i: "manager_inv sha1 L N tm" by (rule manager_reach_inv [OF assms(1-6)])
  note r = MarkCompleted_result [OF manager_invD(6) [OF i] assms(11)]
  have h: "handle_piece sha1 msg tm = (Ret tm1 :: (unit, TorrentManager) outcome)"
    using assms(8,12) by (simp add: handleMessage_def msg_ids MsgClosed_def MsgTimeout_def)
  then have t: "manager_inv sha1 L N tm1" "tm_Picker tm1 = p"
    using handle_piece_inv [where ?'e = unit, OF i, of msg] assms(9-11) by auto
  have "td \<longrightarrow> doneCh tm1"
    using h assms(9-11) by (auto simp: handle_piece_def Let_def store_block_def split: if_splits dest: arg_cong [where f = doneCh])
  moreover have "i < ceil_div L N" "pc_completed (pieces (tm_Picker tm1) ! i)" using r(1) manager_invD(7) [OF i] t(2) by auto
  ultimately show ?thesis using lost_piece [OF assms(1) t(1) _ _ _ assms(14)] assms(7,13) t(2) by simp
qed

text \<open>The whole of a torrent in one message each, the second one corrupt.\<close>

theorem failed_piece_is_lost_witness:
  "\<exists>tm1. handleMessage toy_sha1 (piece_msg 1 0 [4] 7) demo_manager = (Ret tm1 :: (unit, TorrentManager) outcome) \<and>
     pc_completed (pieces (tm_Picker tm1) ! 1) \<and> int 1 \<notin> fst ` set (storageCh tm1)"
proof -
  let ?m = "piece_msg 1 0 [4] 7"
  let ?h = "handleMessage toy_sha1 ?m demo_manager :: (unit, TorrentManager) outcome"
  have "case ?h of Ret tm1 \<Rightarrow> storageCh tm1 = [] | _ \<Rightarrow> False" by code_simp
  then obtain tm1 where t: "?h = Ret tm1" "storageCh tm1 = []" by (auto split: outcome.splits)
  obtain x pd td p where m: "MarkCompleted (int 1) 0 ''a'' (tm_Picker demo_manager) = ((x, pd, td), p)" by (metis prod.collapse)
  have "fst (snd (fst (MarkCompleted 1 0 ''a'' (tm_Picker demo_manager))))" by code_simp
  with m have pd: "pd" by simp
  have u: "int_of_u32 (Uint32 (sub (pm_Payload ?m) 0 4)) = int 1" "int_of_u32 (Uint32 (sub (pm_Payload ?m) 4 8)) = 0"
    "pm_Address ?m = ''a''" "pm_ID ?m = MsgPiece" "8 \<le> length (pm_Payload ?m)" "storageCh demo_manager = []"
    by (simp_all add: piece_msg_def demo_manager_def sub_def int_of_u32_def)
  show ?thesis
    using failed_piece_is_lost [where i = 1 and ?sha1.0 = toy_sha1 and msg = ?m and x = x and td = td and p = p and ?tm1.0 = tm1 and ?tm2.0 = tm1,
      OF isort_rarest.rarest_first_axioms _ _ demo_dims(2,1) demo_reach] m pd t u by auto
qed

section \<open>Requests in flight\<close>

text \<open>The keys of the blocks of a piece the peer has that have a state.\<close>

definition keys_in :: "BlockState \<Rightarrow> PiecePicker \<Rightarrow> bool list \<Rightarrow> string set" where
  "keys_in st p bitmap = {req_key (blk_index (block_at cb p)) (blk_begin (block_at cb p)) | cb.
     wanted p bitmap (fst cb) \<and> slot_ok p cb \<and> blk_state (block_at cb p) = st}"

definition out_keys :: "Client \<Rightarrow> string set" where
  "out_keys c = fst ` set (OutstandingRequests c)"

text \<open>What the goroutines of a client can do to its requests: drop some of them.\<close>

definition only_drops :: "(nat \<Rightarrow> Client \<Rightarrow> Client) \<Rightarrow> bool" where
  "only_drops env \<longleftrightarrow> (\<forall>k c. out_keys (env k c) \<subseteq> out_keys c \<and> cl_Address (env k c) = cl_Address c \<and>
     (map_ok (OutstandingRequests c) \<longrightarrow> map_ok (OutstandingRequests (env k c))))"

lemma out_keys_QueueRequest: "out_keys (QueueRequest now i b l c) = insert (req_key i b) (out_keys c)"
  by (simp add: out_keys_def queue_defs fst_map_put)

lemma count_out_keys: "map_ok (OutstandingRequests c) \<Longrightarrow> GetOutstandingCount c = card (out_keys c)"
  by (metis GetOutstandingCount_def card_image distinct_card distinct_map length_map list.set_map map_ok_def out_keys_def)

text \<open>
  The state in which the loop is caught: the end game is on, the peer has a pending block,
  nothing else is in reach of it, and all keys in play are fewer than five.
\<close>

definition caught :: "string set \<Rightarrow> string \<Rightarrow> Client \<Rightarrow> PiecePicker \<Rightarrow> bool" where
  "caught K a c p \<longleftrightarrow> cl_Address c = a \<and> map_ok (OutstandingRequests c) \<and> out_keys c \<subseteq> K \<and>
     (\<exists>bitmap. map_get (peerPieces p) a = Some bitmap \<and> keys_in BlockPending p bitmap \<noteq> {} \<and> keys_in BlockPending p bitmap \<subseteq> K \<and>
       (endGame p \<or> keys_in BlockUnrequested p bitmap = {} \<and> completed p < totalBlocks p))"

context rarest_first
begin

lemma touch_keys:
  assumes "slot_ok p cb"
  shows "keys_in st (touch now cb p) bitmap = keys_in st p bitmap"
proof -
  have w: "wanted (touch now cb p) bitmap c = wanted p bitmap c" for c
    using assms by (auto simp: wanted_def touch_def pieces_update_nth)
  have s: "slot_ok (touch now cb p) cb' = slot_ok p cb'" for cb' by (simp add: touch_def)
  have "slot_ok p cb' \<Longrightarrow> blk_index (block_at cb' (touch now cb p)) = blk_index (block_at cb' p) \<and>
      blk_begin (block_at cb' (touch now cb p)) = blk_begin (block_at cb' p) \<and> blk_state (block_at cb' (touch now cb p)) = blk_state (block_at cb' p)" for cb'
    using assms by (simp add: block_at_handed_out(2))
  then show ?thesis unfolding keys_in_def w s by force
qed

lemma enter_keys: "keys_in st (enter_endGame p bm) bitmap = keys_in st p bitmap"
  by (simp add: keys_in_def wanted_def)

lemma caught_step:
  assumes "caught K a c p" and "only_drops env"
  shows "\<exists>b q. NextBlock srt (clock k) (cl_Address (env k c)) p = (Some b, q) \<and>
    caught K a (QueueRequest (clock k) (blk_index b) (blk_begin b) (blk_length b) (env k c)) q"
proof -
  obtain bitmap where bm: "map_get (peerPieces p) a = Some bitmap" "keys_in BlockPending p bitmap \<noteq> {}" "keys_in BlockPending p bitmap \<subseteq> K"
    and e: "endGame p \<or> keys_in BlockUnrequested p bitmap = {} \<and> completed p < totalBlocks p"
    using assms(1) by (auto simp: caught_def)
  have ad: "cl_Address (env k c) = a" "out_keys (env k c) \<subseteq> K" "map_ok (OutstandingRequests (env k c))"
    using assms by (auto simp: caught_def only_drops_def)
  have eg: "endGame (enter_endGame p bitmap)"
    using e by (auto simp: enter_endGame_def unrequested_left_def keys_in_def)
  obtain cb0 where cb0: "wanted p bitmap (fst cb0)" "slot_ok p cb0" "blk_state (block_at cb0 p) = BlockPending"
    using bm(2) by (auto simp: keys_in_def)
  then obtain cb where f: "find (has_state BlockPending p) (slots p (srt (candidates bitmap p))) = Some cb"
    using find_slot_None [of BlockPending p bitmap] by (metis not_None_eq)
  note cb = find_slot_rarest(1-3) [OF f]
  let ?q = "touch (clock k) cb (enter_endGame p bitmap)"
  have n: "NextBlock srt (clock k) (cl_Address (env k c)) p = (Some (block_at cb ?q), ?q)"
    using cb0(1) eg by (auto simp: NextBlock_known [OF bm(1)] ad(1) f Let_def)
  have q: "keys_in st ?q bitmap = keys_in st p bitmap" for st
    using touch_keys [of "enter_endGame p bitmap" cb] cb(2) enter_keys by simp
  have "block_at cb ?q = (block_at cb p)\<lparr>blk_sent := clock k\<rparr>"
    using block_at_handed_out(2) [of "enter_endGame p bitmap" cb cb] cb(2) by simp
  then have "req_key (blk_index (block_at cb ?q)) (blk_begin (block_at cb ?q)) \<in> keys_in BlockPending p bitmap"
    using cb by (simp add: keys_in_def) (rule exI [of _ "fst cb"], rule exI [of _ "snd cb"], use cb in simp)
  then have "caught K a (QueueRequest (clock k) (blk_index (block_at cb ?q)) (blk_begin (block_at cb ?q)) (blk_length (block_at cb ?q)) (env k c)) ?q"
    using bm eg q ad out_keys_QueueRequest unfolding caught_def
    by (auto simp: touch_def queue_defs)
  with n show ?thesis by blast
qed

end

lemma caught_loop:
  assumes "pipeline_loop srt clock env k c p = Some r"
  shows "\<not> (rarest_first srt \<and> only_drops env \<and> finite K \<and> card K < 5 \<and> caught K a c p)"
proof (rule pipeline_loop.raw_induct [OF _ assms, where P = "\<lambda>srt clock env k c p r.
      \<not> (rarest_first srt \<and> only_drops env \<and> finite K \<and> card K < 5 \<and> caught K a c p)"], rule notI)
  fix rec srt clock env k c p r
  assume IH: "\<And>srt clock env k c p r. rec srt clock env k c p = Some r \<Longrightarrow>
      \<not> (rarest_first srt \<and> only_drops env \<and> finite K \<and> card K < 5 \<and> caught K a c p)"
    and body: "(let c = env k c in if GetOutstandingCount c < 5
        then case NextBlock srt (clock k) (cl_Address c) p of (None, p) \<Rightarrow> Some (c, p, Suc k)
          | (Some block, p) \<Rightarrow> rec srt clock env (Suc k) (QueueRequest (clock k) (blk_index block) (blk_begin block) (blk_length block) c) p
        else Some (c, p, Suc k)) = Some r"
    and h: "rarest_first srt \<and> only_drops env \<and> finite K \<and> card K < 5 \<and> caught K a c p"
  obtain b q where n: "NextBlock srt (clock k) (cl_Address (env k c)) p = (Some b, q)"
    and c: "caught K a (QueueRequest (clock k) (blk_index b) (blk_begin b) (blk_length b) (env k c)) q"
    using rarest_first.caught_step [of srt K a c p env clock k] h by blast
  have "out_keys (env k c) \<subseteq> K" "map_ok (OutstandingRequests (env k c))"
    using h by (auto simp: caught_def only_drops_def)
  then have "GetOutstandingCount (env k c) < 5" using h card_mono [of K "out_keys (env k c)"] by (simp add: count_out_keys)
  then have "rec srt clock env (Suc k) (QueueRequest (clock k) (blk_index b) (blk_begin b) (blk_length b) (env k c)) q = Some r"
    using body n by simp
  from IH [OF this] show False using h c by blast
qed

lemma finite_keys_in: "finite (keys_in st p bitmap)"
proof -
  have "finite (Sigma {..<length (pieces p)} (\<lambda>c. {..<length (pc_blocks (pieces p ! c))}))" by simp
  moreover have "keys_in st p bitmap \<subseteq> (\<lambda>cb. req_key (blk_index (block_at cb p)) (blk_begin (block_at cb p))) `
      Sigma {..<length (pieces p)} (\<lambda>c. {..<length (pc_blocks (pieces p ! c))})"
    by (auto simp: keys_in_def slot_ok_def)
  ultimately show ?thesis using finite_surj by blast
qed

text \<open>
  C8. The manager can hang: when an unchoked peer has no unrequested block left to give, has a
  pending one, and the blocks pending or requested from it are fewer than five in all,
  \<open>pipelineRequests\<close> never returns. The end game hands out the same pending blocks again and
  again, their keys replace each other, and the number of requests in flight never reaches
  five, whatever the reader and the ticker of the client take away meanwhile.
\<close>
theorem pipeline_hangs:
  assumes "rarest_first srt" and "only_drops env"
    and "map_get (activePeers tm) a = Some c" and "cl_Address c = a" and "\<not> Choked c" and "map_ok (OutstandingRequests c)"
    and "map_get (peerPieces (tm_Picker tm)) a = Some bitmap"
    and "keys_in BlockUnrequested (tm_Picker tm) bitmap = {}" and "completed (tm_Picker tm) < totalBlocks (tm_Picker tm)"
    and "keys_in BlockPending (tm_Picker tm) bitmap \<noteq> {}"
    and "card (keys_in BlockPending (tm_Picker tm) bitmap \<union> out_keys c) < 5"
  shows "pipelineRequests srt clock env k (a # order) tm = None"
proof -
  let ?K = "keys_in BlockPending (tm_Picker tm) bitmap \<union> out_keys c"
  have f: "finite ?K" using finite_keys_in by (simp add: out_keys_def)
  have "caught ?K a c (tm_Picker tm)" using assms(4,6-10) by (auto simp: caught_def)
  then have "pipeline_loop srt clock env k c (tm_Picker tm) \<noteq> Some r" for r
    using caught_loop [of srt clock env k c "tm_Picker tm" r ?K a] assms(1,2,11) f by blast
  then have "pipeline_loop srt clock env k c (tm_Picker tm) = None" by (meson not_Some_eq)
  then show ?thesis using assms(3,5) by simp
qed

text \<open>A peer that has one block, which is already requested.\<close>

definition demo_asked :: TorrentManager where
  "demo_asked = demo_manager\<lparr>tm_Picker := (update_block (0, 0) (\<lambda>b. b\<lparr>blk_state := BlockPending, blk_peer := ''b''\<rparr>) demo_shared)\<lparr>pendingCount := 1\<rparr>,
     activePeers := [(''a'', (demo_client [])\<lparr>cl_Address := ''a'', Choked := False\<rparr>)]\<rparr>"

lemma demo_asked_block:
  "slot_ok (tm_Picker demo_asked) cb \<and> wanted (tm_Picker demo_asked) [True, False] (fst cb) \<longleftrightarrow> cb = (0, 0)"
  "blk_state (block_at (0, 0) (tm_Picker demo_asked)) = BlockPending"
  by (cases cb; auto simp: demo_asked_def slot_ok_def wanted_def demo_shared_def demo_picker_def update_block_def less_Suc_eq)
    (simp add: demo_asked_def block_at_def demo_shared_def demo_picker_def update_block_def)

lemma demo_asked_keys:
  "keys_in st (tm_Picker demo_asked) [True, False] =
     (if st = BlockPending
      then {req_key (blk_index (block_at (0, 0) (tm_Picker demo_asked))) (blk_begin (block_at (0, 0) (tm_Picker demo_asked)))} else {})"
proof -
  have "wanted (tm_Picker demo_asked) [True, False] (fst cb) \<and> slot_ok (tm_Picker demo_asked) cb \<and>
      blk_state (block_at cb (tm_Picker demo_asked)) = st \<longleftrightarrow> cb = (0, 0) \<and> st = BlockPending" for cb
    using demo_asked_block(1) [of cb] demo_asked_block(2) by auto
  then show ?thesis unfolding keys_in_def by simp
qed

theorem pipeline_hangs_witness:
  "pipelineRequests (isort_by rarer) (\<lambda>_. 0) (\<lambda>_ c. c) 0 [''a''] demo_asked = None"
proof -
  have o: "out_keys ((demo_client [])\<lparr>cl_Address := ''a'', Choked := False\<rparr>) = {}"
    by (simp add: out_keys_def demo_client_def new_client_def)
  show ?thesis
    by (rule pipeline_hangs [OF isort_rarest.rarest_first_axioms,
        where c = "(demo_client [])\<lparr>cl_Address := ''a'', Choked := False\<rparr>" and bitmap = "[True, False]"])
      (simp_all add: demo_asked_keys o only_drops_def, simp_all add: demo_asked_def demo_shared_def demo_picker_def demo_client_def new_client_def update_block_def)
qed

section \<open>Requests are kept in flight\<close>

lemma keys_in_inj:
  assumes "picker_inv p" and "slot_ok p cb" and "slot_ok p cb'"
    and "blk_index (block_at cb p) = blk_index (block_at cb' p)" and "blk_begin (block_at cb p) = blk_begin (block_at cb' p)"
  shows "cb = cb'"
proof -
  have b: "blocks_inv p" using assms(1) by (simp add: picker_ok_def)
  then have "fst cb = fst cb'" using slot_index [OF b assms(2)] slot_index [OF b assms(3)] assms(4) by simp
  moreover have "distinct (map blk_begin (pc_blocks (pieces p ! fst cb)))"
    using b assms(2) by (auto simp: blocks_inv_def piece_ok_def slot_ok_def)
  ultimately show ?thesis
    using assms(2,3,5) by (auto simp: slot_ok_def block_at_def prod_eq_iff distinct_conv_nth)
qed

context rarest_first
begin

lemma request_keys:
  assumes "picker_inv p" and "wanted p bitmap (fst cb)" and "slot_ok p cb" and "blk_state (block_at cb p) = BlockUnrequested"
  shows "keys_in BlockUnrequested (request now a cb p) bitmap =
    keys_in BlockUnrequested p bitmap - {req_key (blk_index (block_at cb p)) (blk_begin (block_at cb p))}"
proof -
  let ?q = "request now a cb p"
  have w: "wanted ?q bitmap c = wanted p bitmap c" for c
    using assms(3) by (auto simp: wanted_def request_def pieces_update_nth)
  have "slot_ok (x\<lparr>pendingCount := n\<rparr>) cb' = slot_ok x cb'" for x n cb' by (simp add: slot_ok_def)
  then have s: "slot_ok ?q cb' = slot_ok p cb'" for cb' by (simp add: request_def)
  have "wanted ?q bitmap (fst cb') \<and> slot_ok ?q cb' \<and> blk_state (block_at cb' ?q) = BlockUnrequested \<longleftrightarrow>
      wanted p bitmap (fst cb') \<and> slot_ok p cb' \<and> blk_state (block_at cb' p) = BlockUnrequested \<and> cb' \<noteq> cb" for cb'
    unfolding w s using block_at_handed_out(1) [OF assms(3), of cb' now a] by (cases "cb' = cb") auto
  moreover have "slot_ok p cb' \<Longrightarrow> cb' \<noteq> cb \<Longrightarrow> block_at cb' ?q = block_at cb' p" for cb'
    using block_at_handed_out(1) [OF assms(3), of cb' now a] by simp
  moreover have "slot_ok p cb' \<Longrightarrow> blk_index (block_at cb' p) = blk_index (block_at cb p) \<Longrightarrow>
      blk_begin (block_at cb' p) = blk_begin (block_at cb p) \<Longrightarrow> cb' = cb" for cb'
    using keys_in_inj [OF assms(1) _ assms(3), of cb'] by simp
  ultimately show ?thesis unfolding keys_in_def by (safe; simp; metis)
qed

text \<open>\<open>H\<close> holds the keys of the blocks handed out so far.\<close>

lemma pipeline_fills:
  assumes "picker_inv p" and "\<not> endGame p" and "map_get (peerPieces p) (cl_Address c) = Some bitmap"
    and "map_ok (OutstandingRequests c)" and "finite H" and "H \<subseteq> out_keys c" and "H \<inter> keys_in BlockUnrequested p bitmap = {}"
    and "5 \<le> card H + card (keys_in BlockUnrequested p bitmap)"
  shows "\<exists>c' p' k'. pipeline_loop srt clock (\<lambda>_ c. c) k c p = Some (c', p', k') \<and> 5 \<le> GetOutstandingCount c' \<and> \<not> endGame p'"
  using assms
proof (induction "5 - card H" arbitrary: H c p k rule: less_induct)
  case less
  show ?case
  proof (cases "GetOutstandingCount c < 5")
    case False
    then show ?thesis using less.prems(2) by (subst pipeline_loop.simps) simp
  next
    case True
    have "card H \<le> card (out_keys c)" using less.prems(6) by (intro card_mono) (simp_all add: out_keys_def)
    then have H: "card H < 5" using True count_out_keys [OF less.prems(4)] by simp
    then have "keys_in BlockUnrequested p bitmap \<noteq> {}" using less.prems(8) by (auto simp del: not_le)
    then obtain cb0 where cb0: "wanted p bitmap (fst cb0)" "slot_ok p cb0" "blk_state (block_at cb0 p) = BlockUnrequested"
      by (auto simp: keys_in_def)
    then obtain cb where f: "find (has_state BlockUnrequested p) (slots p (srt (candidates bitmap p))) = Some cb"
      using find_slot_None [of BlockUnrequested p bitmap] by (metis not_None_eq)
    note cb = find_slot_rarest(1-3) [OF f]
    have "unrequested_left p bitmap" unfolding unrequested_left_def using cb0 by blast
    then have e: "enter_endGame p bitmap = p" by (simp add: enter_endGame_def)
    let ?q = "request (clock k) (cl_Address c) cb p"
    have n: "NextBlock srt (clock k) (cl_Address c) p = (Some (block_at cb ?q), ?q)"
      using cb0(1) less.prems(2) by (auto simp: NextBlock_known [OF less.prems(3)] e f Let_def)
    let ?c = "QueueRequest (clock k) (blk_index (block_at cb ?q)) (blk_begin (block_at cb ?q)) (blk_length (block_at cb ?q)) c"
    have bq: "blk_index (block_at cb ?q) = blk_index (block_at cb p)" "blk_begin (block_at cb ?q) = blk_begin (block_at cb p)"
      using block_at_handed_out(1) [OF cb(2) cb(2)] by simp_all
    let ?key = "req_key (blk_index (block_at cb p)) (blk_begin (block_at cb p))"
    have key: "?key \<in> keys_in BlockUnrequested p bitmap"
      by (simp add: keys_in_def) (rule exI [of _ "fst cb"], rule exI [of _ "snd cb"], use cb in simp)
    then have kH: "?key \<notin> H" using less.prems(7) by blast
    note u = request_keys [OF less.prems(1) cb]
    have "picker_inv ?q" by (rule request_inv [OF less.prems(1) cb(2,3)])
    moreover have "\<not> endGame ?q" "peerPieces ?q = peerPieces p" using less.prems(2) by (simp_all add: request_def)
    moreover have "insert ?key H \<subseteq> out_keys ?c" using less.prems(6) by (auto simp: out_keys_QueueRequest bq)
    moreover have "map_ok (OutstandingRequests ?c)" "cl_Address ?c = cl_Address c" using less.prems(4) by (simp_all add: queue_defs)
    moreover have "5 \<le> card (insert ?key H) + card (keys_in BlockUnrequested ?q bitmap)"
      using less.prems(5,8) kH key finite_keys_in [of BlockUnrequested p bitmap] by (simp add: u card_Diff_singleton)
    moreover have "5 - card (insert ?key H) < 5 - card H" using H kH less.prems(5) by simp
    ultimately obtain c' p' k' where "pipeline_loop srt clock (\<lambda>_ c. c) (Suc k) ?c ?q = Some (c', p', k')" "5 \<le> GetOutstandingCount c'" "\<not> endGame p'"
      using less.hyps [of "insert ?key H" ?q ?c "Suc k"] less.prems(3,5,7) u by auto
    then show ?thesis using True n by (subst pipeline_loop.simps) simp
  qed
qed

end







end
