(* ===== verification/Extension.thy ===== *)
theory Extension
  imports Peer_Client Krpc
begin

text \<open>
  The extension protocol of a client, \<^verbatim>\<open>src/peer/extension.go\<close>, and the two methods of
  \<^verbatim>\<open>src/peer/client.go\<close> that use it: the extension handshake (BEP 10), and the metadata of a
  torrent in pieces of 16 KiB (BEP 9). Deadlines are part of the connection.
\<close>

section \<open>The model\<close>

text \<open>The answer of the peer to our extension handshake.\<close>

definition peer_ext_id :: "byte list \<Rightarrow> (client_error, int) outcome" where
  "peer_ext_id payload =
     (case DecodeDict (string_of (drop 1 payload)) 0 of
        Err e \<Rightarrow> Err (Decoding_extension e)
      | Panic p \<Rightarrow> Panic p
      | Ret ((extDict, rawValues), pos) \<Rightarrow>
          (case as_dict (map_get extDict ''m'') of
             None \<Rightarrow> Err Missing_m
           | Some mDict \<Rightarrow>
               (case as_int (map_get mDict ''ut_metadata'') of
                  None \<Rightarrow> Err Missing_ut_metadata
                | Some peerExtId \<Rightarrow> Ret peerExtId)))"

function extension_loop :: "int cio" where
  "extension_loop c =
     (case Client_ReadMessage Reading_extension c of
        (Err e, c) \<Rightarrow> (Err e, c)
      | (Panic p, c) \<Rightarrow> (Panic p, c)
      | (Ret (mid, None), c) \<Rightarrow> extension_loop c
      | (Ret (mid, Some payload), c) \<Rightarrow>
          if is_extension_handshake mid payload then (peer_ext_id payload, c) else extension_loop c)"
  by pat_completeness auto
termination
  by (relation "measure unread") (auto dest!: Client_ReadMessage_progress [OF sym])

declare extension_loop.simps [simp del]

definition DoExtensionHandshake :: "int cio" where
  "DoExtensionHandshake c =
     io_bind (if \<not> ExtensionHandshakeSent c then send_extension_handshake else io_ret ()) (\<lambda>_. extension_loop) c"

definition SetupExtensions :: "unit cio" where
  "SetupExtensions c =
     (if PeerMetadataExtId c \<noteq> 0 then (Ret (), c)
      else io_bind DoExtensionHandshake (\<lambda>peerExtId c. (Ret (), c\<lparr>PeerMetadataExtId := peerExtId\<rparr>)) c)"

text \<open>
  One piece of the metadata. Every extension message is taken for the answer, whatever its id,
  and \<open>payload[1:]\<close> panics on an empty one.
\<close>

definition metadata_request :: "int \<Rightarrow> int \<Rightarrow> byte list" where
  "metadata_request peerExtId piece =
     word_of_int peerExtId # bytes_of (''d8:msg_typei0e5:piecei'' @ Itoa piece @ ''ee'')"

definition metadata_response :: "int \<Rightarrow> byte list \<Rightarrow> (client_error, byte list \<times> int) outcome" where
  "metadata_response piece payload =
     go_bind (go_slice payload 1 (int (length payload))) (\<lambda>body.
       case DecodeDict (string_of body) 0 of
         Err e \<Rightarrow> Err (Decoding_metadata e)
       | Panic p \<Rightarrow> Panic p
       | Ret ((respDict, rawValues), pos) \<Rightarrow>
           (case as_int (map_get respDict ''msg_type'') of
              None \<Rightarrow> Err Missing_msg_type
            | Some msgType \<Rightarrow>
                if msgType = 2 then Err (Metadata_rejected piece)
                else
                  (let totalSize = (case as_int (map_get respDict ''total_size'') of None \<Rightarrow> 0 | Some n \<Rightarrow> n) in
                   go_bind (go_slice payload (1 + int pos) (int (length payload))) (\<lambda>rawMetadata.
                     Ret (rawMetadata, totalSize)))))"

function metadata_loop :: "int \<Rightarrow> (byte list \<times> int) cio" where
  "metadata_loop piece c =
     (case Client_ReadMessage Reading_metadata c of
        (Err e, c) \<Rightarrow> (Err e, c)
      | (Panic p, c) \<Rightarrow> (Panic p, c)
      | (Ret (mid, None), c) \<Rightarrow> metadata_loop piece c
      | (Ret (mid, Some payload), c) \<Rightarrow>
          if mid = MsgExtension then (metadata_response piece payload, c) else metadata_loop piece c)"
  by pat_completeness auto
termination
  by (relation "measure (\<lambda>(_, c). unread c)") (auto dest!: Client_ReadMessage_progress [OF sym])

declare metadata_loop.simps [simp del]

definition requestMetadataPiece :: "int \<Rightarrow> int \<Rightarrow> (byte list \<times> int) cio" where
  "requestMetadataPiece peerExtId piece =
     io_bind (on_conn Sending_metadata_request (WriteMessage MsgExtension (metadata_request peerExtId piece))) (\<lambda>_.
       metadata_loop piece)"

text \<open>The loop over the pieces after the first.\<close>

definition place_metadata :: "int \<Rightarrow> nat \<Rightarrow> byte list \<Rightarrow> byte list \<Rightarrow> ('e, byte list) outcome" where
  "place_metadata totalSize p pieceData metadata =
     (let offset = wrap64 (int p * 16384) in
      if wrap64 (offset + int (length pieceData)) > totalSize
      then go_bind (go_slice pieceData 0 (wrap64 (totalSize - offset))) (go_copy_at metadata offset)
      else go_copy_at metadata offset pieceData)"

fun metadata_pieces :: "int \<Rightarrow> int \<Rightarrow> nat list \<Rightarrow> byte list \<Rightarrow> byte list cio" where
  "metadata_pieces peerExtId totalSize [] metadata = io_ret metadata"
| "metadata_pieces peerExtId totalSize (p # ps) metadata =
     io_bind (io_err (Requesting_metadata (int p)) (requestMetadataPiece peerExtId (int p))) (\<lambda>(pieceData, _).
     io_bind (io_lift (place_metadata totalSize p pieceData metadata)) (\<lambda>metadata.
       metadata_pieces peerExtId totalSize ps metadata))"

definition RequestMetadata :: "int \<Rightarrow> byte list cio" where
  "RequestMetadata peerExtId =
     io_bind (io_err (Requesting_metadata 0) (requestMetadataPiece peerExtId 0)) (\<lambda>(firstPiece, totalSize).
       if totalSize \<le> 0 then io_lift (Err (Invalid_total_size totalSize))
       else if int (length firstPiece) \<ge> totalSize then io_lift (go_slice firstPiece 0 totalSize)
       else
         io_bind (io_lift (go_make totalSize)) (\<lambda>metadata.
         io_bind (io_lift (go_div (wrap64 (wrap64 (totalSize + 16384) - 1)) 16384)) (\<lambda>numPieces.
           metadata_pieces peerExtId totalSize [1..<nat numPieces] (go_copy metadata 0 firstPiece))))"

definition FetchMetadata :: "byte list cio" where
  "FetchMetadata c = RequestMetadata (PeerMetadataExtId c) c"

section \<open>Extension messages in a stream\<close>

text \<open>The payloads of the extension messages of a stream.\<close>

definition ext_payloads :: "(byte \<times> byte list) option list \<Rightarrow> byte list list" where
  "ext_payloads ms = List.map_filter (\<lambda>m. case m of Some (mid, p) \<Rightarrow> if mid = MsgExtension then Some p else None | None \<Rightarrow> None) ms"

lemma ext_payloads_simps [simp]:
  "ext_payloads [] = []" "ext_payloads (None # ms) = ext_payloads ms"
  "ext_payloads (Some (mid, p) # ms) = (if mid = MsgExtension then p # ext_payloads ms else ext_payloads ms)"
  by (simp_all add: ext_payloads_def List.map_filter_simps)

lemma ext_payloads_ok: "list_all wire_ok ms \<Longrightarrow> p \<in> set (ext_payloads ms) \<Longrightarrow> int (length p) < 2 ^ 63"
proof (induction ms)
  case (Cons m ms)
  then show ?case by (cases m) (auto simp: wire_ok_def msg_ok_def split: if_splits)
qed simp

lemma metadata_loop_reads:
  assumes "reads ms c" and "ext_payloads ms = p # ps"
  shows "\<exists>c' ms'. metadata_loop piece c = (metadata_response piece p, c') \<and> reads ms' c' \<and> ext_payloads ms' = ps \<and>
    same_client c c' \<and> tx (cl_Conn c') = tx (cl_Conn c) \<and> tx_left (cl_Conn c') = tx_left (cl_Conn c)"
  using assms
proof (induction ms arbitrary: c)
  case (Cons m ms)
  obtain c1 where c1: "Client_ReadMessage Reading_metadata c =
      (Ret (case m of None \<Rightarrow> (0, None) | Some (mid, payload) \<Rightarrow> (mid, Some payload)), c1)" "reads ms c1"
    "same_client c c1" "tx (cl_Conn c1) = tx (cl_Conn c)" "tx_left (cl_Conn c1) = tx_left (cl_Conn c)"
    using reads_Cons [OF Cons.prems(1), of Reading_metadata] by blast
  show ?case
  proof (cases "\<exists>q. m = Some (MsgExtension, q)")
    case True
    then have "m = Some (MsgExtension, p)" "ext_payloads ms = ps" using Cons.prems(2) by auto
    then show ?thesis using c1 by (subst metadata_loop.simps) auto
  next
    case False
    then have "ext_payloads ms = p # ps" using Cons.prems(2) by (cases m) (auto split: if_splits)
    moreover have "metadata_loop piece c = metadata_loop piece c1"
      using False c1(1) by (subst metadata_loop.simps) (auto split: option.splits)
    ultimately show ?thesis using Cons.IH [OF c1(2)] c1(3-5) same_client_trans by metis
  qed
qed simp

section \<open>A peer that serves the metadata\<close>

text \<open>What a peer sends for piece \<open>p\<close> of the metadata, as BEP 9 has it.\<close>

definition metadata_header :: "nat \<Rightarrow> nat \<Rightarrow> string" where
  "metadata_header len p =
     encodeBencode (BDict [(''msg_type'', BInt 1), (''piece'', BInt (int p)), (''total_size'', BInt (int len))])"

definition metadata_msg :: "byte \<Rightarrow> byte list \<Rightarrow> nat \<Rightarrow> byte list" where
  "metadata_msg i md p =
     i # bytes_of (metadata_header (length md) p) @ sub md (p * 16384) (p * 16384 + 16384)"

lemma metadata_header_benc:
  assumes "int p < 2 ^ 63" and "int len < 2 ^ 63"
  shows "benc (BDict [(''msg_type'', BInt 1), (''piece'', BInt (int p)), (''total_size'', BInt (int len))]) (metadata_header len p)"
proof -
  let ?v = "BDict [(''msg_type'', BInt 1), (''piece'', BInt (int p)), (''total_size'', BInt (int len))]"
  have "canon ?v = ?v" by (simp add: less_char_def less_eq_char_def)
  moreover have "bval_ok ?v" using assms by (simp add: map_ok_def in_int64_def)
  ultimately show ?thesis using benc_encode [of ?v] unfolding metadata_header_def by simp
qed

lemma metadata_response_msg:
  assumes "int (length (metadata_msg i md p)) < 2 ^ 63" and "int p < 2 ^ 63" and "int (length md) < 2 ^ 63"
  shows "metadata_response piece (metadata_msg i md p) = Ret (sub md (p * 16384) (p * 16384 + 16384), int (length md))"
proof -
  let ?h = "metadata_header (length md) p" and ?d = "sub md (p * 16384) (p * 16384 + 16384)"
  have g: "go_string (?h @ string_of ?d)" using assms(1) by (simp add: go_string_def metadata_msg_def del: length_sub)
  obtain raws where d: "DecodeDict (?h @ string_of ?d) 0 =
      Ret (([(''msg_type'', BInt 1), (''piece'', BInt (int p)), (''total_size'', BInt (int (length md)))], raws), length ?h)"
    using DecodeDict_complete [OF metadata_header_benc [OF assms(2,3)] g] by blast
  have s: "go_slice (metadata_msg i md p) 1 (int (length (metadata_msg i md p))) = (Ret (bytes_of ?h @ ?d) :: (client_error, byte list) outcome)"
    using go_slice_end [of 1 "metadata_msg i md p"] by (simp add: metadata_msg_def del: length_sub)
  have t: "go_slice (metadata_msg i md p) (1 + int (length ?h)) (int (length (metadata_msg i md p))) = (Ret ?d :: (client_error, byte list) outcome)"
    using go_slice_end [of "1 + length ?h" "metadata_msg i md p"] by (simp add: metadata_msg_def del: length_sub)
  have e: "string_of (bytes_of ?h @ ?d) = ?h @ string_of ?d" by (metis map_append string_of_bytes_of string_of_def)
  show ?thesis unfolding metadata_response_def s go_bind.simps e d by (simp add: t)
qed

lemma requestMetadataPiece_served:
  assumes "reads ms c" and "ext_payloads ms = metadata_msg i md p # ps" and "0 < tx_left (cl_Conn c)"
    and "int p < 2 ^ 63" and "int (length md) < 2 ^ 63"
  shows "\<exists>c' ms'. requestMetadataPiece x piece c = (Ret (sub md (p * 16384) (p * 16384 + 16384), int (length md)), c') \<and>
    reads ms' c' \<and> ext_payloads ms' = ps \<and> same_client c c' \<and>
    tx (cl_Conn c') = tx (cl_Conn c) @ frame MsgExtension (metadata_request x piece) \<and> tx_left (cl_Conn c') = tx_left (cl_Conn c) - 1"
proof -
  let ?k = "(cl_Conn c)\<lparr>tx := tx (cl_Conn c) @ frame MsgExtension (metadata_request x piece), tx_left := tx_left (cl_Conn c) - 1\<rparr>"
  have r: "reads ms (c\<lparr>cl_Conn := ?k\<rparr>)" using assms(1) by (simp add: reads_def)
  have l: "int (length (metadata_msg i md p)) < 2 ^ 63"
    using ext_payloads_ok [of ms "metadata_msg i md p"] assms(1,2) by (simp add: reads_def)
  have "same_client c (c\<lparr>cl_Conn := ?k\<rparr>)" by (auto simp: same_client_def)
  then show ?thesis
    using metadata_loop_reads [OF r assms(2), of piece] metadata_response_msg [OF l assms(4,5), of piece] assms(3)
    by (auto simp: requestMetadataPiece_def io_bind_def on_conn_def WriteMessage_def Write_def dest: same_client_trans)
qed

text \<open>The part that is in place grows by one piece per message.\<close>

lemma go_copy_grows:
  assumes "length d = length md" and "take off d = take off md" and "off \<le> length md"
  shows "take (off + n) (go_copy d off (sub md off (off + n))) = take (off + n) md"
proof -
  have "go_copy d off (sub md off (off + n)) = take off md @ sub md off (off + n) @ drop (off + length (sub md off (off + n))) d"
    using assms by (simp add: go_copy_def)
  moreover have "take (off + n) md = take off md @ sub md off (off + n)"
    using assms(3) by (simp add: sub_def take_add)
  ultimately show ?thesis using assms(1) by (cases "off + n \<le> length md") auto
qed

lemma place_metadata_served:
  assumes "p * 16384 < length md" and "length d = length md" and "int (length md) \<le> 2 ^ 48"
  shows "place_metadata (int (length md)) p (sub md (p * 16384) (p * 16384 + 16384)) d =
    (Ret (go_copy d (p * 16384) (sub md (p * 16384) (p * 16384 + 16384))) :: ('e, byte list) outcome)"
proof -
  have w: "wrap64 (int p * 16384) = int (p * 16384)" using assms(1,3) by (subst wrap64_nonneg) simp_all
  have l: "p * 16384 + length (sub md (p * 16384) (p * 16384 + 16384)) \<le> length md" using assms(1) by simp
  have "wrap64 (int (p * 16384) + int (length (sub md (p * 16384) (p * 16384 + 16384)))) =
      int (p * 16384 + length (sub md (p * 16384) (p * 16384 + 16384)))"
    using l assms(3) by (subst wrap64_nonneg) simp_all
  then show ?thesis using l assms(1,2) unfolding place_metadata_def w Let_def
    by (simp add: go_copy_at_def del: of_nat_mult length_sub)
qed

lemma metadata_pieces_served:
  assumes "reads ms c" and "ext_payloads ms = map (metadata_msg i md) [p..<n]" and "n - p \<le> tx_left (cl_Conn c)"
    and "n = ceil_div (length md) 16384" and "p \<le> n" and "length d = length md" and "take (p * 16384) d = take (p * 16384) md"
    and "int (length md) \<le> 2 ^ 48"
  shows "\<exists>c'. metadata_pieces x (int (length md)) [p..<n] d c = (Ret md, c') \<and> same_client c c' \<and>
    tx (cl_Conn c') = tx (cl_Conn c) @ concat (map (\<lambda>p. frame MsgExtension (metadata_request x (int p))) [p..<n])"
  using assms
proof (induction "n - p" arbitrary: ms c p d)
  case 0
  then have "length md \<le> p * 16384" using ceil_div_upper [of 16384 "length md"] by simp
  then have "d = md" using 0 by simp
  then show ?case using 0 by (auto simp: io_ret_def same_client_def intro: exI [of _ "cl_Conn c"])
next
  case (Suc m)
  then have pn: "p < n" and u: "[p..<n] = p # [Suc p..<n]" by (simp_all add: upt_conv_Cons)
  have off: "p * 16384 < length md" using ceil_div_lower [of 16384 p "length md"] pn Suc.prems(4) by simp
  let ?s = "sub md (p * 16384) (p * 16384 + 16384)"
  have "int p < 2 ^ 63" "int (length md) < 2 ^ 63" using off Suc.prems(8) by simp_all
  then obtain c1 ms1 where c1: "requestMetadataPiece x (int p) c = (Ret (?s, int (length md)), c1)" "reads ms1 c1"
    "ext_payloads ms1 = map (metadata_msg i md) [Suc p..<n]" "same_client c c1" "tx_left (cl_Conn c1) = tx_left (cl_Conn c) - 1"
    "tx (cl_Conn c1) = tx (cl_Conn c) @ frame MsgExtension (metadata_request x (int p))"
    using requestMetadataPiece_served [OF Suc.prems(1), of i md p _ x "int p"] Suc.prems(2,3) pn u by fastforce
  have t: "take (Suc p * 16384) (go_copy d (p * 16384) ?s) = take (Suc p * 16384) md"
    using go_copy_grows [of d md "p * 16384" 16384] Suc.prems(6,7) off by (simp add: add.commute)
  have "\<exists>c'. metadata_pieces x (int (length md)) [Suc p..<n] (go_copy d (p * 16384) ?s) c1 = (Ret md, c') \<and> same_client c1 c' \<and>
      tx (cl_Conn c') = tx (cl_Conn c1) @ concat (map (\<lambda>p. frame MsgExtension (metadata_request x (int p))) [Suc p..<n])"
    by (rule Suc.hyps(1) [OF _ c1(2,3) _ Suc.prems(4) _ _ t Suc.prems(8)])
      (use Suc.hyps(2) Suc.prems pn off c1(5) in simp_all)
  then show ?case
    using c1 place_metadata_served [where ?'e = client_error, OF off Suc.prems(6,8)] same_client_trans
    by (auto simp: u io_bind_def io_err_def io_lift_def)
qed

lemma metadata_fetched:
  assumes "reads ms c" and "ext_payloads ms = map (metadata_msg i md) [0..<ceil_div (length md) 16384]"
    and "ceil_div (length md) 16384 \<le> tx_left (cl_Conn c)" and "0 < length md" and "int (length md) \<le> 2 ^ 48"
  shows "\<exists>c'. FetchMetadata c = (Ret md, c') \<and>
    tx (cl_Conn c') = tx (cl_Conn c) @
      concat (map (\<lambda>p. frame MsgExtension (metadata_request (PeerMetadataExtId c) (int p))) [0..<ceil_div (length md) 16384])"
proof -
  let ?L = "length md" and ?n = "ceil_div (length md) 16384" and ?x = "PeerMetadataExtId c"
  have n: "0 < ?n" using assms(4) by (simp add: ceil_div_pos)
  then have u: "[0..<?n] = 0 # [1..<?n]" by (simp add: upt_conv_Cons)
  obtain c1 ms1 where c1: "requestMetadataPiece ?x 0 c = (Ret (sub md 0 16384, int ?L), c1)" "reads ms1 c1"
    "ext_payloads ms1 = map (metadata_msg i md) [1..<?n]" "tx_left (cl_Conn c1) = tx_left (cl_Conn c) - 1"
    "tx (cl_Conn c1) = tx (cl_Conn c) @ frame MsgExtension (metadata_request ?x 0)"
    using requestMetadataPiece_served [OF assms(1), of i md 0 "map (metadata_msg i md) [1..<?n]" ?x 0] assms(2-5) n u by fastforce
  show ?thesis
  proof (cases "?L \<le> 16384")
    case True
    have "\<not> 1 < ?n" using True ceil_div_lower [of 16384 1 ?L] by auto
    then have "?n = 1" using n by simp
    moreover have "sub md 0 16384 = md" using True by (simp add: sub_def)
    ultimately show ?thesis
      using c1(1,5) assms(4) go_slice_nat [of 0 ?L md] by (auto simp: FetchMetadata_def RequestMetadata_def io_bind_def io_err_def io_lift_def sub_full)
  next
    case False
    let ?d = "go_copy (replicate ?L 0) 0 (sub md 0 16384)"
    have t: "go_div (wrap64 (wrap64 (int ?L + 16384) - 1)) 16384 = (Ret (int ?n) :: (client_error, int) outcome)"
      using go_ceil_div [of 16384 ?L] assms(5) by simp
    have m: "go_make (int ?L) = (Ret (replicate ?L 0) :: (client_error, byte list) outcome)" using assms(5) by (simp add: go_make_def)
    have "take (1 * 16384) ?d = take (1 * 16384) md" using go_copy_grows [of "replicate ?L 0" md 0 16384] by simp
    moreover have "?n - 1 \<le> tx_left (cl_Conn c1)" using assms(3) c1(4) by simp
    ultimately obtain c' where "metadata_pieces ?x (int ?L) [1..<?n] ?d c1 = (Ret md, c')"
      "tx (cl_Conn c') = tx (cl_Conn c1) @ concat (map (\<lambda>p. frame MsgExtension (metadata_request ?x (int p))) [1..<?n])"
      using metadata_pieces_served [OF c1(2,3) _ refl, of ?d ?x] n assms(5) by auto
    then show ?thesis using c1(1,5) False assms(4) u
      by (auto simp: FetchMetadata_def RequestMetadata_def io_bind_def io_err_def io_lift_def t m)
  qed
qed

text \<open>The extension handshake.\<close>

definition no_handshake :: "(byte \<times> byte list) option \<Rightarrow> bool" where
  "no_handshake m = (case m of None \<Rightarrow> True | Some (mid, payload) \<Rightarrow> \<not> is_extension_handshake mid payload)"

lemma extension_loop_reads:
  assumes "reads (pre @ Some (MsgExtension, p) # post) c" and "list_all no_handshake pre" and "is_extension_handshake MsgExtension p"
  shows "\<exists>c'. extension_loop c = (peer_ext_id p, c') \<and> reads post c' \<and> same_client c c' \<and>
    tx (cl_Conn c') = tx (cl_Conn c) \<and> tx_left (cl_Conn c') = tx_left (cl_Conn c)"
  using assms(1,2)
proof (induction pre arbitrary: c)
  case Nil
  then show ?case using reads_Cons [of "Some (MsgExtension, p)" post c Reading_extension] assms(3)
    by (subst extension_loop.simps) auto
next
  case (Cons m pre)
  obtain c1 where c1: "Client_ReadMessage Reading_extension c =
      (Ret (case m of None \<Rightarrow> (0, None) | Some (mid, payload) \<Rightarrow> (mid, Some payload)), c1)" "reads (pre @ Some (MsgExtension, p) # post) c1"
    "same_client c c1" "tx (cl_Conn c1) = tx (cl_Conn c)" "tx_left (cl_Conn c1) = tx_left (cl_Conn c)"
    using reads_Cons [of m "pre @ Some (MsgExtension, p) # post" c Reading_extension] Cons.prems(1) by auto
  have "extension_loop c = extension_loop c1"
    using Cons.prems(2) c1(1) by (subst extension_loop.simps) (auto simp: no_handshake_def split: option.splits prod.splits)
  moreover have "list_all no_handshake pre" using Cons.prems(2) by simp
  ultimately show ?case using Cons.IH [OF c1(2)] c1(3-5) same_client_trans by metis
qed

lemma peer_ext_id_benc:
  assumes "benc (BDict m) t" and "int (length t) < 2 ^ 63"
    and "map_get m ''m'' = Some (BDict mm)" and "map_get mm ''ut_metadata'' = Some (BInt i)"
  shows "peer_ext_id (0 # bytes_of t) = Ret i"
  using DecodeDict_complete [OF assms(1), of "[]"] assms(2-) by (auto simp: peer_ext_id_def go_string_def)

section \<open>Theorems\<close>

text \<open>
  C11. The metadata of a torrent is fetched completely: from a peer that answers our extension
  handshake with its own and every request with the piece asked for, among keepalives and
  other messages, \<open>SetupExtensions\<close> learns the id of \<open>ut_metadata\<close> and \<open>FetchMetadata\<close> returns exactly
  the metadata, after one request per piece of 16 KiB, in order, under the peer's id.
\<close>
theorem metadata_exchange:
  assumes "PeerMetadataExtId c = 0" and "ExtensionHandshakeSent c"
    and "reads (pre @ Some (MsgExtension, 0 # bytes_of t) # post) c" and "list_all no_handshake pre"
    and "benc (BDict m) t" and "map_get m ''m'' = Some (BDict mm)" and "map_get mm ''ut_metadata'' = Some (BInt x)"
    and "ext_payloads post = map (metadata_msg i md) [0..<ceil_div (length md) 16384]"
    and "ceil_div (length md) 16384 \<le> tx_left (cl_Conn c)" and "0 < length md" and "int (length md) \<le> 2 ^ 48"
  shows "\<exists>c1 c2. SetupExtensions c = (Ret (), c1) \<and> FetchMetadata c1 = (Ret md, c2) \<and>
    tx (cl_Conn c2) = tx (cl_Conn c) @
      concat (map (\<lambda>p. frame MsgExtension (metadata_request x (int p))) [0..<ceil_div (length md) 16384])"
proof -
  have l: "int (length t) + 1 < 2 ^ 32" using assms(3) by (simp add: reads_def wire_ok_def msg_ok_def)
  have "t \<noteq> []" using assms(5) benc_hd by blast
  then have h: "is_extension_handshake MsgExtension (0 # bytes_of t)" by (cases t) (simp_all add: is_extension_handshake_def bytes_of_def)
  obtain c' where c': "extension_loop c = (peer_ext_id (0 # bytes_of t), c')" "reads post c'"
    "tx (cl_Conn c') = tx (cl_Conn c)" "tx_left (cl_Conn c') = tx_left (cl_Conn c)"
    using extension_loop_reads [OF assms(3,4) h] by blast
  let ?c = "c'\<lparr>PeerMetadataExtId := x\<rparr>"
  have "peer_ext_id (0 # bytes_of t) = Ret x" using l by (intro peer_ext_id_benc [OF assms(5) _ assms(6,7)]) simp
  then have s: "SetupExtensions c = (Ret (), ?c)"
    using assms(1,2) c'(1) by (simp add: SetupExtensions_def DoExtensionHandshake_def io_bind_def io_ret_def)
  have "reads post ?c" using c'(2) by (simp add: reads_def)
  then show ?thesis using metadata_fetched [of post ?c i md] assms(8-) c'(3,4) s by auto
qed

theorem metadata_exchange_witness:
  "\<exists>c1 c2. SetupExtensions (demo_client (concat (map wire_bytes [Some (MsgUnchoke, []), Some (MsgExtension, extension_payload),
      None, Some (MsgExtension, metadata_msg 1 [7, 8] 0)]))\<lparr>ExtensionHandshakeSent := True\<rparr>) = (Ret (), c1) \<and> FetchMetadata c1 = (Ret [7, 8], c2)"
proof -
  let ?post = "[None, Some (MsgExtension, metadata_msg 1 [7, 8] 0)]"
  let ?t = "''d1:md11:ut_metadatai1eee''"
  let ?m = "[(''m'', BDict [(''ut_metadata'', BInt 1)])]"
  let ?c = "demo_client (concat (map wire_bytes [Some (MsgUnchoke, []), Some (MsgExtension, extension_payload),
      None, Some (MsgExtension, metadata_msg 1 [7, 8] 0)]))\<lparr>ExtensionHandshakeSent := True\<rparr>"
  have n: "ceil_div 2 16384 = 1" "ceil_div (Suc (Suc 0)) 16384 = 1" by (simp_all add: ceil_div_def)
  have d: "decode ?t 0 = Ret (BDict ?m, length ?t)" by code_simp
  have b: "benc (BDict ?m) ?t" using decode_sound [OF d] by (simp add: go_string_def sub_def)
  have h: "length (metadata_header 2 0) < 100" by code_simp
  have r: "reads ([Some (MsgUnchoke, [])] @ Some (MsgExtension, 0 # bytes_of ?t) # ?post) ?c"
    using h by (simp add: reads_def wire_ok_def msg_ok_def metadata_msg_def demo_client_def new_client_def extension_payload_def
        numeral_2_eq_2)
  show ?thesis
    using metadata_exchange [OF _ _ r _ b, of "[(''ut_metadata'', BInt 1)]" 1 1 "[7, 8]"] n
    by (auto simp: demo_client_def new_client_def no_handshake_def is_extension_handshake_def msg_ids)
qed

text \<open>
  Only the metadata may come: the first extension message after a request is taken for the
  answer. If it is any other one, such as a handshake that the peer repeats, \<open>FetchMetadata\<close>
  fails; if it is empty, it panics.
\<close>
theorem other_extension_fails:
  assumes "reads ms c" and "ext_payloads ms = q # qs" and "0 < tx_left (cl_Conn c)"
  shows "(q = [] \<longrightarrow> fst (FetchMetadata c) = Panic Slice_bounds) \<and>
    (q = i # bytes_of t \<and> benc (BDict m) t \<and> as_int (map_get m ''msg_type'') = None \<longrightarrow>
      fst (FetchMetadata c) = Err (Requesting_metadata 0 Missing_msg_type))"
proof -
  let ?x = "PeerMetadataExtId c"
  let ?k = "(cl_Conn c)\<lparr>tx := tx (cl_Conn c) @ frame MsgExtension (metadata_request ?x 0), tx_left := tx_left (cl_Conn c) - 1\<rparr>"
  have r: "reads ms (c\<lparr>cl_Conn := ?k\<rparr>)" using assms(1) by (simp add: reads_def)
  have "requestMetadataPiece ?x 0 c = metadata_loop 0 (c\<lparr>cl_Conn := ?k\<rparr>)"
    using assms(3) by (simp add: requestMetadataPiece_def io_bind_def on_conn_def WriteMessage_def Write_def)
  then obtain c' where c': "requestMetadataPiece ?x 0 c = (metadata_response 0 q, c')"
    using metadata_loop_reads [OF r assms(2), of 0] by auto
  have e: "fst (FetchMetadata c) = (case metadata_response 0 q of Err e \<Rightarrow> Err (Requesting_metadata 0 e) | Panic p \<Rightarrow> Panic p | _ \<Rightarrow> fst (FetchMetadata c))"
    using c' by (simp add: FetchMetadata_def RequestMetadata_def io_bind_def io_err_def split: outcome.splits)
  have "metadata_response 0 [] = Panic Slice_bounds" by (simp add: metadata_response_def go_slice_def)
  moreover have "metadata_response 0 (i # bytes_of t) = Err Missing_msg_type"
    if "benc (BDict m) t" "as_int (map_get m ''msg_type'') = None" "q = i # bytes_of t"
  proof -
    have "go_string (t @ [])" using ext_payloads_ok [of ms q] assms(1,2) that(3) by (simp add: reads_def go_string_def)
    then show ?thesis
      using DecodeDict_complete [OF that(1), of "[]"] go_slice_end [where ?'e = client_error, of 1 "i # bytes_of t"] that(2)
      by (auto simp: metadata_response_def)
  qed
  ultimately show ?thesis using e by auto
qed

theorem other_extension_fails_witness:
  "fst (FetchMetadata (demo_client (wire_bytes (Some (MsgExtension, []))))) = Panic Slice_bounds"
  using other_extension_fails [of "[Some (MsgExtension, [])]" "demo_client (wire_bytes (Some (MsgExtension, [])))" "[]" "[]"]
  by (simp add: reads_def wire_ok_def msg_ok_def demo_client_def new_client_def)

end
