(* ===== verification/Torrent.thy ===== *)
theory Torrent
  imports Bencode
begin

text \<open>
  Torrent metadata, \<^verbatim>\<open>src/torrent/torrent.go\<close> and the conversion of metadata received from a
  peer, \<open>ToTorrentFile\<close> of \<^verbatim>\<open>src/torrent/magnet.go\<close>. SHA-1 is an argument. Error messages
  that differ in wording only share a constructor.
\<close>

section \<open>The model\<close>

record FileEntry =
  fe_Length :: int
  fe_Path :: "string list"

record TorrentFile =
  Announce :: string
  InfoHash :: "byte list"
  InfoHashHex :: string
  PieceLength :: int
  tf_Length :: int
  tf_Name :: string
  Pieces :: string
  Files :: "FileEntry list"
  IsMultiFile :: bool

datatype torrent_error =
    Read_error | Not_a_dictionary | Bencode_error bencode_error
  | Announce_not_found | Info_not_found | Pieces_not_found | Piece_length_not_found | Length_not_found
  | Invalid_file_entry | Missing_length | Missing_path | Invalid_path_component
  | Metadata_hash_mismatch

definition require :: "'e \<Rightarrow> 'a option \<Rightarrow> ('e, 'a) outcome" where
  "require e x = (case x of None \<Rightarrow> Err e | Some v \<Rightarrow> Ret v)"

definition path_component :: "bvalue \<Rightarrow> (torrent_error, string) outcome" where
  "path_component p = require Invalid_path_component (as_string (Some p))"

definition file_entry :: "bvalue \<Rightarrow> (torrent_error, FileEntry) outcome" where
  "file_entry f =
     go_bind (require Invalid_file_entry (as_dict (Some f))) (\<lambda>fileDict.
     go_bind (require Missing_length (as_int (map_get fileDict ''length''))) (\<lambda>fl.
     go_bind (require Missing_path (as_list (map_get fileDict ''path''))) (\<lambda>pathList.
     go_bind (go_mapM path_component pathList) (\<lambda>path.
       Ret \<lparr>fe_Length = fl, fe_Path = path\<rparr>))))"

text \<open>The multi-file and single-file cases, which \<open>ParseFile\<close> and \<open>ToTorrentFile\<close> both spell out.\<close>

definition total_length :: "FileEntry list \<Rightarrow> int" where
  "total_length fs = foldl (\<lambda>totalLength f. wrap64 (totalLength + fe_Length f)) 0 fs"

definition detect_files :: "(string, bvalue) gomap \<Rightarrow> TorrentFile \<Rightarrow> (torrent_error, TorrentFile) outcome" where
  "detect_files info tf =
     (case as_list (map_get info ''files'') of
        Some filesList \<Rightarrow>
          go_bind (go_mapM file_entry filesList) (\<lambda>fs.
            Ret (tf\<lparr>IsMultiFile := True, Files := fs, tf_Length := total_length fs\<rparr>))
      | None \<Rightarrow>
          go_bind (require Length_not_found (as_int (map_get info ''length''))) (\<lambda>length.
            Ret (tf\<lparr>tf_Length := length\<rparr>)))"

text \<open>\<open>v, _ := m[k].(string)\<close>: the zero value where the assertion fails.\<close>

definition string_or_empty :: "bvalue option \<Rightarrow> string" where
  "string_or_empty v = (case as_string v of Some s \<Rightarrow> s | None \<Rightarrow> [])"

text \<open>\<open>ParseFile\<close> on what \<open>os.ReadFile\<close> returned (\<open>None\<close> for its error).\<close>

definition ParseFile :: "(byte list \<Rightarrow> byte list) \<Rightarrow> byte list option \<Rightarrow> (torrent_error, TorrentFile) outcome" where
  "ParseFile sha1_Sum file =
     go_bind (require Read_error file) (\<lambda>data.
       let dataStr = string_of data in
       if length dataStr = 0 \<or> dataStr ! 0 \<noteq> CHR ''d'' then Err Not_a_dictionary
       else
         go_bind (map_err Bencode_error (DecodeDict dataStr 0)) (\<lambda>((torrent, rawValues), _).
         go_bind (require Announce_not_found (as_string (map_get torrent ''announce''))) (\<lambda>announce.
         go_bind (require Info_not_found (as_dict (map_get torrent ''info''))) (\<lambda>info.
           let infoHash = sha1_Sum (bytes_of (case map_get rawValues ''info'' of Some r \<Rightarrow> r | None \<Rightarrow> [])) in
           go_bind (require Pieces_not_found (as_string (map_get info ''pieces''))) (\<lambda>pieces.
           go_bind (require Piece_length_not_found (as_int (map_get info ''piece length''))) (\<lambda>pieceLength.
             let name = string_or_empty (map_get info ''name'') in
             detect_files info
               \<lparr>Announce = announce, InfoHash = infoHash, InfoHashHex = hex_encode infoHash,
                PieceLength = pieceLength, tf_Length = 0, tf_Name = name, Pieces = pieces,
                Files = [], IsMultiFile = False\<rparr>))))))"

text \<open>\<open>PieceHashes\<close>; the index runs in steps of 20.\<close>

function piece_hashes :: "string \<Rightarrow> nat \<Rightarrow> string list \<Rightarrow> string list" where
  "piece_hashes pieces i hashes =
     (if i < length pieces then
        (let stop = (if i + 20 > length pieces then length pieces else i + 20) in
         piece_hashes pieces (i + 20) (hashes @ [hex_encode (bytes_of (sub pieces i stop))]))
      else hashes)"
  by pat_completeness auto
termination
  by (relation "measure (\<lambda>(pieces, i, _). length pieces - i)") auto

declare piece_hashes.simps [simp del]

definition PieceHashes :: "TorrentFile \<Rightarrow> string list" where
  "PieceHashes tf = piece_hashes (Pieces tf) 0 []"

record MagnetLink =
  ml_InfoHash :: "byte list"
  ml_InfoHashHex :: string
  ml_Name :: string
  TrackerURL :: string
  TrackerURLs :: "string list"

definition ToTorrentFile ::
    "(byte list \<Rightarrow> byte list) \<Rightarrow> MagnetLink \<Rightarrow> byte list \<Rightarrow> (torrent_error, TorrentFile) outcome" where
  "ToTorrentFile sha1_Sum m rawMetadata =
     (let computedHash = sha1_Sum rawMetadata in
      if hex_encode computedHash \<noteq> ml_InfoHashHex m then Err Metadata_hash_mismatch
      else
        go_bind (map_err Bencode_error (DecodeDict (string_of rawMetadata) 0)) (\<lambda>((infoDict, _), _).
        go_bind (require Piece_length_not_found (as_int (map_get infoDict ''piece length''))) (\<lambda>pieceLength.
        go_bind (require Pieces_not_found (as_string (map_get infoDict ''pieces''))) (\<lambda>pieces.
          let name = string_or_empty (map_get infoDict ''name'') in
          detect_files infoDict
            \<lparr>Announce = TrackerURL m, InfoHash = computedHash, InfoHashHex = ml_InfoHashHex m,
             PieceLength = pieceLength, tf_Length = 0, tf_Name = name, Pieces = pieces,
             Files = [], IsMultiFile = False\<rparr>))))"

section \<open>Lemmas\<close>

lemma require_Ret [simp]: "require e x = Ret v \<longleftrightarrow> x = Some v"
  by (simp add: require_def split: option.splits)

lemma require_Some [simp]: "require e (Some v) = Ret v"
  by (simp add: require_def)

lemma detect_files_frame:
  assumes "detect_files info tf = Ret tf'"
  shows "Announce tf' = Announce tf \<and> InfoHash tf' = InfoHash tf \<and> InfoHashHex tf' = InfoHashHex tf \<and>
    PieceLength tf' = PieceLength tf \<and> tf_Name tf' = tf_Name tf \<and> Pieces tf' = Pieces tf"
  using assms by (auto simp: detect_files_def split: option.splits)

lemma Decode_dict:
  assumes "Decode raw = Ret (BDict m)"
  shows "\<exists>raws p. DecodeDict raw 0 = Ret ((m, raws), p)"
  using assms
  by (auto simp: Decode_def DecodeDict_def decode.simps [of raw 0] split: if_splits)

lemma total_length_sum:
  assumes "\<And>n. n \<le> length fs \<Longrightarrow> in_int64 (\<Sum>f\<leftarrow>take n fs. fe_Length f)"
  shows "total_length fs = (\<Sum>f\<leftarrow>fs. fe_Length f)"
  using assms
proof (induction fs rule: rev_induct)
  case (snoc f fs)
  have "total_length fs = (\<Sum>f\<leftarrow>fs. fe_Length f)"
  proof (rule snoc.IH)
    show "in_int64 (\<Sum>f\<leftarrow>take n fs. fe_Length f)" if "n \<le> length fs" for n
      using snoc.prems [of n] that by simp
  qed
  then show ?case using snoc.prems [of "Suc (length fs)"] by (simp add: total_length_def wrap64_id)
qed (simp add: total_length_def)

definition hash_at :: "string \<Rightarrow> nat \<Rightarrow> string" where
  "hash_at pieces k = sub pieces (k * 20) (min (Suc k * 20) (length pieces))"

lemma ceil_div_less: "0 < b \<Longrightarrow> i * b < a \<Longrightarrow> i < ceil_div a b"
  using ceil_div_upper [of b a] by (metis le_less_trans mult_less_cancel2 not_le order_less_le_trans)

lemma piece_hashes_eq:
  "piece_hashes pieces (k * 20) hs =
     hs @ map (\<lambda>k. hex_encode (bytes_of (hash_at pieces k))) [k..<ceil_div (length pieces) 20]"
proof (induction "length pieces - k * 20" arbitrary: k hs rule: less_induct)
  case less
  show ?case
  proof (cases "k * 20 < length pieces")
    case True
    have k: "k < ceil_div (length pieces) 20" using True by (intro ceil_div_less) simp_all
    have "piece_hashes pieces (k * 20) hs =
        piece_hashes pieces (Suc k * 20) (hs @ [hex_encode (bytes_of (hash_at pieces k))])"
      using True by (subst piece_hashes.simps) (simp add: Let_def hash_at_def min_def add.commute)
    also have "\<dots> = (hs @ [hex_encode (bytes_of (hash_at pieces k))]) @
        map (\<lambda>k. hex_encode (bytes_of (hash_at pieces k))) [Suc k..<ceil_div (length pieces) 20]"
      using True by (intro less) simp
    finally show ?thesis using k by (simp add: upt_conv_Cons)
  next
    case False
    then have "\<not> k < ceil_div (length pieces) 20" using ceil_div_lower [of 20 k "length pieces"] by auto
    with False show ?thesis by (subst piece_hashes.simps) simp
  qed
qed

lemma hash_at_concat: "concat (map (hash_at pieces) [0..<m]) = take (m * 20) pieces"
proof (induction m)
  case (Suc m)
  have "take (m * 20) pieces @ hash_at pieces m = take (Suc m * 20) pieces"
    using sub_split [of 0 "m * 20" "Suc m * 20" pieces]
    by (simp add: hash_at_def sub_def min_def)
  with Suc show ?case by simp
qed simp

definition new_torrent :: "string \<Rightarrow> byte list \<Rightarrow> int \<Rightarrow> string \<Rightarrow> string \<Rightarrow> TorrentFile" where
  "new_torrent announce infoHash pieceLength name pieces =
     \<lparr>Announce = announce, InfoHash = infoHash, InfoHashHex = hex_encode infoHash, PieceLength = pieceLength,
      tf_Length = 0, tf_Name = name, Pieces = pieces, Files = [], IsMultiFile = False\<rparr>"

lemma ParseFile_RetE:
  assumes "ParseFile sha1 (Some data) = Ret tf"
  obtains torrent raws p info pieces pl ann where "DecodeDict (string_of data) 0 = Ret ((torrent, raws), p)"
    "map_get torrent ''info'' = Some (BDict info)"
    "as_string (map_get info ''pieces'') = Some pieces" "as_int (map_get info ''piece length'') = Some pl"
    "detect_files info (new_torrent ann (sha1 (bytes_of (case map_get raws ''info'' of Some r \<Rightarrow> r | None \<Rightarrow> [])))
        pl (string_or_empty (map_get info ''name'')) pieces) = Ret tf"
  using assms unfolding ParseFile_def Let_def new_torrent_def
  by (auto simp: as_dict_Some split: if_splits)

section \<open>Theorems\<close>

text \<open>
  C25. A torrent file and a magnet link agree: when \<open>ParseFile\<close> accepts a file, its info hash
  is the SHA-1 of a contiguous part of the file that decodes to the info dictionary, and a
  magnet link with that hash, given exactly these bytes by a peer, yields the same torrent;
  given any other bytes it only accepts them if they have the same hash.
\<close>
theorem magnet_equals_file:
  assumes "ParseFile sha1 (Some data) = Ret tf" and "int (length data) < 2 ^ 63"
    and "ml_InfoHashHex m = InfoHashHex tf" and "TrackerURL m = Announce tf"
  shows "\<exists>raw info a b. data = a @ raw @ b \<and> Decode (string_of raw) = Ret (BDict info) \<and>
    InfoHash tf = sha1 raw \<and> ToTorrentFile sha1 m raw = Ret tf \<and>
    (\<forall>raw' tf'. ToTorrentFile sha1 m raw' = Ret tf' \<longrightarrow> sha1 raw' = sha1 raw \<and> InfoHash tf' = InfoHash tf)"
proof -
  let ?s = "string_of data"
  obtain torrent raws p info pieces pl ann where d: "DecodeDict ?s 0 = Ret ((torrent, raws), p)"
    and i: "map_get torrent ''info'' = Some (BDict info)"
    and p: "as_string (map_get info ''pieces'') = Some pieces" "as_int (map_get info ''piece length'') = Some pl"
    and t: "detect_files info (new_torrent ann (sha1 (bytes_of (case map_get raws ''info'' of Some r \<Rightarrow> r | None \<Rightarrow> [])))
        pl (string_or_empty (map_get info ''name'')) pieces) = Ret tf"
    by (rule ParseFile_RetE [OF assms(1)])
  obtain raw a b where r: "map_get raws ''info'' = Some raw" "?s = a @ raw @ b" "Decode raw = Ret (BDict info)"
    using raw_part [OF d _ i] assms(2) by (auto simp: go_string_def)
  have h: "InfoHash tf = sha1 (bytes_of raw)" "InfoHashHex tf = hex_encode (sha1 (bytes_of raw))"
    and ann: "Announce tf = ann"
    using detect_files_frame [OF t] r(1) by (simp_all add: new_torrent_def)
  obtain raws' p' where dr: "DecodeDict raw 0 = Ret ((info, raws'), p')" using Decode_dict [OF r(3)] by blast
  have "ToTorrentFile sha1 m (bytes_of raw) = Ret tf"
    using t r(1) assms(3,4) h ann dr p by (simp add: ToTorrentFile_def Let_def new_torrent_def)
  moreover have "data = bytes_of a @ bytes_of raw @ bytes_of b"
    using arg_cong [OF r(2), of bytes_of] by (simp add: bytes_of_def) (simp add: bytes_of_string_of [unfolded bytes_of_def])
  moreover have "sha1 raw' = sha1 (bytes_of raw) \<and> InfoHash tf' = InfoHash tf" if "ToTorrentFile sha1 m raw' = Ret tf'" for raw' tf'
    using that h assms(3) by (auto simp: ToTorrentFile_def Let_def dest!: detect_files_frame split: if_splits)
  ultimately show ?thesis using r(3) h by (metis string_of_bytes_of)
qed

text \<open>A torrent of one byte, and a stand-in for SHA-1.\<close>

definition demo_sha1 :: "byte list \<Rightarrow> byte list" where
  "demo_sha1 bs = replicate 19 0 @ [of_nat (length bs)]"

definition demo_info :: string where
  "demo_info = ''d6:lengthi1e12:piece lengthi4e6:pieces0:e''"

definition demo_torrent :: TorrentFile where
  "demo_torrent = \<lparr>Announce = ''t'', InfoHash = demo_sha1 (bytes_of demo_info),
     InfoHashHex = hex_encode (demo_sha1 (bytes_of demo_info)), PieceLength = 4, tf_Length = 1, tf_Name = [],
     Pieces = [], Files = [], IsMultiFile = False\<rparr>"

theorem magnet_equals_file_witness:
  "\<exists>raw. ToTorrentFile demo_sha1 \<lparr>ml_InfoHash = [], ml_InfoHashHex = InfoHashHex demo_torrent, ml_Name = [],
     TrackerURL = ''t'', TrackerURLs = []\<rparr> raw = Ret demo_torrent"
proof -
  let ?data = "bytes_of (''d8:announce1:t4:info'' @ demo_info @ ''e'')"
  have p: "ParseFile demo_sha1 (Some ?data) = Ret demo_torrent" by code_simp
  have l: "int (length ?data) < 2 ^ 63" by (simp add: demo_info_def)
  show ?thesis
    using magnet_equals_file [OF p l, of "\<lparr>ml_InfoHash = [], ml_InfoHashHex = InfoHashHex demo_torrent, ml_Name = [],
      TrackerURL = ''t'', TrackerURLs = []\<rparr>"] by (auto simp: demo_torrent_def)
qed

text \<open>
  \<open>PieceHashes\<close> lists one hash per started group of twenty bytes; decoding the hashes and
  joining them gives back the \<open>pieces\<close> string, and every hash of a well-formed torrent has
  forty digits.
\<close>
theorem PieceHashes_roundtrip:
  "length (PieceHashes tf) = ceil_div (length (Pieces tf)) 20 \<and>
   concat (map (the \<circ> hex_decode) (PieceHashes tf)) = bytes_of (Pieces tf) \<and>
   (20 dvd length (Pieces tf) \<longrightarrow> (\<forall>h\<in>set (PieceHashes tf). length h = 40))"
proof -
  let ?p = "Pieces tf" and ?n = "ceil_div (length (Pieces tf)) 20"
  have e: "PieceHashes tf = map (\<lambda>k. hex_encode (bytes_of (hash_at ?p k))) [0..<?n]"
    using piece_hashes_eq [of ?p 0 "[]"] by (simp add: PieceHashes_def)
  have "concat (map (the \<circ> hex_decode) (PieceHashes tf)) = bytes_of (concat (map (hash_at ?p) [0..<?n]))"
    by (simp add: e o_def bytes_of_def map_concat)
  also have "\<dots> = bytes_of ?p" using ceil_div_upper [of 20 "length ?p"] by (simp add: hash_at_concat)
  finally have c: "concat (map (the \<circ> hex_decode) (PieceHashes tf)) = bytes_of ?p" .
  have "length (hash_at ?p k) = 20" if "20 dvd length ?p" "k < ?n" for k
  proof -
    obtain m where m: "length ?p = 20 * m" using \<open>20 dvd length ?p\<close> unfolding dvd_def by blast
    have "k * 20 < length ?p" using that(2) by (intro ceil_div_lower) simp_all
    with m show ?thesis by (simp add: hash_at_def min_def)
  qed
  then show ?thesis using c by (auto simp: e)
qed

theorem PieceHashes_roundtrip_witness:
  "list_all (\<lambda>h. length h = 40) (PieceHashes (demo_torrent\<lparr>Pieces := replicate 40 CHR ''x''\<rparr>))"
  using PieceHashes_roundtrip [of "demo_torrent\<lparr>Pieces := replicate 40 CHR ''x''\<rparr>"] by (simp add: list_all_iff)

end
