(* ===== verification/Go_Path.thy ===== *)
theory Go_Path
  imports Go_Prelude
begin

text \<open>
  Paths as \<open>path/filepath\<close> has them on Unix: \<open>Clean\<close>, \<open>Join\<close> and \<open>Dir\<close>. They are lexical:
  \<open>..\<close> removes the component before it, and is kept at the start of a relative path only.
\<close>

fun split_path :: "string \<Rightarrow> string list" where
  "split_path [] = [[]]"
| "split_path (c # cs) =
     (if c = CHR ''/'' then [] # split_path cs
      else (case split_path cs of [] \<Rightarrow> [[c]] | seg # segs \<Rightarrow> (c # seg) # segs))"

fun join_path :: "string list \<Rightarrow> string" where
  "join_path [] = []"
| "join_path [seg] = seg"
| "join_path (seg # segs) = seg @ ''/'' @ join_path segs"

fun clean_path :: "bool \<Rightarrow> string list \<Rightarrow> string list \<Rightarrow> string list" where
  "clean_path rooted out [] = out"
| "clean_path rooted out (seg # segs) =
     (if seg = [] \<or> seg = ''.'' then clean_path rooted out segs
      else if seg = ''..'' then
        (if out \<noteq> [] \<and> last out \<noteq> ''..'' then clean_path rooted (butlast out) segs
         else if rooted then clean_path rooted out segs
         else clean_path rooted (out @ [seg]) segs)
      else clean_path rooted (out @ [seg]) segs)"

definition Clean :: "string \<Rightarrow> string" where
  "Clean path =
     (if path = [] then ''.''
      else
        (let rooted = hd path = CHR ''/''; out = join_path (clean_path rooted [] (split_path path)) in
         if rooted then ''/'' @ out else if out = [] then ''.'' else out))"

definition filepath_Join :: "string list \<Rightarrow> string" where
  "filepath_Join elems =
     (case dropWhile (\<lambda>e. e = []) elems of [] \<Rightarrow> [] | es \<Rightarrow> Clean (join_path es))"

definition filepath_Dir :: "string \<Rightarrow> string" where
  "filepath_Dir path = Clean (rev (dropWhile (\<lambda>c. c \<noteq> CHR ''/'') (rev path)))"

lemma path_examples:
  "filepath_Join [''out'', ''name'', ''a'', ''b.txt''] = ''out/name/a/b.txt''"
  "filepath_Join [''out'', ''name'', ''..'', ''..'', ''..'', ''x''] = ''../x''"
  "filepath_Join ['''', ''/a//b/'', '''', ''./c''] = ''/a/b/c''"
  "filepath_Dir ''out/name/a'' = ''out/name''" "filepath_Dir ''a'' = ''.''" "filepath_Dir ''/a'' = ''/''"
  by code_simp+

end
