(* ===== verification/Seeder.thy ===== *)
theory Seeder
  imports Wire Torrent Go_Path
begin

text \<open>
  The seeder: one connection, \<open>handlePeer\<close> of \<^verbatim>\<open>src/seeder/handler.go\<close>, and the loading of the
  data it serves, \<^verbatim>\<open>src/seeder/storage.go\<close>. \<open>handlePeer\<close> returns nothing in Go; in the
  model it returns the error it logged before it closed the connection. The file
  system (\<open>os.ReadFile\<close> of a path) and SHA-1 are arguments.
\<close>

section \<open>The model\<close>

text \<open>
  One iteration of the loop on a message with a payload: the body of the \<open>switch\<close>. The
  state is \<open>peerInterested\<close>. \<open>begin+length\<close> is a sum of two \<open>uint32\<close>, and it is compared with
  the length of the piece only after the addition.
\<close>

definition on_request :: "byte list list \<Rightarrow> byte list \<Rightarrow> unit io" where
  "on_request pieces payload =
     io_bind (io_lift (ParseRequest payload)) (\<lambda>(pieceIndex, begin, len).
       if int_of_u32 pieceIndex \<ge> int (length pieces) then io_ret ()
       else
         (let pieceData = pieces ! unat pieceIndex in
          if int_of_u32 (begin + len) > int (length pieceData) then io_ret ()
          else
            io_bind (io_lift (go_slice pieceData (int_of_u32 begin) (int_of_u32 (begin + len)))) (\<lambda>block.
              WriteMessage MsgPiece (PutUint32 pieceIndex @ PutUint32 begin @ block))))"

definition on_message :: "byte list list \<Rightarrow> bool \<Rightarrow> byte \<Rightarrow> byte list \<Rightarrow> bool io" where
  "on_message pieces peerInterested mid payload =
     (if mid = MsgInterested then io_bind (WriteMessage MsgUnchoke []) (\<lambda>_. io_ret True)
      else if mid = MsgNotInterested then io_bind (WriteMessage MsgChoke []) (\<lambda>_. io_ret False)
      else if mid = MsgRequest then
        (if \<not> peerInterested then io_ret peerInterested
         else if length payload < 12 then io_ret peerInterested
         else io_bind (on_request pieces payload) (\<lambda>_. io_ret peerInterested))
      else io_ret peerInterested)"

lemma on_message_rx: "on_message pieces i mid payload c = (r, c') \<Longrightarrow> rx c' = rx c"
  by (auto simp: on_message_def on_request_def io_defs io_lift_def WriteMessage_def Write_def Let_def
      split: if_splits outcome.splits prod.splits)

function serve :: "byte list list \<Rightarrow> bool \<Rightarrow> unit io" where
  "serve pieces peerInterested c =
     (case ReadMessage c of
        (Err e, c') \<Rightarrow> (Err e, c')
      | (Panic p, c') \<Rightarrow> (Panic p, c')
      | (Ret (mid, None), c') \<Rightarrow> serve pieces peerInterested c'
      | (Ret (mid, Some payload), c') \<Rightarrow>
          (case on_message pieces peerInterested mid payload c' of
             (Ret peerInterested', c'') \<Rightarrow> serve pieces peerInterested' c''
           | (Err e, c'') \<Rightarrow> (Err e, c'')
           | (Panic p, c'') \<Rightarrow> (Panic p, c'')))"
  by pat_completeness auto
termination
  by (relation "measure (\<lambda>(_, _, c). length (rx c))")
    (auto dest!: ReadMessage_progress [OF sym] on_message_rx [OF sym])

declare serve.simps [simp del]

text \<open>\<open>BuildBitfield\<close>: \<open>1 << uint(bitIndex)\<close> is set in byte \<open>i / 8\<close> for every piece.\<close>

definition set_piece_bit :: "nat \<Rightarrow> byte list \<Rightarrow> byte list" where
  "set_piece_bit i bitfield =
     (let byteIndex = i div 8; bitIndex = 7 - i mod 8 in
      bitfield[byteIndex := bitfield ! byteIndex OR push_bit bitIndex 1])"

definition BuildBitfield :: "int \<Rightarrow> ('e, byte list) outcome" where
  "BuildBitfield numPieces =
     go_bind (go_div (wrap64 (numPieces + 7)) 8) (\<lambda>numBytes.
       if numBytes < 0 then Panic Makeslice_len
       else Ret (fold set_piece_bit [0..<nat numPieces] (replicate (nat numBytes) 0)))"

datatype peer_end = Info_hash_mismatch | Ended wire_error

text \<open>\<open>handlePeer\<close>; the info hash is an array of 20 bytes.\<close>

definition handlePeer :: "byte list \<Rightarrow> byte list list \<Rightarrow> int \<Rightarrow> conn \<Rightarrow> (peer_end, unit) outcome \<times> conn" where
  "handlePeer infoHash pieces numPieces c =
     (case ReceiveHandshake c of
        (Panic p, c) \<Rightarrow> (Panic p, c)
      | (Err e, c) \<Rightarrow> (Err (Ended e), c)
      | (Ret (peerInfoHash, peerID), c) \<Rightarrow>
          if peerInfoHash \<noteq> infoHash then (Err Info_hash_mismatch, c)
          else
            (case io_bind (DoHandshake infoHash False) (\<lambda>_.
                    io_bind (io_lift (BuildBitfield numPieces)) (\<lambda>bitfield.
                    io_bind (WriteMessage MsgBitfield bitfield) (\<lambda>_.
                      serve pieces False))) c of
               (r, c) \<Rightarrow> (map_err Ended r, c)))"

section \<open>Loading the data\<close>

datatype load_error = Reading string | Data_length_mismatch | Piece_hash_mismatch nat

fun read_files :: "(string \<Rightarrow> byte list option) \<Rightarrow> string \<Rightarrow> FileEntry list \<Rightarrow> (load_error, byte list) outcome" where
  "read_files fs dataPath [] = Ret []"
| "read_files fs dataPath (f # files) =
     (let filePath = filepath_Join (dataPath # fe_Path f) in
      case fs filePath of
        None \<Rightarrow> Err (Reading filePath)
      | Some data \<Rightarrow> go_bind (read_files fs dataPath files) (\<lambda>rest. Ret (data @ rest)))"

definition load_piece ::
    "(byte list \<Rightarrow> byte list) \<Rightarrow> TorrentFile \<Rightarrow> byte list \<Rightarrow> nat \<Rightarrow> (load_error, byte list) outcome" where
  "load_piece sha1_Sum tf rawData i =
     (let start = wrap64 (int i * PieceLength tf);
          stop = wrap64 (start + PieceLength tf);
          stop = (if stop > int (length rawData) then int (length rawData) else stop) in
      go_bind (go_slice rawData start stop) (\<lambda>piece.
      go_bind (go_slice (Pieces tf) (wrap64 (int i * 20)) (wrap64 (int (Suc i) * 20))) (\<lambda>expectedHash.
        if string_of (sha1_Sum piece) \<noteq> expectedHash then Err (Piece_hash_mismatch i) else Ret piece)))"

definition LoadPieces ::
    "(byte list \<Rightarrow> byte list) \<Rightarrow> (string \<Rightarrow> byte list option) \<Rightarrow> string \<Rightarrow> TorrentFile
       \<Rightarrow> (load_error, byte list list) outcome" where
  "LoadPieces sha1_Sum fs dataPath tf =
     go_bind (if IsMultiFile tf then read_files fs dataPath (Files tf)
              else (case fs dataPath of None \<Rightarrow> Err (Reading dataPath) | Some data \<Rightarrow> Ret data)) (\<lambda>rawData.
       if int (length rawData) \<noteq> tf_Length tf then Err Data_length_mismatch
       else
         go_bind (go_div (wrap64 (wrap64 (tf_Length tf + PieceLength tf) - 1)) (PieceLength tf)) (\<lambda>totalPieces.
           go_mapM (load_piece sha1_Sum tf rawData) [0..<nat totalPieces]))"

section \<open>The server\<close>

text \<open>
  \<^verbatim>\<open>src/seeder/server.go\<close>. \<open>listens port\<close> tells whether \<open>net.Listen\<close> succeeds. \<open>Start\<close> accepts the
  connections \<open>conns\<close>, one goroutine each, until \<open>Accept\<close> fails; the connections share nothing
  that changes.
\<close>

record Server =
  sv_infoHash :: "byte list"
  sv_pieces :: "byte list list"
  sv_numPieces :: int
  sv_port :: int

datatype server_error = Loading load_error | Listening int

definition Server_New ::
    "(byte list \<Rightarrow> byte list) \<Rightarrow> (string \<Rightarrow> byte list option) \<Rightarrow> (int \<Rightarrow> bool) \<Rightarrow> int \<Rightarrow> TorrentFile \<Rightarrow> string
       \<Rightarrow> (server_error, Server) outcome" where
  "Server_New sha1_Sum fs listens port tf dataPath =
     go_bind (map_err Loading (LoadPieces sha1_Sum fs dataPath tf)) (\<lambda>pieces.
       if \<not> listens port then Err (Listening port)
       else
         go_bind (go_div (wrap64 (wrap64 (tf_Length tf + PieceLength tf) - 1)) (PieceLength tf)) (\<lambda>numPieces.
           Ret \<lparr>sv_infoHash = InfoHash tf, sv_pieces = pieces, sv_numPieces = numPieces, sv_port = port\<rparr>))"

definition Server_Start :: "Server \<Rightarrow> conn list \<Rightarrow> (peer_end, unit) outcome list \<times> conn list" where
  "Server_Start s conns =
     (let rs = map (handlePeer (sv_infoHash s) (sv_pieces s) (sv_numPieces s)) conns in (map fst rs, map snd rs))"

section \<open>What a connection is answered\<close>

text \<open>
  The specification: the answers to a sequence of messages, over numbers that do not wrap.
\<close>

definition req_fields :: "byte list \<Rightarrow> nat \<times> nat \<times> nat" where
  "req_fields payload = (unat (Uint32 (sub payload 0 4)), unat (Uint32 (sub payload 4 8)), unat (Uint32 (sub payload 8 12)))"

definition answer :: "byte list list \<Rightarrow> byte list \<Rightarrow> (byte \<times> byte list) list" where
  "answer pieces payload =
     (case req_fields payload of (i, b, l) \<Rightarrow>
        if i < length pieces \<and> b + l \<le> length (pieces ! i)
        then [(MsgPiece, sub payload 0 8 @ sub (pieces ! i) b (b + l))] else [])"



text \<open>The request of a piece whose range wraps around and then passes the bounds check.\<close>

definition req_wraps :: "byte list list \<Rightarrow> byte list \<Rightarrow> bool" where
  "req_wraps pieces payload \<longleftrightarrow>
     (case req_fields payload of (i, b, l) \<Rightarrow>
        i < length pieces \<and> 2 ^ 32 \<le> b + l \<and> b + l - 2 ^ 32 \<le> length (pieces ! i))"


lemma ParseRequest_fields:
  assumes "12 \<le> length payload"
  shows "ParseRequest payload =
    (Ret (Uint32 (sub payload 0 4), Uint32 (sub payload 4 8), Uint32 (sub payload 8 12)) :: ('e, 32 word \<times> 32 word \<times> 32 word) outcome)"
proof -
  have "go_slice payload 0 4 = (Ret (sub payload 0 4) :: ('e, byte list) outcome)"
    "go_slice payload 4 8 = (Ret (sub payload 4 8) :: ('e, byte list) outcome)"
    "go_slice payload 8 12 = (Ret (sub payload 8 12) :: ('e, byte list) outcome)"
    using assms go_slice_nat [of 0 4 payload] go_slice_nat [of 4 8 payload] go_slice_nat [of 8 12 payload] by simp_all
  then show ?thesis by (simp add: ParseRequest_def)
qed

lemma uint_u32_sum:
  fixes b l :: "32 word"
  shows "int_of_u32 (b + l) = (if unat b + unat l < 2 ^ 32 then int (unat b + unat l) else int (unat b + unat l - 2 ^ 32))"
proof -
  have lt: "unat b < 2 ^ 32" "unat l < 2 ^ 32"
    using unsigned_less [of b, where ?'a = nat] unsigned_less [of l, where ?'a = nat] by simp_all
  have "int_of_u32 (b + l) = int (unat (b + l))" by (simp add: int_of_u32_def)
  also have "unat (b + l) = (unat b + unat l) mod 2 ^ 32" by (simp add: unat_word_ariths(1))
  also have "\<dots> = (if unat b + unat l < 2 ^ 32 then unat b + unat l else unat b + unat l - 2 ^ 32)"
    using lt by (auto simp: mod_if)
  finally show ?thesis by simp
qed

lemma on_request_eq:
  assumes "12 \<le> length payload"
  shows "on_request pieces payload c =
    (if req_wraps pieces payload then (Panic Slice_bounds, c) else WriteMessages (answer pieces payload) c)"
proof -
  define iw bw lw where w: "iw = Uint32 (sub payload 0 4)" "bw = Uint32 (sub payload 4 8)" "lw = Uint32 (sub payload 8 12)"
  have f: "req_fields payload = (unat iw, unat bw, unat lw)" by (simp add: req_fields_def w)
  have "PutUint32 iw @ PutUint32 bw = sub payload 0 4 @ sub payload 4 8" using assms by (simp add: w)
  also have "\<dots> = sub payload 0 8" by (rule sub_split [symmetric]) simp_all
  finally have h: "PutUint32 iw @ PutUint32 bw @ x = sub payload 0 8 @ x" for x by simp
  let ?d = "pieces ! unat iw" and ?s = "int_of_u32 (bw + lw)"
  have lt: "unat bw < 2 ^ 32" "unat lw < 2 ^ 32"
    using unsigned_less [of bw, where ?'a = nat] unsigned_less [of lw, where ?'a = nat] by simp_all
  consider (big) "length pieces \<le> unat iw" | (ok) "unat iw < length pieces" "unat bw + unat lw < 2 ^ 32"
    | (wrap) "unat iw < length pieces" "2 ^ 32 \<le> unat bw + unat lw" by linarith
  then show ?thesis
  proof cases
    case big
    then have "int (length pieces) \<le> int_of_u32 iw" unfolding int_of_u32_unat by linarith
    with big show ?thesis
      by (simp add: on_request_def ParseRequest_fields [OF assms] w [symmetric] io_defs io_lift_def req_wraps_def
          answer_def f)
  next
    case ok
    then have s: "?s = int (unat bw + unat lw)" by (simp add: uint_u32_sum)
    have i: "\<not> int (length pieces) \<le> int_of_u32 iw" unfolding int_of_u32_unat using ok(1) by linarith
    have "go_slice ?d (int (unat bw)) (int (unat bw + unat lw)) =
        (Ret (sub ?d (unat bw) (unat bw + unat lw)) :: (wire_error, byte list) outcome)" if "unat bw + unat lw \<le> length ?d"
      using that by (intro go_slice_nat) simp_all
    then show ?thesis
      using ok
      by (simp add: on_request_def ParseRequest_fields [OF assms] w [symmetric] io_defs io_lift_def req_wraps_def
          answer_def f i int_of_u32_unat [of bw] s h Let_def WriteMessage_def Write_def del: of_nat_add)
  next
    case wrap
    then have s: "?s = int (unat bw + unat lw - 2 ^ 32)" by (simp add: uint_u32_sum)
    have i: "\<not> int (length pieces) \<le> int_of_u32 iw" unfolding int_of_u32_unat using wrap(1) by linarith
    have "\<not> int_of_u32 bw \<le> ?s" unfolding s unfolding int_of_u32_unat using lt wrap(2) by linarith
    then have g: "go_slice ?d (int_of_u32 bw) ?s = (Panic Slice_bounds :: (wire_error, byte list) outcome)"
      by (simp add: go_slice_def)
    have le: "?s \<le> int (length ?d) \<longleftrightarrow> unat bw + unat lw - 2 ^ 32 \<le> length ?d" unfolding s by simp
    show ?thesis
    proof (cases "?s \<le> int (length ?d)")
      case True
      with wrap le have "req_wraps pieces payload" by (simp add: req_wraps_def f)
      then show ?thesis
        using True i g by (simp add: on_request_def ParseRequest_fields [OF assms] w [symmetric] io_defs io_lift_def Let_def)
    next
      case False
      with wrap le have "\<not> req_wraps pieces payload" "answer pieces payload = []" by (auto simp: req_wraps_def answer_def f)
      then show ?thesis
        using False i by (simp add: on_request_def ParseRequest_fields [OF assms] w [symmetric] io_defs io_lift_def Let_def)
    qed
  qed
qed



section \<open>The bitfield\<close>


lemma length_set_piece_bit [simp]: "length (set_piece_bit i bf) = length bf"
  by (simp add: set_piece_bit_def Let_def)




lemma length_fold_bits [simp]: "length (fold set_piece_bit js bf) = length bf"
  by (induction js arbitrary: bf) auto


section \<open>Loaded pieces\<close>

lemma load_piece_Ret:
  assumes "load_piece sha1 tf data i = Ret piece" and "PieceLength tf = int N" and "0 < N"
    and "i < ceil_div (length data) N" and "int (length data) + int N \<le> 2 ^ 63"
  shows "piece = sub data (i * N) (min (Suc i * N) (length data))"
    and "i < 2 ^ 58 \<Longrightarrow> string_of (sha1 piece) = sub (Pieces tf) (i * 20) (Suc i * 20)"
proof -
  have lt: "i * N < length data" using assms(3,4) by (rule ceil_div_lower)
  then have i: "int i * int N < 2 ^ 63" using assms(5) by (simp flip: of_nat_mult)
  have w1: "wrap64 (int i * int N) = int (i * N)" using i by (simp add: wrap64_nonneg)
  have "int (i * N) + int N < 2 ^ 63" using lt assms(5) by linarith
  then have w2: "wrap64 (int (i * N) + int N) = int (Suc i * N)" by (simp add: wrap64_nonneg algebra_simps)
  have w: "(if wrap64 (wrap64 (int i * PieceLength tf) + PieceLength tf) > int (length data) then int (length data)
      else wrap64 (wrap64 (int i * PieceLength tf) + PieceLength tf)) = int (min (Suc i * N) (length data))"
    unfolding assms(2) w1 w2 of_nat_less_iff min_def by (simp only: not_le [symmetric] if_not_P split: if_splits) auto
  have s: "go_slice data (int (i * N)) (int (min (Suc i * N) (length data))) =
      (Ret (sub data (i * N) (min (Suc i * N) (length data))) :: (load_error, byte list) outcome)"
    using lt by (intro go_slice_nat) simp_all
  obtain h where p: "piece = sub data (i * N) (min (Suc i * N) (length data))"
    and h: "go_slice (Pieces tf) (wrap64 (int i * 20)) (wrap64 (int (Suc i) * 20)) = (Ret h :: (load_error, string) outcome)"
      "string_of (sha1 piece) = h"
    using assms(1) unfolding load_piece_def Let_def w unfolding assms(2) w1 s
    by (auto split: if_splits)
  show "piece = sub data (i * N) (min (Suc i * N) (length data))" by (rule p)
  assume "i < 2 ^ 58"
  then have "wrap64 (int i * 20) = int (i * 20)" "wrap64 (int (Suc i) * 20) = int (Suc i * 20)"
    by (subst wrap64_nonneg; simp)+
  then show "string_of (sha1 piece) = sub (Pieces tf) (i * 20) (Suc i * 20)"
    using h by (auto simp: go_slice_Ret nat_mult_distrib nat_add_distrib)
qed

lemma sub_concat: "0 < N \<Longrightarrow> concat (map (\<lambda>i. sub data (i * N) (min (Suc i * N) (length data))) [0..<m]) = take (m * N) data"
proof (induction m)
  case (Suc m)
  have "take (m * N) data @ sub data (m * N) (min (Suc m * N) (length data)) = take (Suc m * N) data"
    using sub_split [of 0 "m * N" "Suc m * N" data] by (simp add: sub_def min_def)
  with Suc show ?case by simp
qed simp

section \<open>Theorems\<close>



text \<open>
  C28. The seeder waits for two handshakes: a peer that sends one handshake and fewer than 68
  further bytes receives our handshake and nothing else, whatever these bytes are; the
  bitfield is never sent.
\<close>
theorem seeder_waits_for_second_handshake:
  assumes "length infoHash = 20" and "rx c = handshake_bytes infoHash ext @ rest" and "length rest < 68" and "0 < tx_left c"
  shows "\<exists>c' e. handlePeer infoHash pieces n c = (Err (Ended (Reading_handshake e)), c') \<and>
    tx c' = tx c @ handshake_bytes infoHash False"
proof -
  have r: "ReceiveHandshake c = (Ret (infoHash, our_peerId), c\<lparr>rx := rest\<rparr>)"
    using handshake_fields [OF assms(1), of ext] ReadFull_append [OF assms(2), of 68]
    by (simp add: ReceiveHandshake_def io_defs)
  show ?thesis
    using assms(3,4) by (simp add: handlePeer_def r DoHandshake_def io_defs Write_def ReadFull_def)
qed

theorem seeder_waits_for_second_handshake_witness:
  "\<exists>c' e. handlePeer (replicate 20 7) [[1, 2, 3]] 1 \<lparr>rx = handshake_bytes (replicate 20 7) False @ frame MsgInterested [],
       tx = [], tx_left = 9\<rparr> = (Err (Ended (Reading_handshake e)), c') \<and> tx c' = handshake_bytes (replicate 20 7) False"
  using seeder_waits_for_second_handshake [of "replicate 20 7" "\<lparr>rx = handshake_bytes (replicate 20 7) False @ frame MsgInterested [],
       tx = [], tx_left = 9\<rparr>" False "frame MsgInterested []" "[[1, 2, 3]]" 1] by simp

text \<open>
  C27. The one panic of the seeder's loop: a peer that has declared interest and requests an
  existing piece with a begin and a length whose 32-bit sum wraps to a value within
  the piece ends the process; no other message does.
\<close>
theorem seeder_panics_iff:
  "fst (on_message pieces peerInterested mid payload c) = Panic p \<longleftrightarrow>
     mid = MsgRequest \<and> peerInterested \<and> 12 \<le> length payload \<and> req_wraps pieces payload \<and> p = Slice_bounds"
proof -
  have "fst (WriteMessages (answer pieces payload) c) \<noteq> Panic p"
    by (auto simp: answer_def io_defs WriteMessage_def Write_def split: prod.splits)
  then show ?thesis
    using on_request_eq [of payload pieces c]
    by (auto simp: on_message_def io_defs WriteMessage_def Write_def msg_ids split: outcome.splits prod.splits)
qed

text \<open>
  When \<open>LoadPieces\<close> succeeds (on a torrent whose piece length is positive), the pieces
  joined in order are the data that was read, there is one piece for every started
  piece length, and every piece has the SHA-1 the torrent lists for it.
\<close>
theorem LoadPieces_verified:
  assumes "LoadPieces sha1 fs dataPath tf = Ret ps" and "PieceLength tf = int N" and "0 < N"
    and "tf_Length tf + int N \<le> 2 ^ 63" and "tf_Length tf < 2 ^ 58"
  shows "\<exists>data. int (length data) = tf_Length tf \<and> concat ps = data \<and> length ps = ceil_div (length data) N \<and>
    (\<not> IsMultiFile tf \<longrightarrow> fs dataPath = Some data) \<and> (IsMultiFile tf \<longrightarrow> read_files fs dataPath (Files tf) = Ret data) \<and>
    (\<forall>i<length ps. string_of (sha1 (ps ! i)) = sub (Pieces tf) (i * 20) (Suc i * 20))"
proof -
  obtain data tp where r: "(if IsMultiFile tf then read_files fs dataPath (Files tf)
      else (case fs dataPath of None \<Rightarrow> Err (Reading dataPath) | Some data \<Rightarrow> Ret data)) = Ret data"
    and l: "int (length data) = tf_Length tf"
    and d: "go_div (wrap64 (wrap64 (tf_Length tf + PieceLength tf) - 1)) (PieceLength tf) = (Ret tp :: (load_error, int) outcome)"
    and m: "go_mapM (load_piece sha1 tf data) [0..<nat tp] = Ret ps"
    using assms(1) by (auto simp: LoadPieces_def simp del: if_split split: if_splits)
  let ?n = "ceil_div (length data) N"
  have len: "int (length data) + int N \<le> 2 ^ 63" using assms(4) l by simp
  have "tp = int ?n" using d unfolding assms(2) l [symmetric] go_ceil_div [OF assms(3) len] by simp
  then have tp: "nat tp = ?n" by simp
  have p: "load_piece sha1 tf data i = Ret (ps ! i)" "length ps = ?n" if "i < ?n" for i
    using go_mapM_nth [OF m, of i] that tp go_mapM_length [OF m] by simp_all
  have n: "length ps = ?n" using go_mapM_length [OF m] tp by simp
  note lp = load_piece_Ret [OF p(1) assms(2,3) _ len]
  have "ps = map (\<lambda>i. sub data (i * N) (min (Suc i * N) (length data))) [0..<?n]"
    using lp(1) n by (intro nth_equalityI) simp_all
  then have "concat ps = take (?n * N) data" using sub_concat [OF assms(3)] by simp
  then have c: "concat ps = data" using ceil_div_upper [OF assms(3), of "length data"] by simp
  have "i < 2 ^ 58" if "i < ?n" for i
  proof -
    have "i * 1 \<le> i * N" using assms(3) by (intro mult_le_mono2) simp
    moreover have "i * N < length data" by (rule ceil_div_lower [OF assms(3) that])
    ultimately have "int i < 2 ^ 58" using l assms(5) by linarith
    then show ?thesis by simp
  qed
  then have h: "string_of (sha1 (ps ! i)) = sub (Pieces tf) (i * 20) (Suc i * 20)" if "i < length ps" for i
    using lp(2) that n by simp
  have "(\<not> IsMultiFile tf \<longrightarrow> fs dataPath = Some data) \<and> (IsMultiFile tf \<longrightarrow> read_files fs dataPath (Files tf) = Ret data)"
    using r by (auto split: if_splits option.splits)
  then show ?thesis using l c n h by blast
qed

definition demo_seed :: TorrentFile where
  "demo_seed = \<lparr>Announce = [], InfoHash = [], InfoHashHex = [], PieceLength = 2, tf_Length = 3, tf_Name = [],
     Pieces = string_of (demo_sha1 [1, 2] @ demo_sha1 [3]), Files = [], IsMultiFile = False\<rparr>"

theorem LoadPieces_verified_witness:
  "LoadPieces demo_sha1 (\<lambda>_. Some [1, 2, 3]) ''f'' demo_seed = Ret [[1, 2], [3]] \<and>
   (\<exists>data. int (length data) = tf_Length demo_seed \<and> concat [[1, 2], [3]] = data)"
proof -
  have l: "LoadPieces demo_sha1 (\<lambda>_. Some [1, 2, 3]) ''f'' demo_seed = Ret [[1, 2], [3]]" by code_simp
  show ?thesis using LoadPieces_verified [OF l, of 2] l by (auto simp: demo_seed_def)
qed

end
