(* ===== verification/File_Writer.thy ===== *)
theory File_Writer
  imports Seeder
begin

text \<open>
  The splitting of the data of a multi-file torrent into its files, \<^verbatim>\<open>src/download/filewriter.go\<close>.
  \<open>os.MkdirAll\<close> and \<open>os.WriteFile\<close> act on a map of files, and two arguments tell on which paths
  they succeed.
\<close>

section \<open>The model\<close>

datatype write_error = Creating_directory string | Writing string

type_synonym files = "(string, byte list) gomap"

text \<open>The loop of \<open>WriteFiles\<close>; \<open>os.WriteFile\<close> creates the file or replaces what is there.\<close>

fun write_files ::
    "(string \<Rightarrow> bool) \<Rightarrow> (string \<Rightarrow> bool) \<Rightarrow> string \<Rightarrow> byte list \<Rightarrow> int \<Rightarrow> FileEntry list \<Rightarrow> files
       \<Rightarrow> (write_error, unit) outcome \<times> files" where
  "write_files mkdir_ok write_ok baseDir data offset [] fs = (Ret (), fs)"
| "write_files mkdir_ok write_ok baseDir data offset (f # files) fs =
     (let filePath = filepath_Join (baseDir # fe_Path f); dir = filepath_Dir filePath in
      if \<not> mkdir_ok dir then (Err (Creating_directory dir), fs)
      else
        (let stop = wrap64 (offset + fe_Length f);
             stop = (if stop > int (length data) then int (length data) else stop) in
         case go_slice data offset stop of
           Panic p \<Rightarrow> (Panic p, fs)
         | Err e \<Rightarrow> (Err e, fs)
         | Ret fileData \<Rightarrow>
             if \<not> write_ok filePath then (Err (Writing filePath), fs)
             else write_files mkdir_ok write_ok baseDir data stop files (map_put filePath fileData fs)))"

definition WriteFiles ::
    "(string \<Rightarrow> bool) \<Rightarrow> (string \<Rightarrow> bool) \<Rightarrow> string \<Rightarrow> TorrentFile \<Rightarrow> byte list \<Rightarrow> files \<Rightarrow> (write_error, unit) outcome \<times> files" where
  "WriteFiles mkdir_ok write_ok outputDir tf data =
     write_files mkdir_ok write_ok (filepath_Join [outputDir, tf_Name tf]) data 0 (Files tf)"

section \<open>What is written is what the seeder reads\<close>

abbreviation path_of :: "string \<Rightarrow> FileEntry \<Rightarrow> string" where
  "path_of baseDir f \<equiv> filepath_Join (baseDir # fe_Path f)"

lemma write_files_read:
  assumes "\<forall>f\<in>set files. 0 \<le> fe_Length f" and "distinct (map (path_of base) files)" and "int (length data) < 2 ^ 62"
    and "off \<le> length data" and "sum_list (map fe_Length files) = int (length data) - int off"
  shows "\<exists>fs'. write_files (\<lambda>_. True) (\<lambda>_. True) base data (int off) files fs = (Ret (), fs') \<and>
    (\<forall>p. p \<notin> path_of base ` set files \<longrightarrow> map_get fs' p = map_get fs p) \<and> read_files (map_get fs') base files = Ret (drop off data)"
  using assms
proof (induction files arbitrary: off fs)
  case (Cons f files)
  define n where "n = nat (fe_Length f)"
  have s: "0 \<le> sum_list (map fe_Length files)" using Cons.prems(1) by (intro sum_list_nonneg) auto
  have n: "fe_Length f = int n" "off + n \<le> length data"
    using Cons.prems(1,4,5) s by (auto simp: n_def)
  let ?d = "sub data off (off + n)" and ?p = "path_of base f"
  have w: "wrap64 (int off + int n) = int (off + n)" using n Cons.prems(3) by (subst wrap64_nonneg) simp_all
  have g: "go_slice data (int off) (int (off + n)) = (Ret ?d :: (write_error, byte list) outcome)" using n(2) by (subst go_slice_nat) simp_all
  obtain fs' where fs': "write_files (\<lambda>_. True) (\<lambda>_. True) base data (int (off + n)) files (map_put ?p ?d fs) = (Ret (), fs')"
    "\<forall>p. p \<notin> path_of base ` set files \<longrightarrow> map_get fs' p = map_get (map_put ?p ?d fs) p"
    "read_files (map_get fs') base files = Ret (drop (off + n) data)"
    using Cons.IH [of "off + n" "map_put ?p ?d fs"] Cons.prems n by auto
  have "?p \<notin> path_of base ` set files" using Cons.prems(2) by auto
  then have "map_get fs' ?p = Some ?d" using fs'(2) by (simp add: map_get_put)
  moreover have "?d @ drop (off + n) data = drop off data" by (simp add: sub_def) (metis add.commute append_take_drop_id drop_drop)
  moreover have "write_files (\<lambda>_. True) (\<lambda>_. True) base data (int off) (f # files) fs = (Ret (), fs')"
    using fs'(1) n(2) g by (simp add: n(1) w Let_def del: of_nat_add)
  moreover have "map_get fs' p = map_get fs p" if "p \<notin> path_of base ` set (f # files)" for p
    using that fs'(2) by (auto simp: map_get_put)
  ultimately show ?case using fs'(3) by (auto simp: Let_def)
qed simp

section \<open>Paths that leave the directory\<close>

definition plain_seg :: "string \<Rightarrow> bool" where
  "plain_seg seg \<longleftrightarrow> CHR ''/'' \<notin> set seg \<and> seg \<noteq> [] \<and> seg \<noteq> ''.'' \<and> seg \<noteq> ''..''"

lemma split_path_append: "CHR ''/'' \<notin> set a \<Longrightarrow> split_path (a @ CHR ''/'' # b) = a # split_path b"
  by (induction a) auto

lemma split_path_plain: "CHR ''/'' \<notin> set a \<Longrightarrow> split_path a = [a]"
  by (induction a) auto

lemma split_join_path: "segs \<noteq> [] \<Longrightarrow> \<forall>s\<in>set segs. CHR ''/'' \<notin> set s \<Longrightarrow> split_path (join_path segs) = segs"
  by (induction segs rule: join_path.induct) (simp_all add: split_path_append split_path_plain)

lemma clean_path_plain: "list_all plain_seg segs \<Longrightarrow> clean_path r out (segs @ rest) = clean_path r (out @ segs) rest"
  by (induction segs arbitrary: out) (auto simp: plain_seg_def)

lemma clean_path_up: "list_all plain_seg out \<Longrightarrow> clean_path r out (replicate (length out) ''..'' @ rest) = clean_path r [] rest"
  by (induction out rule: rev_induct) (auto simp: plain_seg_def)

lemma join_path_append: "a \<noteq> [] \<Longrightarrow> b \<noteq> [] \<Longrightarrow> join_path (a @ b) = join_path a @ CHR ''/'' # join_path b"
proof (induction a rule: join_path.induct)
  case (2 seg)
  then show ?case by (cases b) simp_all
qed (auto simp: neq_Nil_conv)

lemma join_path_start: "segs \<noteq> [] \<Longrightarrow> hd segs \<noteq> [] \<Longrightarrow> join_path segs \<noteq> [] \<and> hd (join_path segs) = hd (hd segs)"
  by (cases segs rule: join_path.cases) auto

lemma plain_no_slash: "list_all plain_seg segs \<Longrightarrow> \<forall>s\<in>set segs. CHR ''/'' \<notin> set s"
  by (simp add: list_all_iff plain_seg_def)

lemma plain_hd: "list_all plain_seg segs \<Longrightarrow> segs \<noteq> [] \<Longrightarrow> hd segs \<noteq> [] \<and> hd (hd segs) \<noteq> CHR ''/''"
  by (cases segs) (auto simp: plain_seg_def neq_Nil_conv)

lemma Join_up:
  assumes "list_all plain_seg segs" and "segs \<noteq> []" and "list_all plain_seg rest" and "rest \<noteq> []"
  shows "filepath_Join (join_path segs # replicate (length segs) ''..'' @ rest) = join_path rest"
proof -
  let ?all = "segs @ replicate (length segs) ''..'' @ rest"
  have p: "\<forall>s\<in>set ?all. CHR ''/'' \<notin> set s"
    using plain_no_slash [OF assms(1)] plain_no_slash [OF assms(3)] by (simp add: ball_Un)
  have h: "join_path segs \<noteq> [] \<and> hd (join_path segs) = hd (hd segs)" "join_path rest \<noteq> []"
    using join_path_start [of segs] join_path_start [of rest] assms(2,4) plain_hd [OF assms(1,2)] plain_hd [OF assms(3,4)] by simp_all
  obtain s ss where s: "segs = s # ss" "s \<noteq> []" "CHR ''/'' \<notin> set s" using assms(1,2) by (auto simp: neq_Nil_conv plain_seg_def)
  have j: "join_path (join_path segs # replicate (length segs) ''..'' @ rest) = join_path ?all"
    using assms(2,4) by (cases "replicate (length segs) ''..'' @ rest") (simp_all add: join_path_append)
  have hd: "hd (join_path ?all) = hd s" "join_path ?all \<noteq> []" using join_path_start [of ?all] s by auto
  then have "hd (join_path ?all) \<noteq> CHR ''/''" using s(2,3) by (metis list.set_sel(1))
  moreover have "clean_path False [] ?all = rest"
    using clean_path_plain [OF assms(1), of False "[]"] clean_path_up [OF assms(1)] clean_path_plain [OF assms(3), of False "[]" "[]"] by simp
  ultimately have "Clean (join_path ?all) = join_path rest"
    using hd(2) h(2) split_join_path [OF _ p] assms(2) by (simp add: Clean_def)
  then show ?thesis using h(1) by (simp add: filepath_Join_def j)
qed

section \<open>Theorems\<close>

text \<open>
  C15. What \<open>WriteFiles\<close> writes, the seeder reads: when the lengths of the files add up to the data
  and no two files have one path, all files are written, and \<open>LoadPieces\<close> on the directory
  behaves as it does on the data in a single file.
\<close>
theorem written_files_seed:
  assumes "\<forall>f\<in>set (Files tf). 0 \<le> fe_Length f" and "sum_list (map fe_Length (Files tf)) = int (length data)"
    and "distinct (map (\<lambda>f. filepath_Join (filepath_Join [out, tf_Name tf] # fe_Path f)) (Files tf))"
    and "int (length data) < 2 ^ 62" and "IsMultiFile tf"
  shows "\<exists>fs'. WriteFiles (\<lambda>_. True) (\<lambda>_. True) out tf data fs = (Ret (), fs') \<and>
    LoadPieces sha1 (map_get fs') (filepath_Join [out, tf_Name tf]) tf =
      LoadPieces sha1 (\<lambda>_. Some data) (filepath_Join [out, tf_Name tf]) (tf\<lparr>IsMultiFile := False\<rparr>)"
proof -
  obtain fs' where "WriteFiles (\<lambda>_. True) (\<lambda>_. True) out tf data fs = (Ret (), fs')"
    "read_files (map_get fs') (filepath_Join [out, tf_Name tf]) (Files tf) = Ret data"
    using write_files_read [OF assms(1,3,4), of 0 fs] assms(2) by (auto simp: WriteFiles_def)
  moreover have "load_piece sha1 (tf\<lparr>IsMultiFile := False\<rparr>) = load_piece sha1 tf"
    by (intro ext) (simp add: load_piece_def)
  ultimately show ?thesis using assms(5) by (simp add: LoadPieces_def)
qed

definition demo_multi :: TorrentFile where
  "demo_multi = demo_seed\<lparr>tf_Name := ''t'', IsMultiFile := True,
     Files := [\<lparr>fe_Length = 1, fe_Path = [''a'']\<rparr>, \<lparr>fe_Length = 2, fe_Path = [''d'', ''b'']\<rparr>]\<rparr>"

theorem written_files_seed_witness:
  "\<exists>fs'. WriteFiles (\<lambda>_. True) (\<lambda>_. True) ''o'' demo_multi [1, 2, 3] [] = (Ret (), fs') \<and>
     LoadPieces demo_sha1 (map_get fs') ''o/t'' demo_multi = LoadPieces demo_sha1 (\<lambda>_. Some [1, 2, 3]) ''o/t'' (demo_multi\<lparr>IsMultiFile := False\<rparr>)"
proof -
  have j: "filepath_Join [''o'', tf_Name demo_multi] = ''o/t''" "distinct (map (\<lambda>f. filepath_Join (''o/t'' # fe_Path f)) (Files demo_multi))"
    by code_simp+
  show ?thesis
    using written_files_seed [of demo_multi "[1, 2, 3]" "''o''" "[]" demo_sha1] j by (simp add: demo_multi_def)
qed

text \<open>
  C16. The path of a file is not confined: for an output directory of plain components, a file
  whose path starts with as many \<open>..\<close> as the directory and the torrent's name have components
  is written at the rest of its path, outside the output directory.
\<close>
theorem path_escapes:
  assumes "list_all plain_seg (segs @ [tf_Name tf])" and "segs \<noteq> []" and "list_all plain_seg rest" and "rest \<noteq> []"
    and "Files tf = [\<lparr>fe_Length = int (length data), fe_Path = replicate (Suc (length segs)) ''..'' @ rest\<rparr>]" and "int (length data) < 2 ^ 62"
  shows "\<exists>fs'. WriteFiles (\<lambda>_. True) (\<lambda>_. True) (join_path segs) tf data fs = (Ret (), fs') \<and> map_get fs' (join_path rest) = Some data"
proof -
  have n: "filepath_Join [join_path segs, tf_Name tf] = join_path (segs @ [tf_Name tf])"
  proof -
    let ?all = "segs @ [tf_Name tf]"
    have p: "\<forall>s\<in>set ?all. CHR ''/'' \<notin> set s" by (rule plain_no_slash [OF assms(1)])
    have "hd ?all \<noteq> []" "hd (hd ?all) \<noteq> CHR ''/''"
      using plain_hd [OF assms(1)] by simp_all
    then have h: "join_path ?all \<noteq> []" "hd (join_path ?all) \<noteq> CHR ''/''" using join_path_start [of ?all] by auto
    have "join_path segs \<noteq> []" using join_path_start [of segs] assms(1,2) by (auto simp: neq_Nil_conv plain_seg_def)
    moreover have "join_path [join_path segs, tf_Name tf] = join_path ?all" using assms(2) by (simp add: join_path_append)
    ultimately show ?thesis
      using h split_join_path [OF _ p] clean_path_plain [OF assms(1), of False "[]" "[]"] by (simp add: filepath_Join_def Clean_def)
  qed
  let ?base = "join_path (segs @ [tf_Name tf])"
  have j: "filepath_Join (?base # replicate (Suc (length segs)) ''..'' @ rest) = join_path rest"
    using Join_up [OF assms(1) _ assms(3,4)] by simp
  obtain fs' where "write_files (\<lambda>_. True) (\<lambda>_. True) ?base data 0 (Files tf) fs = (Ret (), fs')"
    and r: "read_files (map_get fs') ?base (Files tf) = Ret data"
    using write_files_read [of "Files tf" ?base data 0 fs] assms(5,6) by auto
  moreover have "map_get fs' (join_path rest) = Some data"
    using r unfolding assms(5) read_files.simps Let_def FileEntry.simps j by (simp split: option.splits)
  ultimately show ?thesis by (auto simp: WriteFiles_def n)
qed

theorem path_escapes_witness:
  "\<exists>fs'. WriteFiles (\<lambda>_. True) (\<lambda>_. True) ''out'' (demo_multi\<lparr>Files := [\<lparr>fe_Length = 1, fe_Path = [''..'', ''..'', ''.bashrc'']\<rparr>]\<rparr>) [9] [] = (Ret (), fs') \<and>
     map_get fs' ''.bashrc'' = Some [9]"
  using path_escapes [of "[''out'']" "demo_multi\<lparr>Files := [\<lparr>fe_Length = 1, fe_Path = [''..'', ''..'', ''.bashrc'']\<rparr>]\<rparr>" "[''.bashrc'']" "[9]" "[]"]
  by (simp add: plain_seg_def demo_multi_def demo_seed_def)

end
