(* ===== verification/Download.thy ===== *)
theory Download
  imports Peer_Client Picker_New Seeder
begin

text \<open>
  The sequential download, \<^verbatim>\<open>src/download/download.go\<close>: a piece is tried three times and verified,
  a file is downloaded piece by piece. SHA-1 is an argument.
\<close>

section \<open>Pieces\<close>

datatype download_error =
    Attempt_failed nat client_error | Attempt_mismatch nat int | Piece_failed int download_error

text \<open>The attempts of \<open>Piece\<close>, from attempt \<open>k\<close> on; \<open>lastErr\<close> is that of the attempt before.\<close>

fun piece_attempts ::
    "(byte list \<Rightarrow> byte list) \<Rightarrow> string \<Rightarrow> int \<Rightarrow> int \<Rightarrow> nat list \<Rightarrow> download_error option \<Rightarrow> Client
       \<Rightarrow> (download_error, byte list) outcome \<times> Client" where
  "piece_attempts sha1_Sum pcs pieceIndex pieceLength [] lastErr c =
     (Err (Piece_failed pieceIndex (the lastErr)), c)"
| "piece_attempts sha1_Sum pcs pieceIndex pieceLength (attempt # attempts) lastErr c =
     (case DownloadPiece pieceIndex pieceLength c of
        (Panic p, c) \<Rightarrow> (Panic p, c)
      | (Err e, c) \<Rightarrow> piece_attempts sha1_Sum pcs pieceIndex pieceLength attempts (Some (Attempt_failed attempt e)) c
      | (Ret pieceData, c) \<Rightarrow>
          (case go_slice pcs (wrap64 (pieceIndex * 20)) (wrap64 ((pieceIndex + 1) * 20)) of
             Panic p \<Rightarrow> (Panic p, c)
           | Err e \<Rightarrow> (Err e, c)
           | Ret expectedHash \<Rightarrow>
               if string_of (sha1_Sum pieceData) \<noteq> expectedHash
               then piece_attempts sha1_Sum pcs pieceIndex pieceLength attempts (Some (Attempt_mismatch attempt pieceIndex)) c
               else (Ret pieceData, c)))"

definition Piece ::
    "(byte list \<Rightarrow> byte list) \<Rightarrow> string \<Rightarrow> int \<Rightarrow> int \<Rightarrow> Client \<Rightarrow> (download_error, byte list) outcome \<times> Client" where
  "Piece sha1_Sum pcs pieceIndex pieceLength = piece_attempts sha1_Sum pcs pieceIndex pieceLength [1, 2, 3] None"

fun file_pieces ::
    "(byte list \<Rightarrow> byte list) \<Rightarrow> string \<Rightarrow> int \<Rightarrow> int \<Rightarrow> int \<Rightarrow> nat list \<Rightarrow> byte list \<Rightarrow> Client
       \<Rightarrow> (download_error, byte list) outcome \<times> Client" where
  "file_pieces sha1_Sum pcs totalLength normalPieceLength totalPieces [] fileData = io_ret fileData"
| "file_pieces sha1_Sum pcs totalLength normalPieceLength totalPieces (i # is) fileData =
     (let pieceLength = (if int i = totalPieces - 1 then wrap64 (totalLength - wrap64 (int i * normalPieceLength)) else normalPieceLength) in
      io_bind (Piece sha1_Sum pcs (int i) pieceLength) (\<lambda>pieceData.
        file_pieces sha1_Sum pcs totalLength normalPieceLength totalPieces is (fileData @ pieceData)))"

definition File ::
    "(byte list \<Rightarrow> byte list) \<Rightarrow> string \<Rightarrow> int \<Rightarrow> int \<Rightarrow> Client \<Rightarrow> (download_error, byte list) outcome \<times> Client" where
  "File sha1_Sum pcs totalLength normalPieceLength =
     io_bind (io_lift (go_div (wrap64 (wrap64 (totalLength + normalPieceLength) - 1)) normalPieceLength)) (\<lambda>totalPieces.
     io_bind (io_lift (go_make totalLength)) (\<lambda>_.
       file_pieces sha1_Sum pcs totalLength normalPieceLength totalPieces [0..<nat totalPieces] []))"

section \<open>A piece that is returned is verified\<close>

lemma place_block_length: "place_block p d = Ret d' \<Longrightarrow> length d' = length d"
proof -
  assume p: "place_block p d = Ret d'"
  then have "unat (Uint32 (sub p 4 8)) \<le> length d" "d' = go_copy d (unat (Uint32 (sub p 4 8))) (drop 8 p)"
    by (simp_all only: place_block_def Let_def int_of_u32_unat of_nat_less_iff not_less outcome.inject outcome.distinct split: if_splits)
  then show "length d' = length d" by simp
qed

lemma receive_blocks_length: "receive_blocks n d c = (Ret d', c') \<Longrightarrow> length d' = length d"
proof (induction n d c rule: receive_blocks.induct)
  case (2 n d c)
  then show ?case
    by (subst (asm) receive_blocks.simps(2))
      (auto split: prod.splits outcome.splits option.splits if_splits dest: place_block_length)
qed simp

lemma DownloadPiece_length: "DownloadPiece i l c = (Ret d, c') \<Longrightarrow> 0 \<le> l \<and> length d = nat l"
  by (auto simp: DownloadPiece_def io_bind_Ret_iff io_lift_def go_make_def split: if_splits dest!: receive_blocks_length)

lemma piece_attempts_verified:
  "piece_attempts sha1 pcs i l ks e c = (Ret d, c') \<Longrightarrow>
     0 \<le> l \<and> length d = nat l \<and> go_slice pcs (wrap64 (i * 20)) (wrap64 ((i + 1) * 20)) = (Ret (string_of (sha1 d)) :: (download_error, string) outcome)"
  by (induction ks arbitrary: e c)
    (auto split: prod.splits outcome.splits if_splits dest!: DownloadPiece_length)

lemmas Piece_verified = piece_attempts_verified [of _ _ _ _ "[1, 2, 3]" None, folded Piece_def]

lemma piece_lens_sum:
  assumes "0 < N"
  shows "sum_list (map (piece_len L N) [0..<ceil_div L N]) = L"
proof (cases "ceil_div L N")
  case 0
  then show ?thesis using ceil_div_upper [OF assms, of L] by simp
next
  case (Suc m)
  have "map (piece_len L N) [0..<m] = map (\<lambda>_. N) [0..<m]" by (rule map_cong) (auto simp: piece_len_def Suc)
  then have "sum_list (map (piece_len L N) [0..<m]) = m * N" by (simp only: sum_list_triv length_upt diff_zero of_nat_id)
  moreover have "m * N < L" using ceil_div_lower [OF assms] Suc by simp
  ultimately show ?thesis by (simp add: Suc piece_len_def)
qed

lemma file_piece_length:
  assumes "0 < N" and "i < ceil_div L N" and "int L + int N \<le> 2 ^ 63"
  shows "(if int i = int (ceil_div L N) - 1 then wrap64 (int L - wrap64 (int i * int N)) else int N) = int (piece_len L N i)"
proof -
  have l: "i * N < L" by (rule ceil_div_lower [OF assms(1,2)])
  then have "wrap64 (int i * int N) = int (i * N)" using assms(3) by (subst wrap64_nonneg) (simp_all flip: of_nat_mult)
  moreover have "wrap64 (int L - int (i * N)) = int (L - i * N)" using l assms(1,3) by (subst wrap64_nonneg) (simp_all add: of_nat_diff del: of_nat_mult)
  ultimately show ?thesis using assms(2) by (auto simp: piece_len_def)
qed

lemma file_pieces_verified:
  assumes "0 < N" and "int L + int N \<le> 2 ^ 63" and "L < 2 ^ 58"
  shows "file_pieces sha1 pcs (int L) (int N) (int (ceil_div L N)) is fd c = (Ret data, c') \<Longrightarrow>
    \<forall>i\<in>set is. i < ceil_div L N \<Longrightarrow>
    \<exists>ds. data = fd @ concat ds \<and> map length ds = map (piece_len L N) is \<and>
      map (\<lambda>d. string_of (sha1 d)) ds = map (\<lambda>i. sub pcs (i * 20) (Suc i * 20)) is"
proof (induction "is" arbitrary: fd c)
  case Nil
  then show ?case by (auto simp: io_ret_def)
next
  case (Cons i "is")
  then have i: "i < ceil_div L N" by simp
  obtain d c1 where d: "Piece sha1 pcs (int i) (int (piece_len L N i)) c = (Ret d, c1)"
    and r: "file_pieces sha1 pcs (int L) (int N) (int (ceil_div L N)) is (fd @ d) c1 = (Ret data, c')"
    using Cons.prems(1) unfolding file_pieces.simps Let_def file_piece_length [OF assms(1) i assms(2)] io_bind_Ret_iff by blast
  have "i * 1 \<le> i * N" using assms(1) by (intro mult_le_mono2) simp
  then have "i < 2 ^ 58" using ceil_div_lower [OF assms(1) i] assms(3) by linarith
  then have w: "wrap64 (int i * 20) = int (i * 20)" "wrap64 ((int i + 1) * 20) = int (Suc i * 20)"
    by (subst wrap64_nonneg; simp)+
  have "length d = piece_len L N i" "string_of (sha1 d) = sub pcs (i * 20) (Suc i * 20)"
    using Piece_verified [OF d] unfolding w by (simp_all only: go_slice_Ret nat_int)
  moreover obtain ds where "data = (fd @ d) @ concat ds" "map length ds = map (piece_len L N) is"
    "map (\<lambda>d. string_of (sha1 d)) ds = map (\<lambda>i. sub pcs (i * 20) (Suc i * 20)) is"
    using Cons.IH [OF r] Cons.prems(2) by auto
  ultimately show ?case by (intro exI [of _ "d # ds"]) simp
qed

lemma File_pieces:
  assumes "0 < N" and "int L + int N \<le> 2 ^ 63" and "L < 2 ^ 48"
  shows "File sha1 pcs (int L) (int N) = file_pieces sha1 pcs (int L) (int N) (int (ceil_div L N)) [0..<ceil_div L N] []"
  using assms(3) unfolding File_def go_ceil_div [OF assms(1,2)] by (auto simp: io_bind_def io_lift_def go_make_def)

section \<open>A peer that sends what it is asked for\<close>

text \<open>The piece of \<open>data\<close> with index \<open>i\<close>.\<close>

definition nth_piece :: "byte list \<Rightarrow> nat \<Rightarrow> nat \<Rightarrow> byte list" where
  "nth_piece data N i = sub data (i * N) (Suc i * N)"

definition piece_blocks :: "byte list \<Rightarrow> nat \<Rightarrow> nat \<Rightarrow> byte list list" where
  "piece_blocks data N i =
     map (block_msg (u32 (int i)) (nth_piece data N i)) [0..<ceil_div (length (nth_piece data N i)) 16384]"

lemma length_nth_piece: "0 < N \<Longrightarrow> i < ceil_div (length data) N \<Longrightarrow> length (nth_piece data N i) = piece_len (length data) N i"
  using piece_len_min [of N i "length data"] ceil_div_lower [of N i "length data"]
  by (cases "N + i * N \<le> length data") (auto simp: nth_piece_def min_def)

lemma concat_nth_piece: "0 < N \<Longrightarrow> concat (map (nth_piece data N) [0..<ceil_div (length data) N]) = data"
proof -
  assume N: "0 < N"
  have "nth_piece data N i = sub data (i * N) (min (Suc i * N) (length data))" for i
    by (simp add: nth_piece_def sub_def min_def take_all)
  then show ?thesis using sub_concat [OF N, of data "ceil_div (length data) N"] ceil_div_upper [OF N, of "length data"]
    by (simp cong: map_cong)
qed

lemma file_pieces_reads:
  assumes "0 < N" and "int N < 2 ^ 32" and "length data < 2 ^ 48" and "L = length data"
    and "\<forall>i\<in>set is. i < ceil_div L N \<and> string_of (sha1 (nth_piece data N i)) = sub pcs (i * 20) (Suc i * 20) \<and> Suc i * 20 \<le> length pcs"
    and "reads ms c" and "piece_payloads ms = concat pss" and "list_all2 (\<lambda>i ps. mset ps = mset (piece_blocks data N i)) is pss"
    and "length (concat pss) \<le> tx_left (cl_Conn c)"
  shows "\<exists>c'. file_pieces sha1 pcs (int L) (int N) (int (ceil_div L N)) is fd c = (Ret (fd @ concat (map (nth_piece data N) is)), c')"
  using assms(5-)
proof (induction "is" arbitrary: fd c ms pss)
  case Nil
  then show ?case by (simp add: io_ret_def)
next
  case (Cons i "is")
  then obtain ps qss where p: "pss = ps # qss" "mset ps = mset (piece_blocks data N i)"
    "list_all2 (\<lambda>i ps. mset ps = mset (piece_blocks data N i)) is qss" by (auto simp: list_all2_Cons1)
  have i: "i < ceil_div L N" "Suc i * 20 \<le> length pcs" using Cons.prems(1) by auto
  let ?d = "nth_piece data N i"
  have l: "length ?d = piece_len L N i" using length_nth_piece [OF assms(1)] i(1) assms(4) by simp
  have b: "0 < length ?d" "int (length ?d) < 2 ^ 32"
    using piece_len_bounds(1,2) [OF assms(1) i(1)] assms(2) unfolding l by simp_all
  have t: "length ps = ceil_div (length ?d) 16384" using mset_eq_length [OF p(2)] by (simp add: piece_blocks_def)
  obtain c1 ms1 where c1: "DownloadPiece (int i) (int (length ?d)) c = (Ret ?d, c1)" "reads ms1 c1"
    "piece_payloads ms1 = concat qss" "tx_left (cl_Conn c1) = tx_left (cl_Conn c) - length ps"
    using DownloadPiece_reads [OF b _ Cons.prems(2), of ps "concat qss" "u32 (int i)" "int i"] Cons.prems(3,4,5) p t
    unfolding piece_blocks_def by auto
  have "i * 1 \<le> i * N" using assms(1) by (intro mult_le_mono2) simp
  then have "i < 2 ^ 48" using ceil_div_lower [OF assms(1) i(1)] assms(3,4) by linarith
  then have w: "wrap64 (int i * 20) = int (i * 20)" "wrap64 ((int i + 1) * 20) = int (Suc i * 20)"
    by (subst wrap64_nonneg; simp)+
  have "go_slice pcs (int (i * 20)) (int (Suc i * 20)) = (Ret (string_of (sha1 ?d)) :: (download_error, string) outcome)"
    using Cons.prems(1) i(2) by (subst go_slice_nat) auto
  then have "Piece sha1 pcs (int i) (int (length ?d)) c = (Ret ?d, c1)"
    unfolding Piece_def piece_attempts.simps w c1(1) by simp
  moreover have "\<exists>c'. file_pieces sha1 pcs (int L) (int N) (int (ceil_div L N)) is (fd @ ?d) c1 =
      (Ret ((fd @ ?d) @ concat (map (nth_piece data N) is)), c')"
    using Cons.IH [OF _ c1(2,3) p(3), of "fd @ ?d"] Cons.prems(1,5) c1(4) p(1) by auto
  moreover have "int L + int N \<le> 2 ^ 63" using assms(2-4) by simp
  ultimately show ?case
    unfolding file_pieces.simps Let_def file_piece_length [OF assms(1) i(1) \<open>int L + int N \<le> 2 ^ 63\<close>] l [symmetric]
    by (simp add: io_bind_def)
qed

lemma File_complete:
  assumes "0 < N" and "int N < 2 ^ 32" and "length data < 2 ^ 48"
    and "pcs = concat (map (\<lambda>i. string_of (sha1 (nth_piece data N i))) [0..<ceil_div (length data) N])" and "\<forall>d. length (sha1 d) = 20"
    and "reads ms c" and "piece_payloads ms = concat pss"
    and "list_all2 (\<lambda>i ps. mset ps = mset (piece_blocks data N i)) [0..<ceil_div (length data) N] pss"
    and "length (concat pss) \<le> tx_left (cl_Conn c)"
  shows "\<exists>c'. File sha1 pcs (int (length data)) (int N) c = (Ret data, c')"
proof -
  let ?n = "ceil_div (length data) N" and ?h = "\<lambda>i. string_of (sha1 (nth_piece data N i))"
  have l: "\<forall>x\<in>set (map ?h [0..<?n]). length x = 20" using assms(5) by simp
  have "i < ?n \<and> ?h i = sub pcs (i * 20) (Suc i * 20) \<and> Suc i * 20 \<le> length pcs" if "i < ?n" for i
    using that sub_concat_fixed [OF l, of i] length_concat_fixed [OF l] unfolding assms(4) by simp
  then have "\<forall>i\<in>set [0..<?n]. i < ?n \<and> ?h i = sub pcs (i * 20) (Suc i * 20) \<and> Suc i * 20 \<le> length pcs" by simp
  then show ?thesis
    using file_pieces_reads [OF assms(1-3) refl _ assms(6-9), of sha1 pcs "[]"] File_pieces [OF assms(1) _ assms(3)] assms(2,3)
      concat_nth_piece [OF assms(1), of data] by auto
qed

definition toy_hash :: "byte list \<Rightarrow> byte list" where
  "toy_hash d = take 20 (d @ replicate 20 0)"

text \<open>Three bytes in two pieces.\<close>

definition demo_hashes :: string where
  "demo_hashes = concat (map (\<lambda>i. string_of (toy_hash (nth_piece [5, 6, 7] 2 i))) [0..<2])"

definition demo_sender :: Client where
  "demo_sender = demo_client (concat (map wire_bytes [Some (MsgPiece, block_msg 0 [5, 6] 0), None, Some (MsgPiece, block_msg 1 [7] 0)]))"

lemma demo_stream:
  "reads [Some (MsgPiece, block_msg 0 [5, 6] 0), None, Some (MsgPiece, block_msg 1 [7] 0)] demo_sender"
  "ceil_div 3 2 = 2" "ceil_div (Suc (Suc (Suc 0))) 2 = 2" "[0..<2] = [0, Suc 0]"
  "piece_blocks [5, 6, 7] 2 0 = [block_msg 0 [5, 6] 0]" "piece_blocks [5, 6, 7] 2 (Suc 0) = [block_msg 1 [7] 0]"
  "\<forall>d. length (toy_hash d) = 20" "length [[block_msg 0 [5, 6] 0], [block_msg 1 [7] 0]] \<le> tx_left (cl_Conn demo_sender)"
proof -
  have n: "ceil_div (Suc (Suc 0)) 16384 = 1" "ceil_div (Suc 0) 16384 = 1" by (simp_all add: ceil_div_def)
  have p: "nth_piece [5, 6, 7] 2 0 = [5, 6]" "nth_piece [5, 6, 7] 2 (Suc 0) = [7]" by (simp_all add: nth_piece_def sub_def)
  show "piece_blocks [5, 6, 7] 2 0 = [block_msg 0 [5, 6] 0]" "piece_blocks [5, 6, 7] 2 (Suc 0) = [block_msg 1 [7] 0]"
    by (simp_all add: piece_blocks_def p n u32_def)
  show "ceil_div 3 2 = 2" "ceil_div (Suc (Suc (Suc 0))) 2 = 2" by (simp_all add: ceil_div_def)
  show "\<forall>d. length (toy_hash d) = 20" by (auto simp: toy_hash_def)
qed (simp_all add: upt_rec numeral_2_eq_2 reads_def demo_sender_def demo_client_def new_client_def
    wire_ok_def msg_ok_def block_msg_def sub_def)

lemma demo_download: "\<exists>c'. File toy_hash demo_hashes 3 2 demo_sender = (Ret [5, 6, 7], c')"
  using File_complete [of 2 "[5, 6, 7]" demo_hashes toy_hash _ demo_sender "[[block_msg 0 [5, 6] 0], [block_msg 1 [7] 0]]", OF _ _ _ _ _ demo_stream(1)]
  by (simp add: demo_stream demo_hashes_def) (use demo_stream(8) in simp)

section \<open>Theorems\<close>

text \<open>
  What \<open>File\<close> returns has the length of the torrent and consists of pieces that have, each, the
  length and the SHA-1 the torrent lists.
\<close>
theorem File_verified:
  assumes "File sha1 pcs (int L) (int N) c = (Ret data, c')" and "0 < N" and "int L + int N \<le> 2 ^ 63" and "L < 2 ^ 48"
  shows "length data = L \<and> (\<exists>ds. data = concat ds \<and> map length ds = map (piece_len L N) [0..<ceil_div L N] \<and>
    map (\<lambda>d. string_of (sha1 d)) ds = map (\<lambda>i. sub pcs (i * 20) (Suc i * 20)) [0..<ceil_div L N])"
proof -
  have "L < 2 ^ 58" using assms(4) by simp
  then obtain ds where "data = concat ds" "map length ds = map (piece_len L N) [0..<ceil_div L N]"
    "map (\<lambda>d. string_of (sha1 d)) ds = map (\<lambda>i. sub pcs (i * 20) (Suc i * 20)) [0..<ceil_div L N]"
    using file_pieces_verified [OF assms(2,3), of sha1 pcs "[0..<ceil_div L N]" "[]" c data c'] assms(1)
    unfolding File_pieces [OF assms(2-4)] by auto
  then show ?thesis using piece_lens_sum [OF assms(2), of L] by (auto simp: length_concat)
qed

theorem File_verified_witness:
  "\<exists>data c'. File toy_hash demo_hashes 3 2 demo_sender = (Ret data, c') \<and> length data = 3"
proof -
  obtain c' where d: "File toy_hash demo_hashes (int 3) (int 2) demo_sender = (Ret [5, 6, 7], c')" using demo_download by auto
  show ?thesis using File_verified [OF d] d by simp
qed

text \<open>
  C14. A peer that sends the blocks of the pieces in the order in which they are asked for, the
  blocks of one piece in any order, among keepalives and other messages, is downloaded
  completely: \<open>File\<close> returns the data, provided the torrent lists its hashes.
\<close>
theorem File_downloads:
  assumes "0 < N" and "int N < 2 ^ 32" and "length data < 2 ^ 48"
    and "pcs = concat (map (\<lambda>i. string_of (sha1 (nth_piece data N i))) [0..<ceil_div (length data) N])" and "\<forall>d. length (sha1 d) = 20"
    and "reads ms c" and "piece_payloads ms = concat pss"
    and "list_all2 (\<lambda>i ps. mset ps = mset (piece_blocks data N i)) [0..<ceil_div (length data) N] pss"
    and "length (concat pss) \<le> tx_left (cl_Conn c)"
  shows "\<exists>c'. File sha1 pcs (int (length data)) (int N) c = (Ret data, c')"
  using assms by (rule File_complete)

theorem File_downloads_witness:
  "\<exists>c'. File toy_hash demo_hashes 3 2 demo_sender = (Ret [5, 6, 7], c')"
  using File_downloads [of 2 "[5, 6, 7]" demo_hashes toy_hash _ demo_sender "[[block_msg 0 [5, 6] 0], [block_msg 1 [7] 0]]", OF _ _ _ _ _ demo_stream(1)]
  by (simp add: demo_stream demo_hashes_def) (use demo_stream(8) in simp)

end
