(* ===== verification/Session.thy ===== *)
theory Session
  imports Manager_Correct Pool File_Writer Tracker
begin

text \<open>
  A download session, \<^verbatim>\<open>src/download/session.go\<close>, and the start of the manager that it runs
  (\<^verbatim>\<open>src/download/manager.go\<close>): one goroutine runs the manager, one dials candidates of the
  pool, one asks for more peers, every dial is a goroutine of its own, and the caller waits.
  A run is a sequence of actions of these goroutines, in any order. An action goes from one
  use of shared state to the next; the network, the clock and the traversal order of a
  map are arguments of the action.
\<close>

section \<open>The model\<close>

record Session =
  maxConnections :: int
  maxWorkers :: int

definition NewSession :: "int \<Rightarrow> int \<Rightarrow> Session" where
  "NewSession mc mw = \<lparr>maxConnections = mc, maxWorkers = mw\<rparr>"

text \<open>
  What \<open>Start\<close> does to the file of the download before its loop. The file is opened without
  \<open>O_TRUNC\<close>, so it keeps what it has; \<open>Truncate\<close> refuses a negative size.
\<close>

datatype start_error = Start_directory string | Opening_file string | Setting_file_size string

definition Start_file ::
    "(string \<Rightarrow> bool) \<Rightarrow> (string \<Rightarrow> bool) \<Rightarrow> (string \<Rightarrow> bool) \<Rightarrow> string \<Rightarrow> int \<Rightarrow> files \<Rightarrow> (start_error, unit) outcome \<times> files" where
  "Start_file mkdir_ok open_ok truncate_ok destPath len fs =
     (let dir = filepath_Dir destPath in
      if \<not> mkdir_ok dir then (Err (Start_directory dir), fs)
      else if \<not> open_ok destPath then (Err (Opening_file destPath), fs)
      else
        (let old = (case map_get fs destPath of None \<Rightarrow> [] | Some d \<Rightarrow> d) in
         if len < 0 \<or> \<not> truncate_ok destPath then (Err (Setting_file_size destPath), map_put destPath old fs)
         else (Ret (), map_put destPath (Truncate (nat len) old) fs)))"

text \<open>A dial goroutine: inside \<open>NewClient\<close>, and between \<open>MarkSucceeded\<close> and \<open>AddPeer\<close>.\<close>

datatype dial = Dialing string | Connected string Client

fun dial_addr :: "dial \<Rightarrow> string" where
  "dial_addr (Dialing a) = a"
| "dial_addr (Connected a c) = a"

text \<open>
  The state: \<open>managing\<close> holds while the loop of \<open>Start\<close> runs and \<open>tmErrCh\<close> has what it returned if it
  failed; \<open>reported\<close> counts the calls of \<open>OnPeerDisconnect\<close> that are done and \<open>stored\<close> the pieces
  the storage loop has written; \<open>ready\<close> holds once the goroutines of \<open>Download\<close> are started;
  \<open>todo\<close> are the candidates the dialer still goes through; \<open>dials\<close> are the dial goroutines, each
  of which holds one place of \<open>dialSem\<close>.
\<close>

record session_state =
  manager :: TorrentManager
  managing :: bool
  tmErrCh :: "start_error option"
  reported :: nat
  stored :: nat
  pool :: PeerEndpointPool
  ready :: bool
  dialer :: bool
  discovery :: bool
  todo :: "string list"
  dialing :: "(string, bool) gomap"
  dials :: "dial list"
  result :: "(start_error, unit) outcome option"

definition session_init :: "string \<Rightarrow> int \<Rightarrow> int \<Rightarrow> ('e, session_state) outcome" where
  "session_init pcs len pieceLength =
     go_bind (NewTorrentManager pcs len pieceLength) (\<lambda>tm.
       Ret \<lparr>manager = tm, managing = False, tmErrCh = None, reported = 0, stored = 0, pool = NewPeerEndpointPool, ready = False,
            dialer = True, discovery = True, todo = [], dialing = [], dials = [], result = None\<rparr>)"

text \<open>The peers that a discovery found go into the pool; a failed one is only logged.\<close>

definition add_found :: "Peer list option \<Rightarrow> PeerEndpointPool \<Rightarrow> PeerEndpointPool" where
  "add_found found p = (case found of None \<Rightarrow> p | Some peers \<Rightarrow> fold (\<lambda>q. Add (Tracker.Address q)) peers p)"

definition start_downloading :: "Session \<Rightarrow> Peer list option \<Rightarrow> session_state \<Rightarrow> session_state" where
  "start_downloading ses found s =
     (let s = s\<lparr>pool := add_found found (pool s), ready := True\<rparr> in
      if maxWorkers ses < 0 then s\<lparr>result := Some (Panic Makechan_size)\<rparr> else s)"

definition discover_tick :: "Peer list option \<Rightarrow> session_state \<Rightarrow> session_state" where
  "discover_tick found s =
     (if IsCompleted (tm_Picker (manager s)) then s\<lparr>discovery := False\<rparr>
      else s\<lparr>pool := EvictDead (add_found found (pool s))\<rparr>)"

text \<open>A tick of the dialer up to its list of candidates, and one round of its loop.\<close>

definition dial_tick :: "Session \<Rightarrow> int \<Rightarrow> (string \<times> PeerEndpoint) list \<Rightarrow> session_state \<Rightarrow> session_state" where
  "dial_tick ses now order s =
     (if IsCompleted (tm_Picker (manager s)) then s\<lparr>dialer := False\<rparr>
      else
        (let activeCount = ActivePeersCount (manager s) in
         if activeCount \<ge> maxConnections ses then s
         else
           (let candidates = GetCandidates now False order;
                toDial = maxConnections ses - activeCount;
                toDial = (if toDial > int (length candidates) then int (length candidates) else toDial) in
            s\<lparr>todo := take (nat toDial) candidates\<rparr>)))"

definition dial_next :: "Session \<Rightarrow> session_state \<Rightarrow> session_state" where
  "dial_next ses s =
     (case todo s of
        [] \<Rightarrow> s
      | addr # rest \<Rightarrow>
          (let s = s\<lparr>todo := rest\<rparr> in
           if map_get (dialing s) addr = Some True then s
           else if int (length (dials s)) < maxWorkers ses
           then s\<lparr>dialing := map_put addr True (dialing s), dials := dials s @ [Dialing addr]\<rparr>
           else s))"

definition end_dial :: "nat \<Rightarrow> session_state \<Rightarrow> session_state" where
  "end_dial i s =
     s\<lparr>dialing := map_del (dial_addr (dials s ! i)) (dialing s), dials := take i (dials s) @ drop (Suc i) (dials s)\<rparr>"

definition mark_failed :: "int \<Rightarrow> string \<Rightarrow> session_state \<Rightarrow> session_state" where
  "mark_failed now addr s =
     (case Pool.MarkFailed now addr (pool s) of
        Ret p \<Rightarrow> s\<lparr>pool := p\<rparr>
      | Err e \<Rightarrow> s\<lparr>result := Some (Err e)\<rparr>
      | Panic p \<Rightarrow> s\<lparr>result := Some (Panic p)\<rparr>)"

definition dial_result :: "byte list \<Rightarrow> nat \<Rightarrow> int \<Rightarrow> conn option \<Rightarrow> byte list option \<Rightarrow> session_state \<Rightarrow> session_state option" where
  "dial_result infoHash i now conn later s =
     (if i \<ge> length (dials s) then None
      else
        (case dials s ! i of
           Connected a c \<Rightarrow> None
         | Dialing a \<Rightarrow>
             (case NewClient conn later a infoHash False of
                Err e \<Rightarrow> Some (end_dial i (mark_failed now a s))
              | Ret client \<Rightarrow> Some (s\<lparr>pool := MarkSucceeded a (pool s), dials := (dials s)[i := Connected a client]\<rparr>)
              | Panic p \<Rightarrow> Some (s\<lparr>result := Some (Panic p)\<rparr>))))"

definition add_connected :: "nat \<Rightarrow> int \<Rightarrow> session_state \<Rightarrow> session_state option" where
  "add_connected i now s =
     (if i \<ge> length (dials s) then None
      else
        (case dials s ! i of
           Dialing a \<Rightarrow> None
         | Connected a client \<Rightarrow> Some (end_dial i (s\<lparr>manager := AddPeer now client (manager s)\<rparr>))))"

text \<open>
  A round of the manager on an event; \<open>None\<close> where the round does not end. While a call of
  \<open>OnPeerDisconnect\<close> is due the manager does nothing else.
\<close>

definition manager_turn ::
    "(candidatePiece list \<Rightarrow> candidatePiece list) \<Rightarrow> (byte list \<Rightarrow> byte list) \<Rightarrow> (nat \<Rightarrow> int) \<Rightarrow> (nat \<Rightarrow> Client \<Rightarrow> Client) \<Rightarrow> string list
       \<Rightarrow> manager_event \<Rightarrow> PeerMessage list \<Rightarrow> session_state \<Rightarrow> session_state option" where
  "manager_turn srt sha1_Sum clock env order ev rest s =
     (if \<not> managing s \<or> reported s < length (disconnects (manager s)) then None
      else
        (case manager_round srt sha1_Sum clock env order ev ((manager s)\<lparr>InMessages := rest\<rparr>) of
           None \<Rightarrow> None
         | Some (Ret tm) \<Rightarrow> Some (s\<lparr>manager := tm\<rparr>)
         | Some (Err (e :: unit)) \<Rightarrow> None
         | Some (Panic p) \<Rightarrow> Some (s\<lparr>result := Some (Panic p)\<rparr>)))"

datatype session_action =
    Start_manager "(start_error, unit) outcome"
  | Start_downloading "Peer list option"
  | Discover "Peer list option"
  | Dial_tick int "(string \<times> PeerEndpoint) list"
  | Dial_next
  | Dial_result nat int "conn option" "byte list option"
  | Add_connected nat int
  | Message "nat \<Rightarrow> int" "nat \<Rightarrow> Client \<Rightarrow> Client" "string list"
  | Tick int "nat \<Rightarrow> int" "nat \<Rightarrow> Client \<Rightarrow> Client" "string list"
  | Report int
  | Client_runs string "wire_error \<Rightarrow> byte list" client_op "PeerMessage list"
  | Arrive "PeerMessage list"
  | Store
  | Manager_returns
  | Download_returns

text \<open>
  The actions. \<open>Client_runs\<close> is a step of a goroutine of an active peer and \<open>Arrive\<close> what the
  goroutines of a client that is no longer in the map of active peers send.
\<close>

definition session_step ::
    "(candidatePiece list \<Rightarrow> candidatePiece list) \<Rightarrow> (byte list \<Rightarrow> byte list) \<Rightarrow> byte list \<Rightarrow> Session \<Rightarrow> session_action \<Rightarrow> session_state
       \<Rightarrow> session_state option" where
  "session_step srt sha1_Sum infoHash ses a s =
     (if result s \<noteq> None then None
      else
        (case a of
           Start_manager r \<Rightarrow>
             if managing s \<or> tmErrCh s \<noteq> None \<or> doneCh (manager s) then None
             else (case r of Ret _ \<Rightarrow> Some (s\<lparr>managing := True\<rparr>) | Err e \<Rightarrow> Some (s\<lparr>tmErrCh := Some e\<rparr>) | Panic p \<Rightarrow> None)
         | Start_downloading found \<Rightarrow> if ready s then None else Some (start_downloading ses found s)
         | Discover found \<Rightarrow> if ready s \<and> discovery s then Some (discover_tick found s) else None
         | Dial_tick now order \<Rightarrow>
             if ready s \<and> dialer s \<and> todo s = [] \<and> range_order (endpoints (pool s)) order then Some (dial_tick ses now order s) else None
         | Dial_next \<Rightarrow> if todo s \<noteq> [] then Some (dial_next ses s) else None
         | Dial_result i now conn later \<Rightarrow> dial_result infoHash i now conn later s
         | Add_connected i now \<Rightarrow> add_connected i now s
         | Message clock env order \<Rightarrow>
             (case InMessages (manager s) of
                [] \<Rightarrow> None
              | msg # rest \<Rightarrow> manager_turn srt sha1_Sum clock env order (Ev_Message msg) rest s)
         | Tick now clock env order \<Rightarrow> manager_turn srt sha1_Sum clock env order (Ev_Tick now) (InMessages (manager s)) s
         | Report now \<Rightarrow>
             if reported s < length (disconnects (manager s))
             then Some (mark_failed now (disconnects (manager s) ! reported s) (s\<lparr>reported := Suc (reported s)\<rparr>)) else None
         | Client_runs addr err_text op msgs \<Rightarrow>
             (case map_get (activePeers (manager s)) addr of
                None \<Rightarrow> None
              | Some c \<Rightarrow>
                  Some (s\<lparr>manager := (manager s)\<lparr>activePeers := map_put addr (client_step err_text op c) (activePeers (manager s)),
                                               InMessages := InMessages (manager s) @ msgs\<rparr>\<rparr>))
         | Arrive msgs \<Rightarrow> Some (s\<lparr>manager := (manager s)\<lparr>InMessages := InMessages (manager s) @ msgs\<rparr>\<rparr>)
         | Store \<Rightarrow> if stored s < length (storageCh (manager s)) then Some (s\<lparr>stored := Suc (stored s)\<rparr>) else None
         | Manager_returns \<Rightarrow> if managing s \<and> doneCh (manager s) then Some (s\<lparr>managing := False\<rparr>) else None
         | Download_returns \<Rightarrow>
             if \<not> ready s then None
             else if doneCh (manager s) then Some (s\<lparr>result := Some (Ret ())\<rparr>)
             else (case tmErrCh s of None \<Rightarrow> None | Some e \<Rightarrow> Some (s\<lparr>result := Some (Err e)\<rparr>))))"


section \<open>The session runs the manager\<close>

definition session_next ::
    "(candidatePiece list \<Rightarrow> candidatePiece list) \<Rightarrow> (byte list \<Rightarrow> byte list) \<Rightarrow> byte list \<Rightarrow> Session \<Rightarrow> session_state \<Rightarrow> session_state \<Rightarrow> bool" where
  "session_next srt sha1_Sum infoHash ses = some_step (session_step srt sha1_Sum infoHash ses)"

lemma manager_frame [simp]:
  "manager (start_downloading ses found s) = manager s" "manager (discover_tick found s) = manager s"
  "manager (dial_tick ses now order s) = manager s" "manager (dial_next ses s) = manager s"
  "manager (end_dial i s) = manager s" "manager (mark_failed now a s) = manager s"
  by (simp_all add: start_downloading_def discover_tick_def dial_tick_def dial_next_def end_dial_def mark_failed_def Let_def
      split: list.splits outcome.splits)

lemma dial_result_manager: "dial_result ih i now conn later s = Some s' \<Longrightarrow> manager s' = manager s"
  by (auto simp: dial_result_def split: if_splits dial.splits outcome.splits)

lemma add_connected_manager:
  "add_connected i now s = Some s' \<Longrightarrow> \<exists>c. manager s' = AddPeer now c (manager s)"
  by (auto simp: add_connected_def split: if_splits dial.splits)

lemma manager_turn_manager:
  assumes "manager_turn srt sha1 clock env order ev rest s = Some s'"
  shows "(manager_next srt sha1)\<^sup>*\<^sup>* (manager s) (manager s')"
proof -
  let ?tm = "(manager s)\<lparr>InMessages := rest\<rparr>"
  consider tm where "manager_round srt sha1 clock env order ev ?tm = Some (Ret tm :: (unit, TorrentManager) outcome)" "manager s' = tm"
    | "manager s' = manager s"
    using assms by (auto simp: manager_turn_def split: if_splits option.splits outcome.splits)
  then show ?thesis
  proof cases
    case 1
    then have "manager_next srt sha1 (manager s) ?tm" "manager_next srt sha1 ?tm (manager s')"
      by (auto intro: manager_next.intros)
    then show ?thesis by (meson converse_rtranclp_into_rtranclp r_into_rtranclp)
  qed simp
qed

interpretation ses: simulation "session_next srt sha1 ih ses" "manager_next srt sha1" manager
proof
  fix s s' :: session_state
  assume "session_next srt sha1 ih ses s s'"
  then obtain a where a: "session_step srt sha1 ih ses a s = Some s'" by (auto simp: session_next_def some_step_def)
  show "(manager_next srt sha1)\<^sup>*\<^sup>* (manager s) (manager s')"
  proof (cases a)
    case (Add_connected i now)
    then obtain c where "manager s' = AddPeer now c (manager s)"
      using a add_connected_manager [of i now s s'] by (auto simp: session_step_def split: if_splits)
    then show ?thesis by (auto intro: manager_next.add)
  next
    case (Message clock env order)
    then show ?thesis using a by (auto simp: session_step_def split: if_splits list.splits intro: manager_turn_manager)
  next
    case (Tick now clock env order)
    then show ?thesis using a by (auto simp: session_step_def split: if_splits intro: manager_turn_manager)
  next
    case (Client_runs addr et op msgs)
    then show ?thesis
      using a by (auto simp: session_step_def split: if_splits option.splits intro!: r_into_rtranclp manager_next.client)
  next
    case (Arrive msgs)
    then show ?thesis using a by (auto simp: session_step_def split: if_splits intro!: r_into_rtranclp manager_next.arrive)
  qed (use a in \<open>auto simp: session_step_def split: if_splits outcome.splits option.splits dest: dial_result_manager\<close>)
qed



section \<open>Connections\<close>

lemma manager_turn_activePeers:
  assumes "manager_turn srt sha1 clock env order ev rest s = Some s'"
  shows "length (activePeers (manager s')) \<le> length (activePeers (manager s)) \<and> dials s' = dials s \<and> dialing s' = dialing s \<and>
    todo s' = todo s \<and> ready s' = ready s"
proof -
  consider tm where "manager_round srt sha1 clock env order ev ((manager s)\<lparr>InMessages := rest\<rparr>) = Some (Ret tm :: (unit, TorrentManager) outcome)"
      "s' = s\<lparr>manager := tm\<rparr>"
    | p where "s' = s\<lparr>result := Some (Panic p)\<rparr>"
    using assms by (auto simp: manager_turn_def split: if_splits option.splits outcome.splits)
  then show ?thesis
  proof cases
    case 1
    then show ?thesis using manager_round_frame [OF 1(1)] by simp
  qed simp
qed

lemma length_AddPeer: "length (activePeers (AddPeer now c tm)) \<le> Suc (length (activePeers tm))"
  by (simp add: AddPeer_def length_map_put split: prod.splits)

text \<open>
  A dial goroutine for each entry of \<open>dialing\<close>, one per address, no more than \<open>maxWorkers\<close>; the
  dialer counts the active peers only, so their number plus that of the dials is bounded by the
  sum of the two limits.
\<close>

definition dials_inv :: "Session \<Rightarrow> session_state \<Rightarrow> bool" where
  "dials_inv ses s \<longleftrightarrow> length (dials s) \<le> nat (maxWorkers ses) \<and> distinct (map dial_addr (dials s)) \<and>
     (\<forall>a. map_get (dialing s) a = (if a \<in> dial_addr ` set (dials s) then Some True else None)) \<and>
     length (activePeers (manager s)) + length (dials s) + length (todo s) \<le> nat (maxConnections ses) + nat (maxWorkers ses)"

lemma remove_nth:
  assumes "i < length xs" and "distinct (map f xs)"
  shows "distinct (map f (take i xs @ drop (Suc i) xs))"
    "f ` set (take i xs @ drop (Suc i) xs) = f ` set xs - {f (xs ! i)}"
proof -
  have "map f xs = map f (take i xs) @ f (xs ! i) # map f (drop (Suc i) xs)"
    using arg_cong [OF id_take_nth_drop [OF assms(1)], of "map f"] by simp
  then have "distinct (map f (take i xs) @ f (xs ! i) # map f (drop (Suc i) xs))"
    and "set (map f xs) = set (map f (take i xs) @ f (xs ! i) # map f (drop (Suc i) xs))" using assms(2) by simp_all
  then show "distinct (map f (take i xs @ drop (Suc i) xs))"
    "f ` set (take i xs @ drop (Suc i) xs) = f ` set xs - {f (xs ! i)}" by auto
qed

lemma end_dial_inv:
  assumes "dials_inv ses s" and "i < length (dials s)"
    and "length (activePeers tm) \<le> Suc (length (activePeers (manager s)))"
  shows "dials_inv ses (end_dial i (s\<lparr>manager := tm\<rparr>))"
proof -
  note r = remove_nth [where f = dial_addr, OF assms(2)]
  have "length (take i (dials s) @ drop (Suc i) (dials s)) = length (dials s) - 1" using assms(2) by simp
  then show ?thesis
    using assms r unfolding dials_inv_def end_dial_def by auto
qed

lemma dials_inv_cong:
  "dials_inv ses s \<Longrightarrow> dials s' = dials s \<Longrightarrow> dialing s' = dialing s \<Longrightarrow> length (todo s') \<le> length (todo s) \<Longrightarrow>
     length (activePeers (manager s')) \<le> length (activePeers (manager s)) \<Longrightarrow> dials_inv ses s'"
  by (auto simp: dials_inv_def)

lemma dial_next_inv: "dials_inv ses s \<Longrightarrow> dials_inv ses (dial_next ses s)"
  by (auto simp: dials_inv_def dial_next_def Let_def split: list.splits)

lemma dial_tick_inv:
  assumes "dials_inv ses s" and "todo s = []"
  shows "dials_inv ses (dial_tick ses now order s)"
proof -
  have "length (activePeers (manager s)) + length (dials s) + length (todo (dial_tick ses now order s))
      \<le> nat (maxConnections ses) + nat (maxWorkers ses)"
    using assms by (auto simp: dial_tick_def Let_def ActivePeersCount_def dials_inv_def)
  moreover have "dials (dial_tick ses now order s) = dials s" "dialing (dial_tick ses now order s) = dialing s"
    by (simp_all add: dial_tick_def Let_def)
  ultimately show ?thesis using assms(1) by (simp add: dials_inv_def)
qed

lemma dial_result_inv:
  assumes "dials_inv ses s" and "dial_result ih i now conn later s = Some s'"
  shows "dials_inv ses s'"
proof -
  obtain a where i: "i < length (dials s)" "dials s ! i = Dialing a"
    using assms(2) by (auto simp: dial_result_def split: if_splits dial.splits)
  consider "s' = end_dial i (mark_failed now a s)" | c p where "s' = s\<lparr>pool := p, dials := (dials s)[i := Connected a c]\<rparr>"
    | p where "s' = s\<lparr>result := Some (Panic p)\<rparr>"
    using assms(2) i by (auto simp: dial_result_def split: outcome.splits)
  then show ?thesis
  proof cases
    case 1
    have m: "dials_inv ses (mark_failed now a s)" "dials (mark_failed now a s) = dials s"
      using assms(1) by (auto simp: mark_failed_def dials_inv_def split: outcome.splits)
    have "(mark_failed now a s)\<lparr>manager := manager s\<rparr> = mark_failed now a s" by (simp add: mark_failed_def split: outcome.splits)
    then show ?thesis using end_dial_inv [OF m(1), of i "manager s"] i(1) unfolding 1 m(2) by (simp only: manager_frame le_SucI order_refl)
  next
    case 2
    have "map dial_addr ((dials s)[i := Connected a c]) = map dial_addr (dials s)"
      using i by (simp add: map_update_same)
    then show ?thesis using assms(1) 2 by (simp add: dials_inv_def flip: set_map)
  next
    case 3
    then show ?thesis using assms(1) by (simp add: dials_inv_def)
  qed
qed

lemma session_step_inv:
  assumes "dials_inv ses s" and "session_step srt sha1 ih ses a s = Some s'"
  shows "dials_inv ses s'"
proof (cases a)
  case (Add_connected i now)
  then obtain b c where "i < length (dials s)" "s' = end_dial i (s\<lparr>manager := AddPeer now c (manager s)\<rparr>)"
    using assms(2) by (auto simp: session_step_def add_connected_def split: if_splits dial.splits)
  then show ?thesis using end_dial_inv [OF assms(1) _ length_AddPeer] by simp
next
  case (Message clock env order)
  then obtain msg rest where "manager_turn srt sha1 clock env order (Ev_Message msg) rest s = Some s'"
    using assms(2) by (auto simp: session_step_def split: if_splits list.splits)
  from manager_turn_activePeers [OF this] show ?thesis by (intro dials_inv_cong [OF assms(1)]) auto
next
  case (Tick now clock env order)
  then have "manager_turn srt sha1 clock env order (Ev_Tick now) (InMessages (manager s)) s = Some s'"
    using assms(2) by (auto simp: session_step_def split: if_splits)
  from manager_turn_activePeers [OF this] show ?thesis by (intro dials_inv_cong [OF assms(1)]) auto
next
  case (Client_runs addr et op msgs)
  then show ?thesis
    using assms(2) by (auto simp: session_step_def length_map_put split: if_splits option.splits intro!: dials_inv_cong [OF assms(1)])
next
  case Dial_next
  then show ?thesis using assms by (auto simp: session_step_def split: if_splits intro: dial_next_inv)
next
  case (Dial_tick now order)
  then show ?thesis using assms by (auto simp: session_step_def split: if_splits intro: dial_tick_inv)
next
  case (Dial_result i now conn later)
  then show ?thesis using assms by (auto simp: session_step_def split: if_splits intro: dial_result_inv)
qed (use assms(2) in \<open>auto simp: session_step_def start_downloading_def discover_tick_def mark_failed_def Let_def
      split: if_splits outcome.splits option.splits intro!: dials_inv_cong [OF assms(1)]\<close>)

lemma session_run_inv:
  assumes "(session_next srt sha1 ih ses)\<^sup>*\<^sup>* s s'" and "dials_inv ses s"
  shows "dials_inv ses s'"
  using assms by (induction rule: rtranclp_induct) (auto simp: session_next_def some_step_def intro: session_step_inv)

lemma session_init_inv:
  assumes "session_init pcs len pl = (Ret s0 :: ('e, session_state) outcome)"
  shows "dials_inv ses s0 \<and> result s0 = None"
proof -
  obtain tm where "NewTorrentManager pcs len pl = (Ret tm :: ('e, TorrentManager) outcome)" "s0 = s0\<lparr>manager := tm\<rparr>"
    using assms by (cases "NewTorrentManager pcs len pl :: ('e, TorrentManager) outcome") (auto simp: session_init_def)
  moreover from this have "activePeers tm = []" by (auto simp: NewTorrentManager_def go_bind_Ret_iff)
  ultimately show ?thesis using assms by (auto simp: session_init_def dials_inv_def)
qed



section \<open>A dial from tick to peer\<close>

lemma next_step: "session_step srt sha1 ih ses a s = Some s' \<Longrightarrow> session_next srt sha1 ih ses s s'"
  by (auto simp: session_next_def some_step_def)

lemma redial_run:
  assumes "result s = None" and "ready s" and "dialer s" and "todo s = []" and "\<not> IsCompleted (tm_Picker (manager s))"
    and "ActivePeersCount (manager s) < maxConnections ses" and "int (length (dials s)) < maxWorkers ses"
    and "map_get (endpoints (pool s)) a = Some ep" and "Pool.Address ep = a" and "eligible now False ep"
    and "map_get (dialing s) a \<noteq> Some True" and "NewClient conn later a ih False = Ret c"
  shows "\<exists>s'. (session_next srt sha1 ih ses)\<^sup>*\<^sup>* s s' \<and> manager s' = AddPeer now c (manager s)"
proof -
  obtain es fs where e: "endpoints (pool s) = es @ (a, ep) # fs"
    using map_get_in [OF assms(8)] by (meson split_list)
  let ?order = "(a, ep) # es @ fs"
  define n where "n = nat (min (maxConnections ses - ActivePeersCount (manager s)) (int (length (GetCandidates now False ?order))))"
  have g: "GetCandidates now False ?order = a # GetCandidates now False (es @ fs)"
    using assms(9,10) by (simp add: GetCandidates_def)
  obtain m where m: "n = Suc m" using assms(6) g by (cases n) (auto simp: n_def)
  let ?rest = "take m (GetCandidates now False (es @ fs))"
  have t: "dial_tick ses now ?order s = s\<lparr>todo := a # ?rest\<rparr>"
  proof -
    have "dial_tick ses now ?order s = s\<lparr>todo := take n (GetCandidates now False ?order)\<rparr>"
      using assms(5,6) by (simp add: dial_tick_def Let_def n_def min_def)
    then show ?thesis by (simp add: g m)
  qed
  have 1: "session_next srt sha1 ih ses s (s\<lparr>todo := a # ?rest\<rparr>)"
    by (rule next_step [of _ _ _ _ "Dial_tick now ?order"]) (use assms(1-4) e t in \<open>simp add: session_step_def range_order_def\<close>)
  let ?s2 = "s\<lparr>todo := ?rest, dialing := map_put a True (dialing s), dials := dials s @ [Dialing a]\<rparr>"
  have 2: "session_next srt sha1 ih ses (s\<lparr>todo := a # ?rest\<rparr>) ?s2"
    by (rule next_step [of _ _ _ _ Dial_next]) (use assms(1,7,11) in \<open>simp add: session_step_def dial_next_def Let_def\<close>)
  let ?s3 = "?s2\<lparr>pool := MarkSucceeded a (pool s), dials := dials s @ [Connected a c]\<rparr>"
  have 3: "session_next srt sha1 ih ses ?s2 ?s3"
    by (rule next_step [of _ _ _ _ "Dial_result (length (dials s)) now conn later"])
      (use assms(1,12) in \<open>simp add: session_step_def dial_result_def\<close>)
  have 4: "session_next srt sha1 ih ses ?s3 (end_dial (length (dials s)) (?s3\<lparr>manager := AddPeer now c (manager s)\<rparr>))"
    by (rule next_step [of _ _ _ _ "Add_connected (length (dials s)) now"])
      (use assms(1) in \<open>simp add: session_step_def add_connected_def\<close>)
  have "(session_next srt sha1 ih ses)\<^sup>*\<^sup>* s (end_dial (length (dials s)) (?s3\<lparr>manager := AddPeer now c (manager s)\<rparr>))"
    using 1 2 3 4 by (meson rtranclp.rtrancl_into_rtrancl rtranclp.rtrancl_refl)
  then show ?thesis by (intro exI conjI, assumption) (simp add: end_dial_def)
qed

lemma on_initial_address: "on_initial mid payload c = Ret c' \<Longrightarrow> cl_Address c' = cl_Address c"
  by (auto simp: on_initial_def split: if_splits outcome.splits option.splits)

lemma init_loop_address: "init_loop later c = (r, c') \<Longrightarrow> cl_Address c' = cl_Address c"
proof (induction later c arbitrary: c' rule: init_loop.induct)
  case (1 later c)
  obtain m k where m: "ReadMessage (cl_Conn c) = (m, k)" by force
  show ?case
  proof (cases m)
    case (Ret mp)
    obtain mid p where mp: "mp = (mid, p)" by force
    show ?thesis
    proof (cases p)
      case None
      then show ?thesis
        using "1.prems" m Ret mp "1.IH"(1) [OF m [symmetric] Ret mp [symmetric] None] by (simp add: init_loop.simps [of later c])
    next
      case (Some payload)
      show ?thesis
      proof (cases "on_initial mid payload (c\<lparr>cl_Conn := k\<rparr>)")
        case I: (Ret d)
        then show ?thesis
          using "1.prems" m Ret mp Some on_initial_address [OF I] "1.IH"(2) [OF m [symmetric] Ret mp [symmetric] Some I]
          by (simp add: init_loop.simps [of later c])
      qed (use "1.prems" m Ret mp Some in \<open>auto simp: init_loop.simps [of later c]\<close>)
    qed
  qed (use "1.prems" m in \<open>auto simp: init_loop.simps [of later c] split: option.splits\<close>)
qed

lemma NewClient_address: "NewClient conn later a ih x = Ret c \<Longrightarrow> cl_Address c = a"
  by (auto simp: NewClient_def send_extension_handshake_def on_conn_def new_client_def io_bind_def io_ret_def
      split: option.splits prod.splits outcome.splits if_splits dest!: init_loop_address)

section \<open>A small session\<close>

definition demo_peers :: "Peer list" where
  "demo_peers = [\<lparr>peer_IP = [1, 2, 3, 4], peer_Port = 80\<rparr>, \<lparr>peer_IP = [1, 2, 3, 5], peer_Port = 80\<rparr>]"

abbreviation demo_act :: "Session \<Rightarrow> session_action \<Rightarrow> session_state \<Rightarrow> session_state option" where
  "demo_act \<equiv> session_step (isort_by rarer) toy_sha1 []"

definition demo_conn :: "conn option" where
  "demo_conn = Some \<lparr>rx = replicate 68 0, tx = [], tx_left = 9\<rparr>"

definition demo_address :: "nat \<Rightarrow> string" where
  "demo_address i = Tracker.Address (demo_peers ! i)"

definition demo_entry :: "nat \<Rightarrow> string \<times> PeerEndpoint" where
  "demo_entry i = (demo_address i, new_endpoint (demo_address i))"

definition demo_run :: "Session \<Rightarrow> session_action list \<Rightarrow> (unit, session_state) outcome" where
  "demo_run ses as = go_bind (session_init demo_pieces 3 2) (\<lambda>s. case run_steps (demo_act ses) as s of None \<Rightarrow> Err () | Some s' \<Rightarrow> Ret s')"

lemma demo_run_reach:
  assumes "demo_run ses as = Ret s"
  obtains s0 where "session_init demo_pieces (int 3) (int 2) = (Ret s0 :: (unit, session_state) outcome)"
    "(session_next (isort_by rarer) toy_sha1 [] ses)\<^sup>*\<^sup>* s0 s"
proof -
  obtain s0 where "session_init demo_pieces (int 3) (int 2) = (Ret s0 :: (unit, session_state) outcome)" "run_steps (demo_act ses) as s0 = Some s"
    using assms by (auto simp: demo_run_def split: option.splits)
  then show ?thesis using that run_steps_some_step [of "demo_act ses"] by (simp add: session_next_def)
qed

text \<open>Two ticks before the first dial is done; a download of two messages; a peer with the first piece.\<close>

definition demo_limit :: "session_action list" where
  "demo_limit = [Start_downloading (Some demo_peers), Dial_tick 1 [demo_entry 0, demo_entry 1], Dial_next,
     Dial_tick 2 [demo_entry 1, demo_entry 0], Dial_next, Dial_result 1 3 demo_conn (Some []), Dial_result 0 3 demo_conn (Some []),
     Add_connected 0 4, Add_connected 0 5]"


definition demo_connected :: "session_action list" where
  "demo_connected = [Start_manager (Ret ()), Start_downloading (Some [demo_peers ! 0]), Dial_tick 1 [demo_entry 0], Dial_next,
     Dial_result 0 2 demo_conn (Some []), Add_connected 0 3,
     Arrive [\<lparr>pm_Address = demo_address 0, pm_ID = MsgHave, pm_Payload = [0, 0, 0, 0], pm_PBuf = None\<rparr>], Message (\<lambda>_. 0) (\<lambda>_ c. c) []]"

section \<open>Theorems\<close>



text \<open>
  C36. Dialling is bounded: no more than \<open>maxWorkers\<close> dials run at a time, no address is dialled
  twice at the same time, and the connected peers and the dials together are at most
  \<open>maxConnections + maxWorkers\<close>. The limit \<open>maxConnections\<close> itself is not kept, because the dialer
  does not count the dials that are still running: a session of at most one connection gets
  two.
\<close>
theorem session_bounds:
  assumes "session_init pcs len pl = (Ret s0 :: (unit, session_state) outcome)" and "(session_next srt sha1 ih ses)\<^sup>*\<^sup>* s0 s"
  shows "length (dials s) \<le> nat (maxWorkers ses) \<and> distinct (map dial_addr (dials s)) \<and>
    length (activePeers (manager s)) + length (dials s) \<le> nat (maxConnections ses) + nat (maxWorkers ses)"
  using session_run_inv [OF assms(2)] session_init_inv [OF assms(1)] by (fastforce simp: dials_inv_def)

theorem session_bounds_witness:
  "\<exists>s. demo_run (NewSession 1 2) demo_limit = Ret s \<and> length (activePeers (manager s)) = 2 \<and>
     length (activePeers (manager s)) + length (dials s) \<le> 3"
proof -
  have "case demo_run (NewSession 1 2) demo_limit of Ret s \<Rightarrow> length (activePeers (manager s)) = 2 | _ \<Rightarrow> False" by code_simp
  then obtain s where s: "demo_run (NewSession 1 2) demo_limit = Ret s" "length (activePeers (manager s)) = 2" by (auto split: outcome.splits)
  obtain s0 where s0: "session_init demo_pieces (int 3) (int 2) = (Ret s0 :: (unit, session_state) outcome)"
    "(session_next (isort_by rarer) toy_sha1 [] (NewSession 1 2))\<^sup>*\<^sup>* s0 s"
    using demo_run_reach [OF s(1)] .
  show ?thesis using session_bounds [OF s0] s by (auto simp: NewSession_def)
qed

text \<open>
  C37. A connected peer is dialled again: a success makes its address a candidate at once, and the
  dialer does not look at the connected peers. The second connection takes the place of the
  first, and the picker forgets which pieces the peer has, while it goes on counting
  them in the availability.
\<close>
theorem connected_peer_redialled:
  assumes "result s = None" and "ready s" and "dialer s" and "todo s = []" and "\<not> IsCompleted (tm_Picker (manager s))"
    and "ActivePeersCount (manager s) < maxConnections ses" and "int (length (dials s)) < maxWorkers ses"
    and "map_get (endpoints (pool s)) a = Some ep" and "Pool.Address ep = a" and "eligible now False ep"
    and "map_get (dialing s) a \<noteq> Some True" and "NewClient conn later a ih False = Ret c"
  shows "\<exists>s'. (session_next srt sha1 ih ses)\<^sup>*\<^sup>* s s' \<and> (\<exists>c'. map_get (activePeers (manager s')) a = Some c' \<and> cl_Conn c' = cl_Conn c) \<and>
    map_get (peerPieces (tm_Picker (manager s'))) a = Some (replicate (length (pieces (tm_Picker (manager s)))) False) \<and>
    availability (tm_Picker (manager s')) = availability (tm_Picker (manager s))"
proof -
  obtain s' where s': "(session_next srt sha1 ih ses)\<^sup>*\<^sup>* s s'" "manager s' = AddPeer now c (manager s)"
    using redial_run [OF assms] by blast
  show ?thesis
    using s' NewClient_address [OF assms(12)]
    by (intro exI [of _ s']) (simp add: AddPeer_def StartLoop_def RegisterPeer_def QueueMessage_def)
qed

theorem connected_peer_redialled_witness:
  "\<exists>s s'. demo_run (NewSession 2 2) demo_connected = Ret s \<and> map_get (peerPieces (tm_Picker (manager s))) (demo_address 0) = Some [True, False] \<and>
     (session_next (isort_by rarer) toy_sha1 [] (NewSession 2 2))\<^sup>*\<^sup>* s s' \<and>
     map_get (peerPieces (tm_Picker (manager s'))) (demo_address 0) = Some [False, False] \<and> availability (tm_Picker (manager s')) = [1, 0]"
proof -
  let ?ok = "\<lambda>s. result s = None \<and> ready s \<and> dialer s \<and> todo s = [] \<and> \<not> IsCompleted (tm_Picker (manager s)) \<and>
    ActivePeersCount (manager s) = 1 \<and> length (dials s) = 0 \<and> map_get (endpoints (pool s)) (demo_address 0) = Some (new_endpoint (demo_address 0)) \<and>
    map_get (dialing s) (demo_address 0) = None \<and> length (pieces (tm_Picker (manager s))) = 2 \<and>
    map_get (peerPieces (tm_Picker (manager s))) (demo_address 0) = Some [True, False] \<and> availability (tm_Picker (manager s)) = [1, 0]"
  have "case demo_run (NewSession 2 2) demo_connected of Ret s \<Rightarrow> ?ok s | _ \<Rightarrow> False" by code_simp
  then obtain s where s: "demo_run (NewSession 2 2) demo_connected = Ret s" "?ok s" by (auto split: outcome.splits)
  have e: "Pool.Address (new_endpoint (demo_address 0)) = demo_address 0" "eligible 9 False (new_endpoint (demo_address 0))"
    by (simp_all add: new_endpoint_def eligible_def)
  have "case NewClient demo_conn (Some []) (demo_address 0) [] False of Ret c \<Rightarrow> True | _ \<Rightarrow> False" by code_simp
  then obtain c where c: "NewClient demo_conn (Some []) (demo_address 0) [] False = Ret c" by (auto split: outcome.splits)
  have "\<exists>s'. (session_next (isort_by rarer) toy_sha1 [] (NewSession 2 2))\<^sup>*\<^sup>* s s' \<and>
      (\<exists>c'. map_get (activePeers (manager s')) (demo_address 0) = Some c' \<and> cl_Conn c' = cl_Conn c) \<and>
      map_get (peerPieces (tm_Picker (manager s'))) (demo_address 0) = Some (replicate (length (pieces (tm_Picker (manager s)))) False) \<and>
      availability (tm_Picker (manager s')) = availability (tm_Picker (manager s))"
    by (rule connected_peer_redialled [OF _ _ _ _ _ _ _ _ e _ c]) (use s(2) in \<open>simp_all add: NewSession_def\<close>)
  then show ?thesis using s by (auto simp: numeral_2_eq_2)
qed


end
