(* ===== verification/Go_Url.thy ===== *)
theory Go_Url
  imports Go_Codec
begin

text \<open>
  What the source uses of \<^verbatim>\<open>net/url\<close>, \<^verbatim>\<open>encoding/base32\<close> and \<^verbatim>\<open>strings\<close> to read a magnet link: the query
  part of a URL, its parameters, the Base32 decoder without padding, and upper and lower
  case. The authority and the path of a URL with \<open>//\<close> or \<open>/\<close> after its scheme, and the case of
  characters beyond ASCII, are arguments.
\<close>

section \<open>Splitting\<close>

text \<open>\<open>strings.Cut\<close> at a character.\<close>

definition cut :: "char \<Rightarrow> string \<Rightarrow> string \<times> string" where
  "cut c s = (takeWhile (\<lambda>d. d \<noteq> c) s, drop 1 (dropWhile (\<lambda>d. d \<noteq> c) s))"

fun split_on :: "char \<Rightarrow> string \<Rightarrow> string list" where
  "split_on c [] = [[]]"
| "split_on c (d # s) =
     (if d = c then [] # split_on c s else (case split_on c s of [] \<Rightarrow> [[d]] | w # ws \<Rightarrow> (d # w) # ws))"

fun join_on :: "char \<Rightarrow> string list \<Rightarrow> string" where
  "join_on c [] = []"
| "join_on c [w] = w"
| "join_on c (w # ws) = w @ c # join_on c ws"

lemma cut_found [simp]: "c \<notin> set s \<Longrightarrow> cut c (s @ c # t) = (s, t)"
proof -
  assume "c \<notin> set s"
  then have p: "\<forall>d\<in>set s. d \<noteq> c" by auto
  show ?thesis using p by (simp add: cut_def takeWhile_append2 dropWhile_append2)
qed

lemma cut_not_found [simp]: "c \<notin> set s \<Longrightarrow> cut c s = (s, [])"
proof -
  assume "c \<notin> set s"
  then have p: "\<forall>d\<in>set s. d \<noteq> c" by auto
  then have e: "takeWhile (\<lambda>d. d \<noteq> c) s = s" "dropWhile (\<lambda>d. d \<noteq> c) s = []" by (simp_all only: takeWhile_eq_all_conv dropWhile_eq_Nil_conv)
  show ?thesis by (simp only: cut_def e drop_Nil)
qed

lemma split_on_append: "c \<notin> set s \<Longrightarrow> split_on c (s @ c # t) = s # split_on c t"
  by (induction s) (auto split: list.splits)

lemma split_on_single: "c \<notin> set s \<Longrightarrow> split_on c s = [s]"
  by (induction s) auto

lemma split_on_join: "ws \<noteq> [] \<Longrightarrow> \<forall>w\<in>set ws. c \<notin> set w \<Longrightarrow> split_on c (join_on c ws) = ws"
  by (induction c ws rule: join_on.induct) (auto simp: split_on_append split_on_single)

lemma set_join_on: "set (join_on c ws) \<subseteq> insert c (\<Union>w\<in>set ws. set w)"
  by (induction c ws rule: join_on.induct) auto

section \<open>Escaping\<close>

text \<open>\<open>url.QueryUnescape\<close> for \<open>pl\<close>, and \<open>unescape\<close> of a fragment otherwise; \<open>None\<close> for the error.\<close>

fun url_unescape :: "bool \<Rightarrow> string \<Rightarrow> string option" where
  "url_unescape pl [] = Some []"
| "url_unescape pl (c # s) =
     (if c = CHR ''%'' then
        (case s of
           a # b # s' \<Rightarrow>
             (case (hex_val a, hex_val b, url_unescape pl s') of
                (Some h, Some l, Some t) \<Rightarrow> Some (char_of_byte (of_nat (16 * h + l)) # t)
              | _ \<Rightarrow> None)
         | _ \<Rightarrow> None)
      else map_option ((#) (if pl \<and> c = CHR ''+'' then CHR '' '' else c)) (url_unescape pl s))"

text \<open>\<open>url.QueryEscape\<close>, as other programs make links.\<close>

definition is_alpha :: "char \<Rightarrow> bool" where
  "is_alpha c \<longleftrightarrow> (let n = (of_char c :: nat) in 65 \<le> n \<and> n \<le> 90 \<or> 97 \<le> n \<and> n \<le> 122)"

definition unreserved :: "char \<Rightarrow> bool" where
  "unreserved c \<longleftrightarrow> is_alpha c \<or> is_digit c \<or> c \<in> set ''-_.~''"

definition query_escape :: "string \<Rightarrow> string" where
  "query_escape s = concat (map (\<lambda>c. if unreserved c then [c] else if c = CHR '' '' then ''+''
     else [CHR ''%'', hex_char (of_char c div 16), hex_char (of_char c mod 16)]) s)"

lemma unescape_plain:
  "CHR ''%'' \<notin> set s \<Longrightarrow> CHR ''+'' \<notin> set s \<Longrightarrow> url_unescape pl (s @ t) = map_option ((@) s) (url_unescape pl t)"
  by (induction s; cases "url_unescape pl t") auto

lemma of_char_less: "(of_char c :: nat) < 256"
  using unsigned_less [of "byte_of_char c", where ?'a = nat] by simp

lemma of_char_inject: "(of_char c :: nat) = of_char d \<longleftrightarrow> c = d"
  by (metis char_of_byte_of_char byte_of_char_def char_of_byte_def unat_byte_of_char)

lemma not_unreserved: "unreserved c \<Longrightarrow> c \<notin> set ''%+&;=#?: /''"
  by (auto simp: unreserved_def is_alpha_def is_digit_def)

lemma hex_pair: "char_of_byte (of_nat (16 * (of_char c div 16) + of_char c mod 16)) = c"
proof -
  have "(of_nat (16 * (of_char c div 16) + of_char c mod 16 :: nat) :: byte) = byte_of_char c"
    by (simp only: mult_div_mod_eq unat_byte_of_char [symmetric] of_nat_unat ucast_id)
  then show ?thesis by simp
qed

lemma unescape_escape: "url_unescape True (query_escape s @ t) = map_option ((@) s) (url_unescape True t)"
proof (induction s)
  case Nil
  show ?case by (simp add: query_escape_def option.map_ident)
next
  case (Cons c s)
  have e: "query_escape (c # s) @ t = (if unreserved c then [c] else if c = CHR '' '' then ''+''
     else [CHR ''%'', hex_char (of_char c div 16), hex_char (of_char c mod 16)]) @ query_escape s @ t"
    by (simp add: query_escape_def)
  have h: "(of_char c :: nat) div 16 < 16" "(of_char c :: nat) mod 16 < 16" by (simp_all add: div_less_iff_less_mult)
  show ?case
  proof (cases "unreserved c")
    case True
    then have "c \<noteq> CHR ''%''" "c \<noteq> CHR ''+''" using not_unreserved by auto
    then show ?thesis using True Cons by (simp add: e option.map_comp o_def)
  next
    case False
    then show ?thesis using Cons h hex_pair [of c] by (auto simp: e option.map_comp o_def split: option.splits)
  qed
qed

section \<open>Parsing a URL\<close>

text \<open>\<open>getScheme\<close>: the scheme and what follows the colon, or no scheme; \<open>None\<close> for a colon at the start.\<close>

definition scheme_char :: "char \<Rightarrow> bool" where
  "scheme_char c \<longleftrightarrow> is_alpha c \<or> is_digit c \<or> c \<in> set ''+-.''"

definition getScheme :: "string \<Rightarrow> (string \<times> string) option" where
  "getScheme u =
     (let p = takeWhile scheme_char u in
      if p \<noteq> [] \<and> \<not> is_alpha (hd p) then Some ([], u)
      else
        (case dropWhile scheme_char u of
           c # rest \<Rightarrow> if c \<noteq> CHR '':'' then Some ([], u) else if p = [] then None else Some (p, rest)
         | [] \<Rightarrow> Some ([], u)))"

text \<open>
  The field \<open>RawQuery\<close> of \<open>url.Parse\<close> (\<open>None\<close> for an error). A URL with a scheme and no slash
  after it is opaque; for the others \<open>path_ok\<close> tells whether the authority and the path are
  accepted.
\<close>

definition RawQuery :: "(string \<Rightarrow> string \<Rightarrow> bool) \<Rightarrow> string \<Rightarrow> string option" where
  "RawQuery path_ok rawURL =
     (case cut (CHR ''#'') rawURL of
        (u, frag) \<Rightarrow>
          if list_ex (\<lambda>c. (of_char c :: nat) < 32 \<or> (of_char c :: nat) = 127) u then None
          else
            (case (if u = ''*'' then Some ([], u) else getScheme u) of
               None \<Rightarrow> None
             | Some (scheme, rest) \<Rightarrow>
                 (case cut (CHR ''?'') rest of
                    (rest, query) \<Rightarrow>
                      if u = ''*'' \<or> (scheme \<noteq> [] \<and> take 1 rest \<noteq> ''/'') \<or> path_ok scheme rest
                      then (if frag = [] \<or> url_unescape False frag \<noteq> None then Some query else None)
                      else None)))"

text \<open>\<open>URL.Query()\<close>: the parameters in order; one with an error is skipped.\<close>

definition query_pair :: "string \<Rightarrow> (string \<times> string) option" where
  "query_pair w =
     (if CHR '';'' \<in> set w \<or> w = [] then None
      else
        (case cut (CHR ''='') w of
           (key, value) \<Rightarrow>
             Option.bind (url_unescape True key) (\<lambda>k. map_option (Pair k) (url_unescape True value))))"

definition Query :: "string \<Rightarrow> (string \<times> string) list" where
  "Query rawQuery = List.map_filter query_pair (split_on (CHR ''&'') rawQuery)"

definition query_values :: "string \<Rightarrow> (string \<times> string) list \<Rightarrow> string list" where
  "query_values key q = map snd (filter (\<lambda>e. fst e = key) q)"

definition query_get :: "string \<Rightarrow> (string \<times> string) list \<Rightarrow> string" where
  "query_get key q = (case query_values key q of [] \<Rightarrow> [] | v # vs \<Rightarrow> v)"

section \<open>Case\<close>

text \<open>\<open>strings.ToLower\<close> and \<open>strings.ToUpper\<close>; \<open>uni\<close> is their result on a string that is not ASCII.\<close>

definition is_ascii :: "char \<Rightarrow> bool" where
  "is_ascii c \<longleftrightarrow> (of_char c :: nat) < 128"

definition lower_char :: "char \<Rightarrow> char" where
  "lower_char c = (let n = (of_char c :: nat) in if 65 \<le> n \<and> n \<le> 90 then char_of (n + 32) else c)"

definition upper_char :: "char \<Rightarrow> char" where
  "upper_char c = (let n = (of_char c :: nat) in if 97 \<le> n \<and> n \<le> 122 then char_of (n - 32) else c)"

definition ToLower :: "(string \<Rightarrow> string) \<Rightarrow> string \<Rightarrow> string" where
  "ToLower uni s = (if list_all is_ascii s then map lower_char s else uni s)"

definition ToUpper :: "(string \<Rightarrow> string) \<Rightarrow> string \<Rightarrow> string" where
  "ToUpper uni s = (if list_all is_ascii s then map upper_char s else uni s)"

section \<open>Base32\<close>

definition b32_val :: "char \<Rightarrow> byte option" where
  "b32_val c = (let n = (of_char c :: nat) in
     if 65 \<le> n \<and> n \<le> 90 then Some (of_nat (n - 65)) else if 50 \<le> n \<and> n \<le> 55 then Some (of_nat (n - 24)) else None)"

text \<open>
  One quantum of up to eight characters: the five bytes that eight characters make, of which
  a shorter one keeps those that \<open>switch dlen\<close> writes.
\<close>

definition b32_bytes :: "byte \<Rightarrow> byte \<Rightarrow> byte \<Rightarrow> byte \<Rightarrow> byte \<Rightarrow> byte \<Rightarrow> byte \<Rightarrow> byte \<Rightarrow> byte list" where
  "b32_bytes d0 d1 d2 d3 d4 d5 d6 d7 =
     [push_bit 3 d0 OR drop_bit 2 d1, push_bit 6 d1 OR push_bit 1 d2 OR drop_bit 4 d3, push_bit 4 d3 OR drop_bit 1 d4,
      push_bit 7 d4 OR push_bit 2 d5 OR drop_bit 3 d6, push_bit 5 d6 OR d7]"

definition b32_pack :: "byte list \<Rightarrow> byte list" where
  "b32_pack dbuf =
     (let d = dbuf @ replicate 8 0; dlen = length dbuf in
      take (if dlen = 8 then 5 else if dlen = 7 then 4 else if dlen = 5 then 3 else if dlen = 4 then 2 else if dlen = 2 then 1 else 0)
        (b32_bytes (d ! 0) (d ! 1) (d ! 2) (d ! 3) (d ! 4) (d ! 5) (d ! 6) (d ! 7)))"

fun b32_quanta :: "byte list \<Rightarrow> byte list" where
  "b32_quanta [] = []"
| "b32_quanta (v # vs) = b32_pack (take 8 (v # vs)) @ b32_quanta (drop 8 (v # vs))"

text \<open>\<open>StdEncoding.WithPadding(NoPadding).DecodeString\<close>: line breaks are left out first.\<close>

definition b32_decode :: "string \<Rightarrow> byte list option" where
  "b32_decode s =
     map_option b32_quanta (those (map b32_val (filter (\<lambda>c. c \<noteq> CHR 0x0A \<and> c \<noteq> CHR 0x0D) s)))"

end
