(* ===== verification/Magnet.thy ===== *)
theory Magnet
  imports Go_Url Torrent
begin

text \<open>
  Magnet links, \<open>ParseMagnet\<close> of \<^verbatim>\<open>src/torrent/magnet.go\<close>: the info hash in hexadecimal or Base32,
  the name and the trackers of a link. What is done with the metadata is in \<open>Torrent\<close>.
\<close>

section \<open>The model\<close>

datatype magnet_error =
  Parsing_magnet | Missing_xt | Not_btih | Decoding_hex_hash | Decoding_base32_hash | Invalid_hash_length nat

definition decode_info_hash :: "(string \<Rightarrow> string) \<Rightarrow> string \<Rightarrow> (magnet_error, byte list) outcome" where
  "decode_info_hash upper hashStr =
     (if length hashStr = 40 then (case hex_decode hashStr of None \<Rightarrow> Err Decoding_hex_hash | Some h \<Rightarrow> Ret h)
      else if length hashStr = 32 then (case b32_decode (ToUpper upper hashStr) of None \<Rightarrow> Err Decoding_base32_hash | Some h \<Rightarrow> Ret h)
      else Err (Invalid_hash_length (length hashStr)))"

definition ParseMagnet ::
    "(string \<Rightarrow> string \<Rightarrow> bool) \<Rightarrow> (string \<Rightarrow> string) \<Rightarrow> (string \<Rightarrow> string) \<Rightarrow> string \<Rightarrow> (magnet_error, MagnetLink) outcome" where
  "ParseMagnet path_ok lower upper uri =
     (case RawQuery path_ok uri of
        None \<Rightarrow> Err Parsing_magnet
      | Some rawQuery \<Rightarrow>
          (let xt = query_get ''xt'' (Query rawQuery) in
           if xt = [] then Err Missing_xt
           else if take 9 (ToLower lower xt) \<noteq> ''urn:btih:'' then Err Not_btih
           else
             go_bind (go_slice xt 9 (int (length xt))) (\<lambda>hashStr.
             go_bind (decode_info_hash upper hashStr) (\<lambda>infoHash.
               let trackers = query_values ''tr'' (Query rawQuery) in
               Ret \<lparr>ml_InfoHash = infoHash, ml_InfoHashHex = hex_encode infoHash, ml_Name = query_get ''dn'' (Query rawQuery),
                    TrackerURL = (case trackers of [] \<Rightarrow> [] | t # ts \<Rightarrow> t), TrackerURLs = trackers\<rparr>))))"

section \<open>Base32\<close>

text \<open>The encoder that makes links, on groups of five bytes.\<close>

definition b32_char :: "byte \<Rightarrow> char" where
  "b32_char v = ''ABCDEFGHIJKLMNOPQRSTUVWXYZ234567'' ! unat (take_bit 5 v)"

fun b32_unpack :: "byte list \<Rightarrow> byte list" where
  "b32_unpack (b0 # b1 # b2 # b3 # b4 # bs) =
     map (take_bit 5)
       [drop_bit 3 b0, push_bit 2 b0 OR drop_bit 6 b1, drop_bit 1 b1, push_bit 4 b1 OR drop_bit 4 b2, push_bit 1 b2 OR drop_bit 7 b3,
        drop_bit 2 b3, push_bit 3 b3 OR drop_bit 5 b4, b4] @ b32_unpack bs"
| "b32_unpack _ = []"

definition b32_encode :: "byte list \<Rightarrow> string" where
  "b32_encode bs = map b32_char (b32_unpack bs)"

lemma unat_take_bit_5: "unat (take_bit 5 v :: byte) < 32"
  using take_bit_nat_less_exp [of 5 "unat v"] by (simp add: unsigned_take_bit_eq)

lemma b32_vals: "list_all (\<lambda>n. b32_val (''ABCDEFGHIJKLMNOPQRSTUVWXYZ234567'' ! n) = Some (of_nat n)) [0..<32]"
  by code_simp

lemma b32_val_char: "b32_val (b32_char v) = Some (take_bit 5 v)"
  using b32_vals unat_take_bit_5 [of v] by (simp add: b32_char_def list_all_iff)

lemma byte_eqI: "list_all (\<lambda>n. bit a n = bit b n) [0, 1, 2, 3, 4, 5, 6, 7] \<Longrightarrow> a = (b :: byte)"
proof (rule bit_word_eqI)
  fix n
  assume "list_all (\<lambda>n. bit a n = bit b n) [0, 1, 2, 3, 4, 5, 6, 7]" "n < LENGTH(8)"
  moreover have "n < 8 \<Longrightarrow> n \<in> set [0, 1, 2, 3, 4, 5, 6, 7]" by (simp, presburger)
  ultimately show "bit a n = bit b n" by (auto simp: list_all_iff)
qed

lemma bit_beyond: "8 \<le> n \<Longrightarrow> \<not> bit (b :: byte) n"
  using bit_imp_le_length [of b n] by auto

lemma bytes_unpack:
  fixes b0 b1 b2 b3 b4 :: byte
  shows "b32_bytes (take_bit 5 (drop_bit 3 b0)) (take_bit 5 (push_bit 2 b0 OR drop_bit 6 b1)) (take_bit 5 (drop_bit 1 b1))
    (take_bit 5 (push_bit 4 b1 OR drop_bit 4 b2)) (take_bit 5 (push_bit 1 b2 OR drop_bit 7 b3)) (take_bit 5 (drop_bit 2 b3))
    (take_bit 5 (push_bit 3 b3 OR drop_bit 5 b4)) (take_bit 5 b4) = [b0, b1, b2, b3, b4]"
  unfolding b32_bytes_def list.inject
  by (intro conjI refl; rule byte_eqI; simp add: bit_simps bit_beyond mult.commute [of _ "2 :: byte"]
      numeral_2_eq_2 [symmetric] numeral_3_eq_3 [symmetric])

lemma dvd_5_Suc: "5 dvd Suc (Suc (Suc (Suc (Suc n)))) \<longleftrightarrow> 5 dvd (n :: nat)"
  by presburger

lemma not_dvd_5: "\<not> 5 dvd Suc 0" "\<not> 5 dvd Suc (Suc 0)" "\<not> 5 dvd Suc (Suc (Suc 0))" "\<not> 5 dvd Suc (Suc (Suc (Suc 0)))"
  by presburger+

lemma quanta_unpack: "5 dvd length bs \<Longrightarrow> b32_quanta (b32_unpack bs) = bs"
proof (induction bs rule: b32_unpack.induct)
  case (1 b0 b1 b2 b3 b4 bs)
  then have "5 dvd length bs" by (simp add: dvd_5_Suc)
  with 1 show ?case using bytes_unpack [of b0 b1 b2 b3 b4] by (simp add: b32_pack_def del: drop_bit_Suc)
qed (simp_all add: not_dvd_5)

lemma take_bit_unpack: "map (take_bit 5) (b32_unpack bs) = b32_unpack bs"
  by (induction bs rule: b32_unpack.induct) simp_all

text \<open>The characters of a hash in a link, each decided by evaluation.\<close>

lemma alphabet: "list_all (\<lambda>c. unreserved c \<and> is_ascii c \<and> upper_char c = c \<and> upper_char (lower_char c) = c \<and> unreserved (lower_char c) \<and>
    is_ascii (lower_char c)) ''ABCDEFGHIJKLMNOPQRSTUVWXYZ234567''"
  by code_simp

lemma hex_alphabet: "list_all (\<lambda>c. unreserved c \<and> is_ascii c \<and> hex_val (upper_char c) = hex_val c \<and> unreserved (upper_char c) \<and>
    is_ascii (upper_char c)) ''0123456789abcdef''"
  by code_simp

lemma b32_chars: "c \<in> set (b32_encode bs) \<Longrightarrow> c \<in> set ''ABCDEFGHIJKLMNOPQRSTUVWXYZ234567''"
proof -
  have "b32_char v \<in> set ''ABCDEFGHIJKLMNOPQRSTUVWXYZ234567''" for v
    unfolding b32_char_def using unat_take_bit_5 [of v] by (intro nth_mem, elim less_le_trans) simp
  then show "c \<in> set (b32_encode bs) \<Longrightarrow> ?thesis" by (auto simp: b32_encode_def simp del: list.set)
qed

lemma hex_chars: "c \<in> set (hex_encode bs) \<Longrightarrow> c \<in> set ''0123456789abcdef''"
proof (induction bs)
  case (Cons b bs)
  have h: "hex_char d \<in> set ''0123456789abcdef''" if "d < 16" for d
    unfolding hex_char_def using that by (intro nth_mem, elim less_le_trans) simp
  have d: "unat b div 16 < 16" using unsigned_less [of b, where ?'a = nat] by simp
  have "hex_encode (b # bs) = [hex_char (unat b div 16), hex_char (unat b mod 16)] @ hex_encode bs"
    by (simp add: hex_encode_def)
  then consider "c = hex_char (unat b div 16)" | "c = hex_char (unat b mod 16)" | "c \<in> set (hex_encode bs)" using Cons.prems by auto
  then show ?case
    by cases (use Cons.IH h d in \<open>simp_all only: mod_less_divisor zero_less_numeral\<close>)
qed (simp add: hex_encode_def)

lemma length_unpack: "5 dvd length bs \<Longrightarrow> 5 * length (b32_unpack bs) = 8 * length bs"
  by (induction bs rule: b32_unpack.induct) (auto simp: dvd_5_Suc not_dvd_5)

lemma b32_decode_encode: "5 dvd length bs \<Longrightarrow> b32_decode (b32_encode bs) = Some bs"
proof -
  assume l: "5 dvd length bs"
  have "\<forall>c\<in>set (b32_encode bs). c \<noteq> CHR 0x0A \<and> c \<noteq> CHR 0x0D" using b32_chars by fastforce
  then have "filter (\<lambda>c. c \<noteq> CHR 0x0A \<and> c \<noteq> CHR 0x0D) (b32_encode bs) = b32_encode bs" by (simp add: filter_id_conv)
  moreover have "those (map (Some \<circ> f) xs) = Some (map f xs)" for f :: "byte \<Rightarrow> byte" and xs by (induction xs) simp_all
  then have "those (map b32_val (b32_encode bs)) = Some (map (take_bit 5) (b32_unpack bs))"
    by (simp add: b32_encode_def o_def b32_val_char)
  ultimately show ?thesis using quanta_unpack [OF l] by (simp add: b32_decode_def take_bit_unpack)
qed

lemma hex_decode_upper: "list_all (\<lambda>c. hex_val (upper_char c) = hex_val c) s \<Longrightarrow> hex_decode (map upper_char s) = hex_decode s"
  by (induction s rule: hex_decode.induct) (auto split: option.splits)

section \<open>Links\<close>

definition magnet_uri :: "string \<Rightarrow> string \<Rightarrow> string list \<Rightarrow> string" where
  "magnet_uri hash name trackers =
     ''magnet:?'' @ join_on (CHR ''&'')
       ((''xt=urn:btih:'' @ hash) # (''dn='' @ query_escape name) # map (\<lambda>t. ''tr='' @ query_escape t) trackers)"

lemma query_escape_chars: "c \<in> set (query_escape s) \<Longrightarrow> unreserved c \<or> c = CHR ''%'' \<or> c = CHR ''+''"
proof -
  have u: "d < 16 \<Longrightarrow> unreserved (hex_char d)" for d
    using hex_alphabet by (auto simp: hex_char_def list_all_length)
  have "(of_char c :: nat) div 16 < 16" for c by (simp add: div_less_iff_less_mult)
  with u show "c \<in> set (query_escape s) \<Longrightarrow> ?thesis" by (auto simp: query_escape_def split: if_splits)
qed

lemma unescape_escape_all: "url_unescape True (query_escape s) = Some s"
  using unescape_escape [of s "[]"] by simp

lemma unescape_plain_all: "\<forall>c\<in>set s. unreserved c \<or> c = CHR '':'' \<Longrightarrow> url_unescape True s = Some s"
  using unescape_plain [of s True "[]"] not_unreserved by (cases "CHR ''%'' \<in> set s \<or> CHR ''+'' \<in> set s") auto

definition safe_char :: "char \<Rightarrow> bool" where
  "safe_char c \<longleftrightarrow> unreserved c \<or> c \<in> set ''%+:=''"

lemma safe_literals: "list_all safe_char ''xt=urn:btih:''" "list_all safe_char ''dn=''" "list_all safe_char ''tr=''"
  "list_all (\<lambda>c. \<not> safe_char c) ''&;#''"
  by code_simp+

lemma safe_not_control: "safe_char c \<or> c = CHR ''&'' \<Longrightarrow> \<not> ((of_char c :: nat) < 32 \<or> (of_char c :: nat) = 127)"
  by (auto simp: safe_char_def unreserved_def is_alpha_def is_digit_def Let_def)

lemma safe_unreserved: "unreserved c \<Longrightarrow> safe_char c"
  by (simp add: safe_char_def)

lemma safe_escape: "list_all safe_char (query_escape s)"
  using query_escape_chars by (fastforce simp: safe_char_def list_all_iff)

lemma link_parameters:
  assumes "\<forall>c\<in>set hash. unreserved c"
  shows "RawQuery path_ok (magnet_uri hash name trackers) = Some (drop 8 (magnet_uri hash name trackers))"
    "Query (drop 8 (magnet_uri hash name trackers)) = (''xt'', ''urn:btih:'' @ hash) # (''dn'', name) # map (Pair ''tr'') trackers"
proof -
  let ?ws = "(''xt=urn:btih:'' @ hash) # (''dn='' @ query_escape name) # map (\<lambda>t. ''tr='' @ query_escape t) trackers"
  define Q where "Q = join_on (CHR ''&'') ?ws"
  have m: "magnet_uri hash name trackers = ''magnet:?'' @ Q" by (simp only: magnet_uri_def Q_def)
  have safe: "safe_char c" if "w \<in> set ?ws" "c \<in> set w" for w c
  proof -
    have "list_all safe_char hash" using assms safe_unreserved by (simp add: list_all_iff)
    then have "list_all safe_char w" using that(1) safe_literals(1-3) safe_escape by auto
    then show ?thesis using that(2) by (simp only: list_all_iff)
  qed
  have bad: "\<not> safe_char (CHR ''&'')" "\<not> safe_char (CHR '';'')" "\<not> safe_char (CHR ''#'')" using safe_literals(4) by simp_all
  have q: "safe_char c \<or> c = CHR ''&''" if "c \<in> set Q" for c
    using that set_join_on [of "CHR ''&''" ?ws, folded Q_def] safe by blast
  have h: "CHR ''#'' \<notin> set Q" "list_ex (\<lambda>c. (of_char c :: nat) < 32 \<or> (of_char c :: nat) = 127) Q = False"
    using q bad(3) safe_not_control by (fastforce simp: list_ex_iff)+
  have s: "getScheme (''magnet:?'' @ Q) = Some (''magnet'', ''?'' @ Q)"
    by (simp add: getScheme_def scheme_char_def is_alpha_def is_digit_def)
  have "cut (CHR ''#'') (''magnet:?'' @ Q) = (''magnet:?'' @ Q, [])" using h(1) by (intro cut_not_found) simp
  moreover have "cut (CHR ''?'') (''?'' @ Q) = ([], Q)" by (simp add: cut_def)
  ultimately show "RawQuery path_ok (magnet_uri hash name trackers) = Some (drop 8 (magnet_uri hash name trackers))"
    using h(2) s by (simp add: RawQuery_def m)
  have "split_on (CHR ''&'') Q = ?ws" unfolding Q_def using safe bad(1) by (intro split_on_join) blast+
  moreover have "query_pair (''xt=urn:btih:'' @ hash) = Some (''xt'', ''urn:btih:'' @ hash)"
  proof -
    have "cut (CHR ''='') (''xt'' @ CHR ''='' # (''urn:btih:'' @ hash)) = (''xt'', ''urn:btih:'' @ hash)" by (rule cut_found) simp
    moreover have "url_unescape True (''urn:btih:'' @ hash) = Some (''urn:btih:'' @ hash)"
      by (rule unescape_plain_all) (use assms in \<open>auto simp: unreserved_def is_alpha_def\<close>)
    moreover have "CHR '';'' \<notin> set (''xt=urn:btih:'' @ hash)" using safe [of "''xt=urn:btih:'' @ hash"] bad(2) by (meson list.set_intros(1))
    ultimately show ?thesis by (simp add: query_pair_def)
  qed
  moreover have "query_pair (k @ CHR ''='' # query_escape v) = Some (k, v)" if "k \<in> {''dn'', ''tr''}" for k v
  proof -
    have "CHR '';'' \<notin> set (query_escape v)" using safe_escape [of v] bad(2) by (auto simp: list_all_iff)
    moreover have "cut (CHR ''='') (k @ CHR ''='' # query_escape v) = (k, query_escape v)" using that by (intro cut_found) auto
    moreover have "url_unescape True k = Some k" using that by auto
    ultimately show ?thesis using that by (auto simp: query_pair_def unescape_escape_all)
  qed
  from this [of "''dn''" name] this [of "''tr''"] have "query_pair (''dn='' @ query_escape name) = Some (''dn'', name)"
    "query_pair (''tr='' @ query_escape t) = Some (''tr'', t)" for t by simp_all
  then have "List.map_filter query_pair (map (\<lambda>t. ''tr='' @ query_escape t) trackers) = map (Pair ''tr'') trackers"
    "query_pair (''dn='' @ query_escape name) = Some (''dn'', name)"
    by (induction trackers) (simp_all add: List.map_filter_simps)
  ultimately show "Query (drop 8 (magnet_uri hash name trackers)) = (''xt'', ''urn:btih:'' @ hash) # (''dn'', name) # map (Pair ''tr'') trackers"
    by (simp add: Query_def m List.map_filter_simps)
qed

lemma take_drop_btih: "take 9 (''urn:btih:'' @ s) = ''urn:btih:''" "drop 9 (''urn:btih:'' @ s) = s"
  by simp_all

lemma ParseMagnet_link:
  assumes "\<forall>c\<in>set hash. unreserved c \<and> is_ascii c"
  shows "ParseMagnet path_ok lower upper (magnet_uri hash name trackers) =
    go_bind (decode_info_hash upper hash) (\<lambda>infoHash.
      Ret \<lparr>ml_InfoHash = infoHash, ml_InfoHashHex = hex_encode infoHash, ml_Name = name,
           TrackerURL = (case trackers of [] \<Rightarrow> [] | t # ts \<Rightarrow> t), TrackerURLs = trackers\<rparr>)"
proof -
  have q: "RawQuery path_ok (magnet_uri hash name trackers) = Some (drop 8 (magnet_uri hash name trackers))"
    "Query (drop 8 (magnet_uri hash name trackers)) = (''xt'', ''urn:btih:'' @ hash) # (''dn'', name) # map (Pair ''tr'') trackers"
    using link_parameters [of hash] assms by blast+
  let ?q = "Query (drop 8 (magnet_uri hash name trackers))"
  have v: "query_get ''xt'' ?q = ''urn:btih:'' @ hash" "query_get ''dn'' ?q = name" "query_values ''tr'' ?q = trackers"
    by (simp_all add: q(2) query_get_def query_values_def o_def)
  have "list_all is_ascii (''urn:btih:'' @ hash)" using assms by (simp add: list_all_iff is_ascii_def)
  then have "ToLower lower (''urn:btih:'' @ hash) = map lower_char ''urn:btih:'' @ map lower_char hash"
    by (simp only: ToLower_def if_True map_append)
  then have l: "take 9 (ToLower lower (''urn:btih:'' @ hash)) = ''urn:btih:''" by (simp add: lower_char_def)
  have s: "go_slice (''urn:btih:'' @ hash) 9 (int (length (''urn:btih:'' @ hash))) = (Ret hash :: (magnet_error, string) outcome)"
    by (simp add: go_slice_def)
  have n: "(''urn:btih:'' @ hash = []) = False" by simp
  show ?thesis unfolding ParseMagnet_def q(1) by (simp only: option.case Let_def v l s n if_False go_bind.simps simp_thms)
qed

lemma decode_info_hash_forms:
  assumes "length ih = 20" and "hash \<in> {hex_encode ih, map upper_char (hex_encode ih), b32_encode ih, map lower_char (b32_encode ih)}"
  shows "decode_info_hash upper hash = Ret ih \<and> (\<forall>c\<in>set hash. unreserved c \<and> is_ascii c)"
proof -
  have h: "unreserved c \<and> is_ascii c \<and> hex_val (upper_char c) = hex_val c \<and> unreserved (upper_char c) \<and> is_ascii (upper_char c)"
    if "c \<in> set (hex_encode ih)" for c using hex_alphabet hex_chars [OF that] by (simp only: list_all_iff)
  have b: "unreserved c \<and> is_ascii c \<and> upper_char c = c \<and> upper_char (lower_char c) = c \<and> unreserved (lower_char c) \<and> is_ascii (lower_char c)"
    if "c \<in> set (b32_encode ih)" for c using alphabet b32_chars [OF that] by (simp only: list_all_iff)
  have l: "length (b32_encode ih) = 32" using length_unpack [of ih] assms(1) by (simp add: b32_encode_def)
  have u: "ToUpper upper (b32_encode ih) = b32_encode ih" "ToUpper upper (map lower_char (b32_encode ih)) = b32_encode ih"
    using b by (simp_all add: ToUpper_def list_all_iff map_idI)
  have x: "hex_decode (map upper_char (hex_encode ih)) = Some ih" using h by (simp add: hex_decode_upper list_all_iff)
  have d: "b32_decode (b32_encode ih) = Some ih" using assms(1) by (intro b32_decode_encode) simp
  show ?thesis using assms(2)
  proof (elim insertE emptyE)
    assume "hash = hex_encode ih" then show ?thesis using h assms(1) by (simp add: decode_info_hash_def)
  next
    assume "hash = map upper_char (hex_encode ih)" then show ?thesis using h x assms(1) by (simp add: decode_info_hash_def)
  next
    assume "hash = b32_encode ih" then show ?thesis using b l u d by (simp add: decode_info_hash_def)
  next
    assume "hash = map lower_char (b32_encode ih)" then show ?thesis using b l u d by (simp add: decode_info_hash_def)
  qed
qed

lemma length_pack: "length d \<le> 8 \<Longrightarrow> 8 * length (b32_pack d) \<le> 5 * length d"
  by (simp add: b32_pack_def b32_bytes_def Let_def)

lemma length_quanta: "8 * length (b32_quanta vs) \<le> 5 * length vs"
proof (induction vs rule: b32_quanta.induct)
  case (2 v vs)
  have "8 * length (b32_pack (take 8 (v # vs))) \<le> 5 * length (take 8 (v # vs))" by (rule length_pack) simp
  moreover have "length (take 8 (v # vs)) + length (drop 8 (v # vs)) = length (v # vs)" by simp
  moreover have "8 * a \<le> 5 * t \<Longrightarrow> t + d = l \<Longrightarrow> 8 * b \<le> 5 * d \<Longrightarrow> 8 * (a + b) \<le> 5 * l" for a b d l t :: nat by presburger
  ultimately show ?case using 2 unfolding b32_quanta.simps length_append by blast
qed simp

lemma length_b32_decode: "b32_decode s = Some h \<Longrightarrow> 8 * length h \<le> 5 * length s"
proof -
  have t: "those os = Some xs \<Longrightarrow> length xs = length os" for os :: "byte option list" and xs
    by (induction os arbitrary: xs) (auto split: option.splits)
  assume "b32_decode s = Some h"
  then obtain vs where v: "those (map b32_val (filter (\<lambda>c. c \<noteq> CHR 0x0A \<and> c \<noteq> CHR 0x0D) s)) = Some vs" and "h = b32_quanta vs"
    by (auto simp: b32_decode_def)
  have "length vs \<le> length s" using t [OF v] length_filter_le [of "\<lambda>c. c \<noteq> CHR 0x0A \<and> c \<noteq> CHR 0x0D" s] by (simp only: length_map)
  then show ?thesis using length_quanta [of vs] unfolding \<open>h = b32_quanta vs\<close> by presburger
qed

section \<open>Theorems\<close>

text \<open>
  C39. A link is read as it was written: for an info hash of twenty bytes, in hexadecimal or in
  Base32, in either case of letters, and any name and trackers, \<open>ParseMagnet\<close> returns them, the
  first tracker as the primary one.
\<close>
theorem magnet_roundtrip:
  assumes "length ih = 20" and "hash \<in> {hex_encode ih, map upper_char (hex_encode ih), b32_encode ih, map lower_char (b32_encode ih)}"
  shows "ParseMagnet path_ok lower upper (magnet_uri hash name trackers) =
    Ret \<lparr>ml_InfoHash = ih, ml_InfoHashHex = hex_encode ih, ml_Name = name,
         TrackerURL = (case trackers of [] \<Rightarrow> [] | t # ts \<Rightarrow> t), TrackerURLs = trackers\<rparr>"
  using ParseMagnet_link [of hash] decode_info_hash_forms [OF assms, of upper] by simp

theorem magnet_roundtrip_witness:
  "ParseMagnet (\<lambda>_ _. True) (\<lambda>s. s) (\<lambda>s. s) ''magnet:?xt=urn:btih:aeaqcaibaeaqcaibaeaqcaibaeaqcaib&dn=a+%26&tr=udp%3a%2f%2ft'' =
     Ret \<lparr>ml_InfoHash = replicate 20 1, ml_InfoHashHex = concat (replicate 20 ''01''), ml_Name = ''a &'', TrackerURL = ''udp://t'', TrackerURLs = [''udp://t'']\<rparr>"
proof -
  have "magnet_uri (map lower_char (b32_encode (replicate 20 1))) ''a &'' [''udp://t''] =
      ''magnet:?xt=urn:btih:aeaqcaibaeaqcaibaeaqcaibaeaqcaib&dn=a+%26&tr=udp%3a%2f%2ft''"
    "hex_encode (replicate 20 1) = concat (replicate 20 ''01'')" by code_simp+
  then show ?thesis
    using magnet_roundtrip [of "replicate 20 1" "map lower_char (b32_encode (replicate 20 1))" "\<lambda>_ _. True" "\<lambda>s. s" "\<lambda>s. s" "''a &''" "[''udp://t'']"]
    by simp
qed

text \<open>
  C40. What a parsed link looks like: its hexadecimal hash is that of its info hash, its primary
  tracker is the first of its trackers, and the info hash has at most twenty bytes. It can
  have fewer: the Base32 decoder leaves out line breaks, so 32 of them make an empty info hash
  that passes the check of the length. (\<open>ToUpper\<close> maps each code point to one.)
\<close>
theorem magnet_wellformed:
  assumes "\<And>s. list_all is_ascii (upper s) \<Longrightarrow> length (upper s) \<le> length s"
    and "ParseMagnet path_ok lower upper uri = Ret m"
  shows "ml_InfoHashHex m = hex_encode (ml_InfoHash m) \<and> length (ml_InfoHash m) \<le> 20 \<and>
    TrackerURL m = (case TrackerURLs m of [] \<Rightarrow> [] | t # ts \<Rightarrow> t)"
proof -
  have "length h \<le> 20" if "decode_info_hash upper s = Ret h" for s h
  proof (cases "length s = 40")
    case True
    then show ?thesis using that hex_decode_length [of s h] by (auto simp: decode_info_hash_def split: option.splits)
  next
    case False
    then have s: "length s = 32" "b32_decode (ToUpper upper s) = Some h"
      using that by (auto simp: decode_info_hash_def split: if_splits option.splits)
    have "length (ToUpper upper s) \<le> length s \<or> \<not> list_all is_ascii (ToUpper upper s)" using assms(1) by (auto simp: ToUpper_def)
    moreover have "list_all is_ascii (filter (\<lambda>c. c \<noteq> CHR 0x0A \<and> c \<noteq> CHR 0x0D) (ToUpper upper s))"
    proof -
      have t: "those (map b32_val cs) = Some vs \<Longrightarrow> list_all is_ascii cs" for cs vs
        by (induction cs arbitrary: vs) (auto simp: b32_val_def is_ascii_def Let_def split: option.splits if_splits)
      show ?thesis using s(2) t by (auto simp: b32_decode_def)
    qed
    then have "list_all is_ascii (ToUpper upper s)" by (auto simp: list_all_iff is_ascii_def)
    ultimately show ?thesis using length_b32_decode [OF s(2)] s(1) by simp
  qed
  then show ?thesis using assms(2) by (auto simp: ParseMagnet_def Let_def split: option.splits if_splits)
qed

theorem magnet_wellformed_witness:
  "\<exists>m. ParseMagnet (\<lambda>_ _. True) (\<lambda>s. s) (\<lambda>s. s) (''magnet:?xt=urn:btih:'' @ concat (replicate 32 ''%0A'')) = Ret m \<and>
     ml_InfoHash m = [] \<and> ml_InfoHashHex m = [] \<and> length (ml_InfoHash m) \<le> 20"
proof -
  let ?p = "ParseMagnet (\<lambda>_ _. True) (\<lambda>s. s) (\<lambda>s. s) (''magnet:?xt=urn:btih:'' @ concat (replicate 32 ''%0A''))"
  have "case ?p of Ret m \<Rightarrow> ml_InfoHash m = [] | _ \<Rightarrow> False" by code_simp
  then obtain m where m: "?p = Ret m" "ml_InfoHash m = []" by (auto split: outcome.splits)
  show ?thesis using magnet_wellformed [OF _ m(1)] m by (simp add: hex_encode_def)
qed

end
