(* ===== verification/Spec2Isabelle.thy ===== *)
theory Spec2Isabelle
  imports Picker_Correct Pool Dht_Lookup Manager_Correct Extension File_Writer Concurrent Session Magnet
begin

text \<open>
  Verification of a BitTorrent client and seeder written in Go (\<^verbatim>\<open>src/\<close>).

  \<^bold>\<open>The program.\<close> A torrent file or magnet link names a file (or several) by a list of SHA-1
  hashes of its pieces. The program finds peers that have the file (through HTTP and UDP
  trackers and the DHT), talks to them over the peer wire protocol, downloads blocks,
  verifies pieces and writes the files; its seeder serves verified pieces to others.

  \<^bold>\<open>The conventions.\<close> A Go function that can fail or panic returns an \<open>outcome\<close> (\<open>Ret\<close>, \<open>Err\<close> or
  \<open>Panic\<close>, \<open>Go_Prelude\<close>). \<open>int\<close> is an integer with \<open>wrap64\<close> where it may leave 64 bits, bytes and the
  integers of the wire formats are words. A connection is the list of bytes still to come
  and the list of bytes written (\<open>Wire\<close>), so a theorem about a connection quantifies over
  everything a peer can send. A map is an association list with one entry per key, and the
  order of a traversal is an argument (\<open>Go_Maps\<close>). SHA-1, the clock, random numbers,
  \<open>sort.Slice\<close>, the file system and the network are arguments; \<open>sort.Slice\<close> enters through the
  locale \<open>sort_slice\<close>, which states its documented contract. Goroutines that share state
  under a lock, or exchange values on channels, are step systems: every theorem about them
  quantifies over all interleavings.

  \<^bold>\<open>The theories.\<close>
  \<^item> \<open>Go_Prelude\<close>, \<open>Go_Codec\<close>, \<open>Go_Maps\<close>, \<open>Go_Path\<close>: outcomes, slices, integers, decimal and hexadecimal
    text, big-endian integers, maps, sorting, step systems, and \<^verbatim>\<open>path/filepath\<close>.
  \<^item> \<open>Bencode\<close> (\<^verbatim>\<open>bencode/decode.go\<close>): the decoder accepts exactly a grammar, which is stated apart.
  \<^item> \<open>Torrent\<close> (\<^verbatim>\<open>torrent/torrent.go\<close>, \<open>ToTorrentFile\<close> of \<^verbatim>\<open>torrent/magnet.go\<close>): torrent files, and the
    metadata that a peer sends for a magnet link.
  \<^item> \<open>Go_Url\<close>, \<open>Magnet\<close> (\<^verbatim>\<open>torrent/magnet.go\<close>): the parts of \<^verbatim>\<open>net/url\<close>, \<^verbatim>\<open>strings\<close> and \<^verbatim>\<open>encoding/base32\<close>
    that \<open>ParseMagnet\<close> uses, the parser, and the links it reads back.
  \<^item> \<open>Picker\<close>, \<open>Picker_Inv\<close>, \<open>Picker_New\<close>, \<open>Picker_Props\<close>, \<open>Picker_Correct\<close> (\<^verbatim>\<open>download/picker.go\<close>): which
    block to ask which peer for; the invariant, the refinement of a machine per block,
    rarest first, and what goes wrong in the end game.
  \<^item> \<open>Pool\<close> (\<^verbatim>\<open>peer/pool.go\<close>): known peers and their backoff.
  \<^item> \<open>Wire\<close> (\<^verbatim>\<open>peer/message.go\<close>, \<^verbatim>\<open>peer/handshake.go\<close>): frames and handshakes.
  \<^item> \<open>Peer_Client\<close>, \<open>Extension\<close>, \<open>Pipeline\<close> (\<^verbatim>\<open>peer/client.go\<close>, \<^verbatim>\<open>peer/extension.go\<close>,
    \<^verbatim>\<open>peer/pipeline.go\<close>): the blocking client, the metadata exchange, and the client's
    three loops.
  \<^item> \<open>Manager\<close>, \<open>Manager_Inv\<close>, \<open>Manager_Correct\<close> (\<^verbatim>\<open>download/manager.go\<close>): the event loop of a
    download, the verification of pieces and the storage.
  \<^item> \<open>Session\<close> (\<^verbatim>\<open>download/session.go\<close>): the manager, the dialer, the discovery and the storage as
    one step system, whose runs project to runs of the manager (locale \<open>simulation\<close>); what is
    in the file at any time, and the bounds of the dialer.
  \<^item> \<open>Download\<close>, \<open>Concurrent\<close>, \<open>File_Writer\<close> (\<^verbatim>\<open>download/\<close>): download from one peer, from many
    peers by concurrent workers, and the files that are written.
  \<^item> \<open>Seeder\<close> (\<^verbatim>\<open>seeder/\<close>): a seeding connection against a specification of its answers, the
    loading of pieces, and the server.
  \<^item> \<open>Dht_Node\<close>, \<open>Dht_Routing\<close>, \<open>Krpc\<close>, \<open>Dht_Lookup\<close> (\<^verbatim>\<open>dht/\<close>): identifiers, the routing table, the
    messages, bootstrap and the iterative lookup.
  \<^item> \<open>Tracker\<close> (\<^verbatim>\<open>tracker/\<close>): announces over HTTP and UDP.

  \<^bold>\<open>Termination.\<close> Loops are total functions with a measure. Two may run for ever in the
  program: the request loop of the manager is a \<open>partial_function\<close>, with a theorem on when
  it returns and one on when it does not; the loops that read from a connection end
  because every message uses up bytes of the input.

  \<^bold>\<open>The interfaces.\<close> The locale \<open>sort_slice\<close> and its extensions state what the callers of \<open>sort.Slice\<close>
  need (the picker and the routing table), and insertion sort is an instance. Step systems with
  guards, invariants and projections are locales of \<open>Go_Maps\<close>; they are interpreted for the
  picker, the manager, the client loops, the workers and the session by the theories of these
  components.

  \<^bold>\<open>Not modelled.\<close> Log output; drawing random identifiers; opening and closing sockets
  (\<open>New\<close> and \<open>Close\<close> of \<^verbatim>\<open>dht/dht.go\<close>, \<open>Stop\<close> and \<open>Port\<close> of \<^verbatim>\<open>seeder/server.go\<close>); the recycling of message
  buffers; deadlines, which appear as failing connections; the pause between attempts. The
  clock is an argument of every step, so no theorem says how long a run takes.
\<close>

end
